(* ===== verification/Prelude.thy ===== *)
theory Prelude
  imports Complex_Main
    "HOL-Library.Char_ord"
    "HOL-Library.List_Lexorder"
    "HOL-Library.Product_Lexorder"
    "HOL-Library.Multiset"
begin

text \<open>
  What every component of the model shares: Go's strings, errors and slices, the parts of Go's
  \<open>sort\<close> and \<open>strings\<close> packages that the source calls, the theorem collections, and generic
  lemmas on lists. A Go string is a sequence of bytes, and so is \<^typ>\<open>string\<close>: a \<^typ>\<open>char\<close> is
  one byte, and \<^const>\<open>length\<close> counts bytes as Go's \<open>len\<close> does.
\<close>

section \<open>Theorem collections\<close>

named_theorems go_consts \<open>the string constants of the source\<close>

named_theorems interval_simps \<open>facts on half-open byte ranges\<close>

section \<open>Errors\<close>

text \<open>
  A Go error is a message, or a message that wraps another error (\<open>fmt.Errorf\<close> with \<open>%w\<close>).
  A call that returns a value and an error returns \<open>Inl\<close> of the error or \<open>Inr\<close> of the value.
\<close>

datatype go_error = ErrorText string | Wrap string go_error

fun error_text :: "go_error \<Rightarrow> string" where
  "error_text (ErrorText s) = s"
| "error_text (Wrap prefix e) = prefix @ '': '' @ error_text e"

type_synonym 'a result = "go_error + 'a"

text \<open>
  The verb \<open>%q\<close> in an error message. Bytes from 128 on are taken to belong to printable runes, which
  are written as they are.
\<close>

definition hex_digit_char :: "nat \<Rightarrow> char" where
  "hex_digit_char d = char_of (if d < 10 then 48 + d else 87 + d)"

definition quote_char :: "char \<Rightarrow> string" where
  "quote_char c =
     (let n = of_char c :: nat; esc = (\<lambda>e. [CHR 0x5C, e]) in
      if n = 34 \<or> n = 92 then esc c
      else if n = 7 then esc CHR ''a'' else if n = 8 then esc CHR ''b'' else if n = 9 then esc CHR ''t''
      else if n = 10 then esc CHR ''n'' else if n = 11 then esc CHR ''v'' else if n = 12 then esc CHR ''f''
      else if n = 13 then esc CHR ''r''
      else if n < 32 \<or> n = 127 then esc CHR ''x'' @ [hex_digit_char (n div 16), hex_digit_char (n mod 16)]
      else [c])"

definition go_quote :: "string \<Rightarrow> string" where
  "go_quote s = [CHR 0x22] @ concat (map quote_char s) @ [CHR 0x22]"

section \<open>Floating point values that are only compared\<close>

text \<open>
  A threshold read from a policy file can be any \<open>float64\<close>: YAML writes \<open>.nan\<close> and \<open>.inf\<close>.
  The scores of this repository's detectors are finite constants and are rationals here.
\<close>

datatype float64 = NaN | NegInf | Finite rat | PosInf

fun less_than_float64 :: "rat \<Rightarrow> float64 \<Rightarrow> bool" where
  "less_than_float64 x NaN = False"
| "less_than_float64 x NegInf = False"
| "less_than_float64 x (Finite y) = (x < y)"
| "less_than_float64 x PosInf = True"

section \<open>Slices\<close>

text \<open>Go's \<open>s[i:j]\<close>: out-of-range or crossed bounds panic, which is \<^const>\<open>None\<close> here.\<close>

definition go_slice :: "'a list \<Rightarrow> int \<Rightarrow> int \<Rightarrow> 'a list option" where
  "go_slice xs i j =
     (if 0 \<le> i \<and> i \<le> j \<and> j \<le> int (length xs) then Some (take (nat j - nat i) (drop (nat i) xs))
      else None)"

lemma go_slice_prefix: "0 \<le> j \<Longrightarrow> j \<le> int (length xs) \<Longrightarrow> go_slice xs 0 j = Some (take (nat j) xs)"
  by (simp add: go_slice_def)

lemma go_slice_suffix:
  "0 \<le> i \<Longrightarrow> i \<le> int (length xs) \<Longrightarrow> go_slice xs i (int (length xs)) = Some (drop (nat i) xs)"
  by (simp add: go_slice_def)

lemma go_slice_panics: "go_slice xs i j = None \<longleftrightarrow> \<not> (0 \<le> i \<and> i \<le> j \<and> j \<le> int (length xs))"
  by (simp add: go_slice_def)

section \<open>Package sort\<close>

text \<open>
  \<open>sort.Search\<close> is a binary search for the least index at which a monotone predicate holds.
  \<open>sort.Slice\<close> and \<open>sort.SliceStable\<close> are the library's \<^const>\<open>sort\<close> and the stable
  \<^const>\<open>sort_key\<close> at the comparator's key.
\<close>

function sort_search_loop :: "(nat \<Rightarrow> bool) \<Rightarrow> nat \<Rightarrow> nat \<Rightarrow> nat" where
  "sort_search_loop f i j =
     (if i < j then
        let h = (i + j) div 2 in
        if \<not> f h then sort_search_loop f (h + 1) j else sort_search_loop f i h
      else i)"
  by pat_completeness auto
termination
  by (relation "measure (\<lambda>(f, i, j). j - i)") auto

declare sort_search_loop.simps [simp del]

definition sort_Search :: "nat \<Rightarrow> (nat \<Rightarrow> bool) \<Rightarrow> nat" where
  "sort_Search n f = sort_search_loop f 0 n"

lemma sort_search_loop_spec:
  assumes "i \<le> j" "j \<le> n"
    and "\<And>k. k < i \<Longrightarrow> \<not> f k"
    and mono: "\<And>a b. a \<le> b \<Longrightarrow> b < n \<Longrightarrow> f a \<Longrightarrow> f b"
    and "j < n \<Longrightarrow> f j"
  shows "sort_search_loop f i j \<le> j \<and> (\<forall>k < sort_search_loop f i j. \<not> f k)
    \<and> (sort_search_loop f i j < n \<longrightarrow> f (sort_search_loop f i j))"
  using assms
proof (induction f i j rule: sort_search_loop.induct)
  case (1 f i j)
  show ?case
  proof (cases "i < j")
    case False
    then have "sort_search_loop f i j = i" by (simp add: sort_search_loop.simps [of f i j])
    with False "1.prems" show ?thesis by auto
  next
    case True
    define h where "h = (i + j) div 2"
    have h: "i \<le> h" "h < j" using True by (auto simp: h_def)
    show ?thesis
    proof (cases "f h")
      case True
      then have "sort_search_loop f i j = sort_search_loop f i h"
        using \<open>i < j\<close> by (simp add: sort_search_loop.simps [of f i j] h_def Let_def)
      moreover have "sort_search_loop f i h \<le> h \<and> (\<forall>k < sort_search_loop f i h. \<not> f k)
          \<and> (sort_search_loop f i h < n \<longrightarrow> f (sort_search_loop f i h))"
        using "1.IH"(2) [OF \<open>i < j\<close> h_def] True h "1.prems" by simp
      ultimately show ?thesis using h by simp
    next
      case False
      then have "sort_search_loop f i j = sort_search_loop f (h + 1) j"
        using \<open>i < j\<close> by (simp add: sort_search_loop.simps [of f i j] h_def Let_def)
      moreover have "\<And>k. k < h + 1 \<Longrightarrow> \<not> f k"
        using False h "1.prems"(2) "1.prems"(4) by (metis less_Suc_eq_le Suc_eq_plus1 less_le_trans)
      ultimately show ?thesis
        using "1.IH"(1) [OF \<open>i < j\<close> h_def False] h "1.prems" by simp
    qed
  qed
qed

lemma sort_Search_spec:
  assumes "\<And>a b. a \<le> b \<Longrightarrow> b < n \<Longrightarrow> f a \<Longrightarrow> f b"
  shows "sort_Search n f \<le> n \<and> (\<forall>k < sort_Search n f. \<not> f k)
    \<and> (sort_Search n f < n \<longrightarrow> f (sort_Search n f))"
  unfolding sort_Search_def by (rule sort_search_loop_spec) (use assms in auto)

section \<open>Package strings\<close>

fun has_prefix :: "string \<Rightarrow> string \<Rightarrow> bool" where
  "has_prefix s [] = True"
| "has_prefix [] (p # ps) = False"
| "has_prefix (c # cs) (p # ps) = (c = p \<and> has_prefix cs ps)"

definition cut_prefix :: "string \<Rightarrow> string \<Rightarrow> string option" where
  "cut_prefix s p = (if has_prefix s p then Some (drop (length p) s) else None)"

definition has_suffix :: "string \<Rightarrow> string \<Rightarrow> bool" where
  "has_suffix s p = has_prefix (rev s) (rev p)"

definition lower_byte :: "char \<Rightarrow> char" where
  "lower_byte c = (if CHR ''A'' \<le> c \<and> c \<le> CHR ''Z'' then char_of (of_char c + (32 :: nat)) else c)"

lemma has_prefix_iff: "has_prefix s p \<longleftrightarrow> (\<exists>t. s = p @ t)"
  by (induction s p rule: has_prefix.induct) auto

lemma cut_prefix_iff: "cut_prefix s p = Some t \<longleftrightarrow> s = p @ t"
  by (auto simp: cut_prefix_def has_prefix_iff)

section \<open>Decimal numbers\<close>

fun go_itoa :: "nat \<Rightarrow> string" where
  "go_itoa n = (if n < 10 then [char_of (48 + n)] else go_itoa (n div 10) @ [char_of (48 + n mod 10)])"

declare go_itoa.simps [simp del]

section \<open>Half-open ranges\<close>

lemma range_subset [interval_simps]:
  "a < b \<Longrightarrow> {a..<b} \<subseteq> {c..<d} \<longleftrightarrow> c \<le> a \<and> b \<le> (d :: int)"
  by auto

end
