(* ===== verification/Utf8.thy ===== *)
theory Utf8
  imports Prelude
begin

text \<open>
  UTF-8 as Go reads it (package \<open>unicode/utf8\<close> and the \<open>range\<close> loop over a string): the decoder
  returns a rune and its width, and an invalid byte is the replacement rune with width 1. Shared by
  the regular expressions, the normalizer and the adapters.
\<close>

definition byte_of :: "char \<Rightarrow> nat" where
  "byte_of c = of_char c"

definition RuneError :: nat where
  "RuneError = 0xFFFD"

definition cont_byte :: "nat \<Rightarrow> bool" where
  "cont_byte b = (0x80 \<le> b \<and> b \<le> 0xBF)"

text \<open>The range the second byte must lie in, which rules out overlong forms and surrogates.\<close>

definition second_lo :: "nat \<Rightarrow> nat" where
  "second_lo b = (if b = 0xE0 then 0xA0 else if b = 0xF0 then 0x90 else 0x80)"

definition second_hi :: "nat \<Rightarrow> nat" where
  "second_hi b = (if b = 0xED then 0x9F else if b = 0xF4 then 0x8F else 0xBF)"

fun DecodeRune :: "string \<Rightarrow> nat \<times> nat" where
  "DecodeRune [] = (RuneError, 0)"
| "DecodeRune (c0 # cs) =
     (let b0 = byte_of c0 in
      if b0 < 0x80 then (b0, 1)
      else if 0xC2 \<le> b0 \<and> b0 \<le> 0xDF then
        (case cs of c1 # _ \<Rightarrow>
           if cont_byte (byte_of c1) then ((b0 - 0xC0) * 64 + (byte_of c1 - 0x80), 2) else (RuneError, 1)
         | _ \<Rightarrow> (RuneError, 1))
      else if 0xE0 \<le> b0 \<and> b0 \<le> 0xEF then
        (case cs of c1 # c2 # _ \<Rightarrow>
           if second_lo b0 \<le> byte_of c1 \<and> byte_of c1 \<le> second_hi b0 \<and> cont_byte (byte_of c2)
           then ((b0 - 0xE0) * 4096 + (byte_of c1 - 0x80) * 64 + (byte_of c2 - 0x80), 3) else (RuneError, 1)
         | _ \<Rightarrow> (RuneError, 1))
      else if 0xF0 \<le> b0 \<and> b0 \<le> 0xF4 then
        (case cs of c1 # c2 # c3 # _ \<Rightarrow>
           if second_lo b0 \<le> byte_of c1 \<and> byte_of c1 \<le> second_hi b0 \<and> cont_byte (byte_of c2)
              \<and> cont_byte (byte_of c3)
           then ((b0 - 0xF0) * 262144 + (byte_of c1 - 0x80) * 4096 + (byte_of c2 - 0x80) * 64
                 + (byte_of c3 - 0x80), 4) else (RuneError, 1)
         | _ \<Rightarrow> (RuneError, 1))
      else (RuneError, 1))"

declare DecodeRune.simps(2) [simp del]

definition rune_width :: "string \<Rightarrow> nat" where
  "rune_width s = snd (DecodeRune s)"

lemma rune_width_bounds: "s \<noteq> [] \<Longrightarrow> 0 < rune_width s \<and> rune_width s \<le> length s \<and> rune_width s \<le> 4"
  by (cases s) (auto simp: rune_width_def DecodeRune.simps(2) Let_def split: list.splits)

lemma DecodeRune_ascii: "byte_of c < 0x80 \<Longrightarrow> DecodeRune (c # cs) = (byte_of c, 1)"
  by (simp add: DecodeRune.simps(2) Let_def)

lemma DecodeRune_width: "DecodeRune s = (r, w) \<Longrightarrow> s \<noteq> [] \<Longrightarrow> 0 < w \<and> w \<le> length s"
  using rune_width_bounds [of s] by (simp add: rune_width_def)

text \<open>The range loop: each rune with the offset of its first byte.\<close>

function runes_from :: "nat \<Rightarrow> string \<Rightarrow> (nat \<times> nat) list" where
  "runes_from i s =
     (if s = [] then []
      else let (r, w) = DecodeRune s in (i, r) # runes_from (i + w) (drop w s))"
  by pat_completeness auto
termination
  by (relation "measure (\<lambda>(i, s). length s)") (auto dest!: DecodeRune_width [OF sym])

declare runes_from.simps [simp del]

definition runes :: "string \<Rightarrow> (nat \<times> nat) list" where
  "runes s = runes_from 0 s"

definition RuneCount :: "string \<Rightarrow> nat" where
  "RuneCount s = length (runes s)"

function ValidString :: "string \<Rightarrow> bool" where
  "ValidString s =
     (if s = [] then True
      else let (r, w) = DecodeRune s in
        if r = RuneError \<and> w = 1 then False else ValidString (drop w s))"
  by pat_completeness auto
termination
  by (relation "measure length") (auto dest!: DecodeRune_width [OF sym])

declare ValidString.simps [simp del]

definition byte_char :: "nat \<Rightarrow> char" where
  "byte_char b = char_of b"

definition EncodeRune :: "nat \<Rightarrow> string" where
  "EncodeRune r0 =
     (let r = (if (0xD800 \<le> r0 \<and> r0 \<le> 0xDFFF) \<or> 0x10FFFF < r0 then RuneError else r0) in
      if r < 0x80 then [byte_char r]
      else if r < 0x800 then [byte_char (0xC0 + r div 64), byte_char (0x80 + r mod 64)]
      else if r < 0x10000 then
        [byte_char (0xE0 + r div 4096), byte_char (0x80 + r div 64 mod 64), byte_char (0x80 + r mod 64)]
      else
        [byte_char (0xF0 + r div 262144), byte_char (0x80 + r div 4096 mod 64),
         byte_char (0x80 + r div 64 mod 64), byte_char (0x80 + r mod 64)])"

text \<open>\<open>unicode.IsSpace\<close>, and \<open>TrimSpace\<close> of \<open>strings\<close> and \<open>bytes\<close>.\<close>

definition IsSpace :: "nat \<Rightarrow> bool" where
  "IsSpace r = ((9 \<le> r \<and> r \<le> 13) \<or> r = 32 \<or> r = 0x85 \<or> r = 0xA0 \<or> r = 0x1680 \<or> (0x2000 \<le> r \<and> r \<le> 0x200A)
     \<or> r = 0x2028 \<or> r = 0x2029 \<or> r = 0x202F \<or> r = 0x205F \<or> r = 0x3000)"

definition TrimSpace :: "string \<Rightarrow> string" where
  "TrimSpace s =
     (case filter (\<lambda>(i, r). \<not> IsSpace r) (runes s) of
        [] \<Rightarrow> []
      | inked \<Rightarrow>
          (let start = fst (hd inked); lst = fst (last inked); stop = lst + rune_width (drop lst s)
           in take (stop - start) (drop start s)))"

text \<open>The offsets of the range loop ascend and stay inside the string.\<close>

lemma runes_from_bounds:
  "(j, r) \<in> set (runes_from i s) \<Longrightarrow> i \<le> j \<and> j < i + length s"
proof (induction i s rule: runes_from.induct)
  case (1 i s)
  obtain r' w where d: "DecodeRune s = (r', w)" by fastforce
  show ?case
  proof (cases "s = []")
    case True
    with "1.prems" show ?thesis by (simp add: runes_from.simps)
  next
    case False
    then have w: "0 < w" "w \<le> length s" using DecodeRune_width [OF d] by auto
    from "1.prems" False d have "(j, r) = (i, r') \<or> (j, r) \<in> set (runes_from (i + w) (drop w s))"
      by (simp add: runes_from.simps [of i s])
    with "1.IH" [OF False d [symmetric] refl] w show ?thesis by auto
  qed
qed

lemma runes_from_sorted: "sorted_wrt (<) (map fst (runes_from i s))"
proof (induction i s rule: runes_from.induct)
  case (1 i s)
  obtain r' w where d: "DecodeRune s = (r', w)" by fastforce
  show ?case
  proof (cases "s = []")
    case False
    then have w: "0 < w" using DecodeRune_width [OF d] by auto
    have "i < j" if "j \<in> set (map fst (runes_from (i + w) (drop w s)))" for j
      using that runes_from_bounds [of j _ "i + w" "drop w s"] w by fastforce
    then show ?thesis using "1.IH" [OF False d [symmetric] refl] False d by (simp add: runes_from.simps [of i s])
  qed (simp add: runes_from.simps)
qed

end
