(* ===== verification/Json_Lex.thy ===== *)
theory Json_Lex
  imports Utf8
begin

text \<open>
  Package \<open>encoding/json\<close>, as far as the source reads JSON: the tokens of a text with their byte
  offsets (what \<open>Decoder.Token\<close> and \<open>InputOffset\<close> give), validity (\<open>json.Valid\<close>), and the
  unquoting of strings.
\<close>

section \<open>Bytes\<close>

definition json_digit :: "char \<Rightarrow> bool" where
  "json_digit c = (48 \<le> byte_of c \<and> byte_of c \<le> 57)"

definition is_json_space :: "char \<Rightarrow> bool" where
  "is_json_space c = (byte_of c = 32 \<or> byte_of c = 9 \<or> byte_of c = 10 \<or> byte_of c = 13)"

definition hex_value :: "char \<Rightarrow> nat option" where
  "hex_value c =
     (let b = byte_of c in
      if 48 \<le> b \<and> b \<le> 57 then Some (b - 48)
      else if 97 \<le> b \<and> b \<le> 102 then Some (b - 87)
      else if 65 \<le> b \<and> b \<le> 70 then Some (b - 55)
      else None)"

definition hex4 :: "string \<Rightarrow> nat option" where
  "hex4 s =
     (case s of
        a # b # c # d # _ \<Rightarrow>
          (case (hex_value a, hex_value b, hex_value c, hex_value d) of
             (Some w, Some x, Some y, Some z) \<Rightarrow> Some (w * 4096 + x * 256 + y * 16 + z)
           | _ \<Rightarrow> None)
      | _ \<Rightarrow> None)"

section \<open>Strings\<close>

text \<open>The length of a string literal after its opening quote, closing quote included.\<close>

definition is_escape :: "char \<Rightarrow> bool" where
  "is_escape e = (e \<in> set ''bfnrt/'' \<or> byte_of e = 92 \<or> byte_of e = 34)"

fun scan_string :: "string \<Rightarrow> nat option" where
  "scan_string [] = None"
| "scan_string (c # cs) =
     (if byte_of c = 34 then Some 1
      else if byte_of c = 92 then
        (case cs of
           e # es \<Rightarrow>
             if is_escape e then map_option ((+) 2) (scan_string es)
             else if e = CHR ''u'' then
               (case es of
                  h1 # h2 # h3 # h4 # rest \<Rightarrow>
                    if hex4 es \<noteq> None then map_option ((+) 6) (scan_string rest) else None
                | _ \<Rightarrow> None)
             else None
         | [] \<Rightarrow> None)
      else if byte_of c < 32 then None
      else map_option Suc (scan_string cs))"

definition escape_byte :: "char \<Rightarrow> string" where
  "escape_byte e =
     (if e = CHR ''b'' then [byte_char 8] else if e = CHR ''f'' then [byte_char 12]
      else if e = CHR ''n'' then [byte_char 10] else if e = CHR ''r'' then [byte_char 13]
      else if e = CHR ''t'' then [byte_char 9] else [e])"

definition is_surrogate :: "nat \<Rightarrow> bool" where
  "is_surrogate r = (0xD800 \<le> r \<and> r < 0xE000)"

definition utf16_DecodeRune :: "nat \<Rightarrow> nat \<Rightarrow> nat" where
  "utf16_DecodeRune r1 r2 =
     (if 0xD800 \<le> r1 \<and> r1 < 0xDC00 \<and> 0xDC00 \<le> r2 \<and> r2 < 0xE000
      then (r1 - 0xD800) * 1024 + (r2 - 0xDC00) + 0x10000 else RuneError)"

definition getu4 :: "string \<Rightarrow> nat option" where
  "getu4 s = (case s of b # u # h \<Rightarrow> if byte_of b = 92 \<and> u = CHR ''u'' then hex4 h else None | _ \<Rightarrow> None)"

function unquote :: "string \<Rightarrow> string" where
  "unquote s =
     (case s of
        [] \<Rightarrow> []
      | c # cs \<Rightarrow>
          if byte_of c = 92 then
            (case getu4 s of
               Some rr \<Rightarrow>
                 if is_surrogate rr then
                   (case getu4 (drop 6 s) of
                      Some rr1 \<Rightarrow>
                        if utf16_DecodeRune rr rr1 \<noteq> RuneError
                        then EncodeRune (utf16_DecodeRune rr rr1) @ unquote (drop 12 s)
                        else EncodeRune RuneError @ unquote (drop 6 s)
                    | None \<Rightarrow> EncodeRune RuneError @ unquote (drop 6 s))
                 else EncodeRune rr @ unquote (drop 6 s)
             | None \<Rightarrow> (case cs of [] \<Rightarrow> [] | e # es \<Rightarrow> escape_byte e @ unquote es))
          else if byte_of c < 0x80 then c # unquote cs
          else EncodeRune (fst (DecodeRune s)) @ unquote (drop (rune_width s) s))"
  by pat_completeness auto
termination
  by (relation "measure length") (use rune_width_bounds in \<open>auto simp del: drop_Suc_Cons simp: diff_less\<close>)

declare unquote.simps [simp del]

section \<open>Numbers\<close>

definition digits_len :: "string \<Rightarrow> nat" where
  "digits_len s = length (takeWhile json_digit s)"

definition frac_len :: "string \<Rightarrow> nat option" where
  "frac_len s =
     (case s of
        c # cs \<Rightarrow>
          if c = CHR ''.'' then (if digits_len cs = 0 then None else Some (1 + digits_len cs)) else Some 0
      | [] \<Rightarrow> Some 0)"

definition exp_len :: "string \<Rightarrow> nat option" where
  "exp_len s =
     (case s of
        c # cs \<Rightarrow>
          if c = CHR ''e'' \<or> c = CHR ''E'' then
            (let sgn = (case cs of d # _ \<Rightarrow> if d = CHR ''+'' \<or> d = CHR ''-'' then 1 else 0 | [] \<Rightarrow> 0);
                 n = digits_len (drop sgn cs)
             in if n = 0 then None else Some (1 + sgn + n))
          else Some 0
      | [] \<Rightarrow> Some 0)"

definition neg_len :: "string \<Rightarrow> nat" where
  "neg_len s = (case s of c # _ \<Rightarrow> if c = CHR ''-'' then 1 else 0 | [] \<Rightarrow> 0)"

definition int_len :: "string \<Rightarrow> nat" where
  "int_len s = (case s of c # _ \<Rightarrow> if c = CHR ''0'' then 1 else digits_len s | [] \<Rightarrow> 0)"

definition number_len :: "string \<Rightarrow> nat option" where
  "number_len s =
     (let neg = neg_len s; body = drop neg s; ints = int_len body
      in if ints = 0 then None
         else case frac_len (drop ints body) of
           None \<Rightarrow> None
         | Some f \<Rightarrow> (case exp_len (drop (ints + f) body) of
             None \<Rightarrow> None | Some x \<Rightarrow> Some (neg + ints + f + x)))"

section \<open>Tokens\<close>

datatype json_token =
    TDelim char
  | TComma
  | TColon
  | TString string
  | TNumber string
  | TBool bool
  | TNull

record located =
  tk :: json_token
  tk_start :: nat
  tk_after :: nat

definition is_delim :: "char \<Rightarrow> bool" where
  "is_delim c = (c \<in> set ''{}[]'')"

text \<open>One token at the head of a text that does not begin with space: the token and its length.\<close>

definition lex_one :: "string \<Rightarrow> (json_token \<times> nat) option" where
  "lex_one s =
     (case s of
        [] \<Rightarrow> None
      | c # cs \<Rightarrow>
          if is_delim c then Some (TDelim c, 1)
          else if c = CHR '','' then Some (TComma, 1)
          else if c = CHR '':'' then Some (TColon, 1)
          else if byte_of c = 34 then
            map_option (\<lambda>n. (TString (unquote (take (n - 1) cs)), 1 + n)) (scan_string cs)
          else if c = CHR ''-'' \<or> json_digit c then
            map_option (\<lambda>n. (TNumber (take n s), n)) (number_len s)
          else if has_prefix s ''true'' then Some (TBool True, 4)
          else if has_prefix s ''false'' then Some (TBool False, 5)
          else if has_prefix s ''null'' then Some (TNull, 4)
          else None)"

function lex_json :: "nat \<Rightarrow> string \<Rightarrow> located list option" where
  "lex_json i s =
     (case s of
        [] \<Rightarrow> Some []
      | c # cs \<Rightarrow>
          if is_json_space c then lex_json (i + 1) cs
          else case lex_one s of
            None \<Rightarrow> None
          | Some (t, n) \<Rightarrow>
              if n = 0 then None
              else map_option ((#) \<lparr>tk = t, tk_start = i, tk_after = i + n\<rparr>) (lex_json (i + n) (drop n s)))"
  by pat_completeness auto
termination
  by (relation "measure (\<lambda>(i, s). length s)") auto

declare lex_json.simps [simp del]

section \<open>The grammar\<close>

datatype expecting = XValue | XValueOrEnd | XKeyOrEnd | XKey | XColon | XAfter

definition maxNestingDepth :: nat where
  "maxNestingDepth = 10000"

text \<open>The stack holds, innermost first, whether each open container is an object.\<close>

definition json_step :: "json_token \<Rightarrow> expecting \<times> bool list \<Rightarrow> (expecting \<times> bool list) option" where
  "json_step t st =
     (case st of (x, stack) \<Rightarrow>
      (if x = XValue \<or> x = XValueOrEnd then
         (case t of
            TDelim c \<Rightarrow>
              if c = CHR ''{'' then (if length stack < maxNestingDepth then Some (XKeyOrEnd, True # stack) else None)
              else if c = CHR ''['' then (if length stack < maxNestingDepth then Some (XValueOrEnd, False # stack) else None)
              else if c = CHR '']'' \<and> x = XValueOrEnd then Some (XAfter, tl stack)
              else None
          | TComma \<Rightarrow> None | TColon \<Rightarrow> None
          | _ \<Rightarrow> Some (XAfter, stack))
       else if x = XKeyOrEnd \<or> x = XKey then
         (case t of
            TString _ \<Rightarrow> Some (XColon, stack)
          | TDelim c \<Rightarrow> if c = CHR ''}'' \<and> x = XKeyOrEnd then Some (XAfter, tl stack) else None
          | _ \<Rightarrow> None)
       else if x = XColon then (if t = TColon then Some (XValue, stack) else None)
       else
         (case stack of
            [] \<Rightarrow> None
          | True # rest \<Rightarrow>
              if t = TComma then Some (XKey, stack) else if t = TDelim CHR ''}'' then Some (XAfter, rest) else None
          | False # rest \<Rightarrow>
              if t = TComma then Some (XValue, stack) else if t = TDelim CHR '']'' then Some (XAfter, rest) else None)))"

fun json_accepts :: "expecting \<times> bool list \<Rightarrow> json_token list \<Rightarrow> bool" where
  "json_accepts st [] = (st = (XAfter, []))"
| "json_accepts st (t # ts) = (case json_step t st of None \<Rightarrow> False | Some st \<Rightarrow> json_accepts st ts)"

definition json_tokens :: "string \<Rightarrow> located list option" where
  "json_tokens s =
     (case lex_json 0 s of
        None \<Rightarrow> None
      | Some toks \<Rightarrow> if json_accepts (XValue, []) (map tk toks) then Some toks else None)"

definition json_Valid :: "string \<Rightarrow> bool" where
  "json_Valid s = (json_tokens s \<noteq> None)"

text \<open>What \<open>Decoder.Token\<close> returns: commas and colons are skipped.\<close>

definition decoder_tokens :: "string \<Rightarrow> located list" where
  "decoder_tokens s =
     (case json_tokens s of
        None \<Rightarrow> []
      | Some toks \<Rightarrow> filter (\<lambda>l. tk l \<noteq> TComma \<and> tk l \<noteq> TColon) toks)"

section \<open>Where the tokens lie\<close>

declare scan_string.simps(2) [simp del]

lemma scan_string_bounds: "scan_string s = Some n \<Longrightarrow> 1 \<le> n \<and> n \<le> length s"
proof (induction s arbitrary: n rule: scan_string.induct)
  case (2 c cs)
  consider "byte_of c = 34" | "byte_of c = 92" | "byte_of c \<noteq> 34" "byte_of c \<noteq> 92" by blast
  then show ?case
  proof cases
    case 1
    with "2.prems" show ?thesis by (simp add: scan_string.simps(2))
  next
    case 2
    then obtain e es where cs: "cs = e # es"
      using "2.prems" by (auto simp: scan_string.simps(2) split: list.splits)
    show ?thesis
    proof (cases "is_escape e")
      case True
      then obtain m where "scan_string es = Some m" "n = 2 + m"
        using "2.prems" 2 cs by (auto simp: scan_string.simps(2))
      with "2.IH"(1) [OF _ 2 cs True, of m] 2 cs show ?thesis by simp
    next
      case False
      with "2.prems" 2 cs have u: "e = CHR ''u''" by (simp add: scan_string.simps(2) split: if_splits)
      obtain h1 h2 h3 h4 rest where es: "es = h1 # h2 # h3 # h4 # rest" and hex: "hex4 es \<noteq> None"
        using "2.prems" 2 cs False u by (simp add: scan_string.simps(2) split: list.splits if_splits)
      then obtain m where "scan_string rest = Some m" "n = 6 + m"
        using "2.prems" 2 cs False u by (auto simp: scan_string.simps(2))
      with "2.IH"(2) [OF _ 2 cs False u es] hex 2 cs es show ?thesis by auto
    qed
  next
    case 3
    then have c: "\<not> byte_of c < 32" using "2.prems" by (auto simp: scan_string.simps(2))
    then obtain m where "scan_string cs = Some m" "n = Suc m"
      using "2.prems" 3 by (auto simp: scan_string.simps(2))
    with "2.IH"(3) [OF 3 c, of m] show ?thesis by simp
  qed
qed simp

lemma digits_len_le: "digits_len s \<le> length s"
  by (simp add: digits_len_def length_takeWhile_le)

lemma frac_len_le: "frac_len s = Some n \<Longrightarrow> n \<le> length s"
  using digits_len_le [of "tl s"] by (auto simp: frac_len_def split: list.splits if_splits)

lemma exp_len_le: "exp_len s = Some n \<Longrightarrow> n \<le> length s"
proof (cases s)
  case (Cons c cs)
  assume "exp_len s = Some n"
  with Cons digits_len_le [of cs] digits_len_le [of "tl cs"] show ?thesis
    by (cases cs) (auto simp: exp_len_def Let_def split: if_splits)
qed (simp add: exp_len_def)

lemma number_len_le:
  assumes "number_len s = Some n"
  shows "n \<le> length s"
proof -
  define neg ints body where "neg = neg_len s" and "ints = int_len (drop (neg_len s) s)"
    and "body = drop (neg_len s) s"
  obtain f x where f: "frac_len (drop ints body) = Some f" and x: "exp_len (drop (ints + f) body) = Some x"
    and n: "n = neg + ints + f + x"
    using assms by (auto simp: number_len_def Let_def neg_def ints_def body_def add.assoc split: if_splits option.splits)
  have neg: "neg \<le> length s" by (auto simp: neg_def neg_len_def split: list.splits)
  have "int_len b \<le> length b" for b
    using digits_len_le [of b] by (cases b) (auto simp: int_len_def)
  then have ints: "ints \<le> length body" unfolding ints_def body_def by blast
  have "f \<le> length body - ints" using frac_len_le [OF f] by simp
  moreover have "x \<le> length body - (ints + f)" using exp_len_le [OF x] by simp
  ultimately show ?thesis using n neg ints by (simp add: body_def neg_def)
qed

definition skipped_byte :: "char \<Rightarrow> bool" where
  "skipped_byte c = (c \<in> {CHR '' '', CHR 0x09, CHR 0x0A, CHR 0x0D, CHR '','', CHR '':''})"

lemma lex_one_bounds:
  assumes "lex_one s = Some (t, n)"
  shows "n \<le> length s \<and> (\<forall>v. t = TString v \<longrightarrow> 2 \<le> n)
    \<and> (t \<noteq> TComma \<and> t \<noteq> TColon \<longrightarrow> s \<noteq> [] \<and> \<not> skipped_byte (hd s))"
proof (cases s)
  case Nil
  with assms show ?thesis by (simp add: lex_one_def)
next
  case (Cons c cs)
  note one = assms [unfolded lex_one_def Cons list.case]
  have prefix: "n \<le> length s \<and> \<not> skipped_byte c" if w: "has_prefix (c # cs) w" "n = length w" "w \<noteq> []" "\<not> skipped_byte (hd w)" for w
  proof -
    obtain t where "c # cs = w @ t" using w(1) unfolding has_prefix_iff by blast
    with w(2-4) Cons show ?thesis by (cases w) auto
  qed
  have words: "\<not> skipped_byte (hd ''true'')" "\<not> skipped_byte (hd ''false'')" "\<not> skipped_byte (hd ''null'')"
    by (simp_all add: skipped_byte_def)
  consider "is_delim c" | "\<not> is_delim c" "c = CHR '','' \<or> c = CHR '':''"
    | "\<not> is_delim c" "c \<noteq> CHR '',''" "c \<noteq> CHR '':''" "byte_of c = 34"
    | "\<not> is_delim c" "c \<noteq> CHR '',''" "c \<noteq> CHR '':''" "byte_of c \<noteq> 34" "c = CHR ''-'' \<or> json_digit c"
    | "\<not> is_delim c" "c \<noteq> CHR '',''" "c \<noteq> CHR '':''" "byte_of c \<noteq> 34" "\<not> (c = CHR ''-'' \<or> json_digit c)"
    by blast
  then show ?thesis
  proof cases
    case 1
    then have "\<not> skipped_byte c" by (auto simp: is_delim_def skipped_byte_def)
    moreover have "t = TDelim c" "n = 1" using one 1 by simp_all
    ultimately show ?thesis using Cons by simp
  next
    case 2
    then have "n = 1" "t = TComma \<or> t = TColon" using one by (auto split: if_splits)
    then show ?thesis using Cons by auto
  next
    case 3
    then have "\<not> skipped_byte c" by (auto simp: skipped_byte_def byte_of_def)
    moreover obtain m where "scan_string cs = Some m" "n = 1 + m" using one 3 by auto
    ultimately show ?thesis using scan_string_bounds [of cs m] Cons by simp
  next
    case 4
    then have "\<not> skipped_byte c" by (auto simp: skipped_byte_def byte_of_def json_digit_def)
    moreover have "number_len s = Some n" "t = TNumber (take n s)" using one 4 Cons by auto
    ultimately show ?thesis using number_len_le [of s n] Cons by simp
  next
    case 5
    then have "(has_prefix (c # cs) ''true'' \<and> t = TBool True \<and> n = 4)
        \<or> (has_prefix (c # cs) ''false'' \<and> t = TBool False \<and> n = 5) \<or> (has_prefix (c # cs) ''null'' \<and> t = TNull \<and> n = 4)"
      using one by (simp split: if_splits del: has_prefix.simps)
    then show ?thesis
    proof (elim disjE conjE)
      assume "has_prefix (c # cs) ''true''" "t = TBool True" "n = 4"
      with prefix [OF _ _ _ words(1)] Cons show ?thesis by simp
    next
      assume "has_prefix (c # cs) ''false''" "t = TBool False" "n = 5"
      with prefix [OF _ _ _ words(2)] Cons show ?thesis by simp
    next
      assume "has_prefix (c # cs) ''null''" "t = TNull" "n = 4"
      with prefix [OF _ _ _ words(3)] Cons show ?thesis by simp
    qed
  qed
qed

fun located_ok :: "string \<Rightarrow> nat \<Rightarrow> located list \<Rightarrow> bool" where
  "located_ok inp p [] = True"
| "located_ok inp p (l # ls) =
     (p \<le> tk_start l \<and> tk_start l < tk_after l \<and> tk_after l \<le> length inp
      \<and> (\<forall>v. tk l = TString v \<longrightarrow> tk_start l + 2 \<le> tk_after l)
      \<and> (tk l \<noteq> TComma \<and> tk l \<noteq> TColon \<longrightarrow> \<not> skipped_byte (inp ! tk_start l))
      \<and> located_ok inp (tk_after l) ls)"

lemma located_ok_weaken: "located_ok inp p ls \<Longrightarrow> q \<le> p \<Longrightarrow> located_ok inp q ls"
  by (cases ls) auto

lemma located_ok_filter: "located_ok inp p ls \<Longrightarrow> located_ok inp p (filter P ls)"
proof (induction ls arbitrary: p)
  case (Cons l ls)
  then have "located_ok inp (tk_after l) (filter P ls)" by simp
  moreover from this have "located_ok inp p (filter P ls)"
    by (rule located_ok_weaken) (use Cons.prems in simp)
  ultimately show ?case using Cons.prems by simp
qed simp

lemma lex_located: "lex_json i s = Some toks \<Longrightarrow> s = drop i inp \<Longrightarrow> i \<le> length inp \<Longrightarrow> located_ok inp i toks"
proof (induction i s arbitrary: toks rule: lex_json.induct)
  case (1 i s)
  show ?case
  proof (cases s)
    case Nil
    with "1.prems"(1) have "toks = []" by (simp add: lex_json.simps [of i "[]"])
    then show ?thesis by simp
  next
    case (Cons c cs)
    then have d: "drop i inp = c # cs" using "1.prems"(2) by simp
    then have i: "i < length inp" by (metis drop_all leI list.distinct(1))
    have c: "inp ! i = c" using d by (rule nth_via_drop)
    have cs: "cs = drop (i + 1) inp" using d by (metis Suc_eq_plus1 drop_Suc list.sel(3) tl_drop)
    show ?thesis
    proof (cases "is_json_space c")
      case True
      have "lex_json (i + 1) cs = Some toks"
        using "1.prems"(1) [unfolded lex_json.simps [of i s]] Cons True by simp
      from "1.IH"(1) [OF Cons True this cs] i have "located_ok inp (i + 1) toks" by simp
      then show ?thesis by (rule located_ok_weaken) simp
    next
      case False
      note step = "1.prems"(1) [unfolded lex_json.simps [of i s]]
      obtain t n where one: "lex_one s = Some (t, n)"
        using step Cons False by (cases "lex_one s") auto
      have n: "n \<noteq> 0" using step Cons False one by (auto split: if_splits)
      obtain rest where rest: "lex_json (i + n) (drop n s) = Some rest"
        and toks: "toks = \<lparr>tk = t, tk_start = i, tk_after = i + n\<rparr> # rest"
        using step Cons False one n by auto
      note b = lex_one_bounds [OF one]
      have "n \<le> length inp - i" using b "1.prems"(2) by simp
      then have le: "i + n \<le> length inp" using i by arith
      have "drop n s = drop (i + n) inp" using "1.prems"(2) by (simp add: add.commute)
      from "1.IH"(2) [OF Cons False one refl n rest this le]
      show ?thesis using b le n c Cons toks by auto
    qed
  qed
qed

lemma decoder_tokens_located: "located_ok inp 0 (decoder_tokens inp)"
proof -
  have "located_ok inp 0 toks" if "json_tokens inp = Some toks" for toks
    using that lex_located [of 0 inp toks inp] by (auto simp: json_tokens_def split: option.splits if_splits)
  then show ?thesis by (auto simp: decoder_tokens_def intro!: located_ok_filter split: option.splits)
qed

end
