(* ===== verification/Json_Value.thy ===== *)
theory Json_Value
  imports Json_Lex
begin

text \<open>
  Package \<open>encoding/json\<close>, as far as the adapters use it on generic values: the values that
  \<open>Decoder.Decode\<close> builds with \<open>UseNumber\<close>, the decoding of the first value of a text, and the
  encoding without HTML escapes. A \<open>map[string]any\<close> is the list of its entries in ascending order
  of the keys, which makes equal maps equal lists.
\<close>

section \<open>Values\<close>

datatype json =
    JNull
  | JBool bool
  | JNumber string
  | JString string
  | JArray "json list"
  | JObject "(string \<times> json) list"

fun map_put :: "string \<Rightarrow> 'v \<Rightarrow> (string \<times> 'v) list \<Rightarrow> (string \<times> 'v) list" where
  "map_put k v [] = [(k, v)]"
| "map_put k v ((k', v') # kvs) =
     (if k = k' then (k, v) # kvs else if k < k' then (k, v) # (k', v') # kvs else (k', v') # map_put k v kvs)"

section \<open>Decoding\<close>

text \<open>
  An open container with what it holds so far; in an object, the key whose value comes next.
\<close>

datatype frame = FArray "json list" | FObject "(string \<times> json) list" "string option"

fun frame_is_object :: "frame \<Rightarrow> bool" where
  "frame_is_object (FArray vs) = False"
| "frame_is_object (FObject kvs k) = True"

fun closed_frame :: "frame \<Rightarrow> json" where
  "closed_frame (FArray vs) = JArray vs"
| "closed_frame (FObject kvs k) = JObject kvs"

text \<open>A finished value goes into the innermost open container, or is the result.\<close>

fun deliver :: "json \<Rightarrow> frame list \<Rightarrow> json option \<times> frame list" where
  "deliver v [] = (Some v, [])"
| "deliver v (FArray vs # fs) = (None, FArray (vs @ [v]) # fs)"
| "deliver v (FObject kvs k # fs) =
     (None, FObject (case k of Some k \<Rightarrow> map_put k v kvs | None \<Rightarrow> kvs) None # fs)"

fun name_key :: "string \<Rightarrow> frame list \<Rightarrow> frame list" where
  "name_key k (FObject kvs _ # fs) = FObject kvs (Some k) # fs"
| "name_key k fs = fs"

definition wants_key :: "expecting \<Rightarrow> bool" where
  "wants_key x = (x = XKeyOrEnd \<or> x = XKey)"

fun build_token :: "expecting \<Rightarrow> json_token \<Rightarrow> frame list \<Rightarrow> json option \<times> frame list" where
  "build_token x (TDelim c) fs =
     (if c = CHR ''{'' then (None, FObject [] None # fs)
      else if c = CHR ''['' then (None, FArray [] # fs)
      else case fs of f # fs \<Rightarrow> deliver (closed_frame f) fs | [] \<Rightarrow> (None, []))"
| "build_token x TComma fs = (None, fs)"
| "build_token x TColon fs = (None, fs)"
| "build_token x (TString s) fs = (if wants_key x then (None, name_key s fs) else deliver (JString s) fs)"
| "build_token x (TNumber n) fs = deliver (JNumber n) fs"
| "build_token x (TBool b) fs = deliver (JBool b) fs"
| "build_token x TNull fs = deliver JNull fs"

text \<open>
  The first value of a text and what follows it. The decoder stops behind that value: what follows
  is not looked at.
\<close>

function decode_value :: "expecting \<Rightarrow> frame list \<Rightarrow> string \<Rightarrow> (json \<times> string) option" where
  "decode_value x fs s =
     (case s of
        [] \<Rightarrow> None
      | c # cs \<Rightarrow>
          if is_json_space c then decode_value x fs cs
          else case lex_one s of
            None \<Rightarrow> None
          | Some (t, n) \<Rightarrow>
              if n = 0 then None
              else case json_step t (x, map frame_is_object fs) of
                None \<Rightarrow> None
              | Some (x', _) \<Rightarrow>
                  (case build_token x t fs of
                     (Some v, _) \<Rightarrow> Some (v, drop n s)
                   | (None, fs') \<Rightarrow> decode_value x' fs' (drop n s)))"
  by pat_completeness auto
termination
  by (relation "measure (\<lambda>(x, fs, s). length s)") auto

declare decode_value.simps [simp del]

definition json_Decode :: "string \<Rightarrow> json option" where
  "json_Decode s = map_option fst (decode_value XValue [] s)"

section \<open>Encoding\<close>

definition hex_char :: "nat \<Rightarrow> char" where
  "hex_char n = (if n < 10 then byte_char (48 + n) else byte_char (87 + n))"

definition backslash :: char where
  "backslash = CHR 0x5C"

definition escaped_byte :: "nat \<Rightarrow> string" where
  "escaped_byte b =
     (if b = 92 \<or> b = 34 then [backslash, byte_char b]
      else if b = 8 then [backslash, CHR ''b''] else if b = 12 then [backslash, CHR ''f'']
      else if b = 10 then [backslash, CHR ''n''] else if b = 13 then [backslash, CHR ''r'']
      else if b = 9 then [backslash, CHR ''t'']
      else [backslash, CHR ''u'', CHR ''0'', CHR ''0'', hex_char (b div 16), hex_char (b mod 16)])"

definition safe_byte :: "nat \<Rightarrow> bool" where
  "safe_byte b = (32 \<le> b \<and> b < 0x80 \<and> b \<noteq> 34 \<and> b \<noteq> 92)"

function escape_string :: "string \<Rightarrow> string" where
  "escape_string s =
     (case s of
        [] \<Rightarrow> []
      | c # cs \<Rightarrow>
          if byte_of c < 0x80 then
            (if safe_byte (byte_of c) then c # escape_string cs else escaped_byte (byte_of c) @ escape_string cs)
          else if DecodeRune s = (RuneError, 1) then [backslash] @ ''ufffd'' @ escape_string cs
          else if fst (DecodeRune s) = 0x2028 \<or> fst (DecodeRune s) = 0x2029 then
            [backslash] @ ''u202'' @ [hex_char (fst (DecodeRune s) mod 16)] @ escape_string (drop (rune_width s) s)
          else take (rune_width s) s @ escape_string (drop (rune_width s) s))"
  by pat_completeness auto
termination
  by (relation "measure length") (use rune_width_bounds in \<open>auto simp del: drop_Suc_Cons simp: diff_less\<close>)

declare escape_string.simps [simp del]

definition quoted :: "string \<Rightarrow> string" where
  "quoted s = [CHR 0x22] @ escape_string s @ [CHR 0x22]"

definition valid_number :: "string \<Rightarrow> bool" where
  "valid_number n = (number_len n = Some (length n))"

fun join_with :: "string \<Rightarrow> string list \<Rightarrow> string" where
  "join_with sep [] = []"
| "join_with sep [x] = x"
| "join_with sep (x # y # xs) = x @ sep @ join_with sep (y # xs)"

fun sequence_opt :: "'a option list \<Rightarrow> 'a list option" where
  "sequence_opt [] = Some []"
| "sequence_opt (x # xs) = (case x of None \<Rightarrow> None | Some a \<Rightarrow> map_option ((#) a) (sequence_opt xs))"

text \<open>An invalid \<open>json.Number\<close> is an error, an empty one is zero.\<close>

fun json_Encode :: "json \<Rightarrow> string option" where
  "json_Encode JNull = Some ''null''"
| "json_Encode (JBool b) = Some (if b then ''true'' else ''false'')"
| "json_Encode (JNumber n) = (if n = [] then Some ''0'' else if valid_number n then Some n else None)"
| "json_Encode (JString s) = Some (quoted s)"
| "json_Encode (JArray vs) =
     map_option (\<lambda>es. ''['' @ join_with '','' es @ '']'') (sequence_opt (map json_Encode vs))"
| "json_Encode (JObject kvs) =
     map_option (\<lambda>es. ''{'' @ join_with '','' es @ ''}'')
       (sequence_opt (map (\<lambda>kv. map_option (\<lambda>e. quoted (fst kv) @ '':'' @ e) (json_Encode (snd kv))) kvs))"

end
