(* ===== verification/Json_Roundtrip.thy ===== *)
theory Json_Roundtrip
  imports Json_Value
begin

text \<open>
  Encoding a generic JSON value and decoding it again gives the value back: strings through their
  escapes and their UTF-8, numbers literally, objects and arrays in order.
\<close>

section \<open>Runes and their bytes\<close>

lemma byte_of_less: "byte_of c < 256"
  by (simp add: byte_of_def)

lemma byte_char_byte_of [simp]: "byte_char (byte_of c) = c"
  by (simp add: byte_char_def byte_of_def)

lemma byte_of_byte_char [simp]: "b < 256 \<Longrightarrow> byte_of (byte_char b) = b"
  by (simp add: byte_char_def byte_of_def)

lemma byte_charI: "byte_of c = b \<Longrightarrow> byte_char b = c"
  using byte_char_byte_of [of c] by simp

lemma div_mod_split:
  fixes x k n :: nat
  assumes "k < n"
  shows "(x * n + k) div n = x" "(x * n + k) mod n = k"
  using assms by simp_all

lemma sextets:
  fixes x y z u :: nat
  assumes "y < 64" "z < 64" "u < 64"
  shows "(x * 64 + y) div 64 = x" "(x * 64 + y) mod 64 = y"
    "(x * 4096 + y * 64 + z) div 4096 = x" "(x * 4096 + y * 64 + z) div 64 mod 64 = y"
    "(x * 4096 + y * 64 + z) mod 64 = z"
    "(x * 262144 + y * 4096 + z * 64 + u) div 262144 = x"
    "(x * 262144 + y * 4096 + z * 64 + u) div 4096 mod 64 = y"
    "(x * 262144 + y * 4096 + z * 64 + u) div 64 mod 64 = z"
    "(x * 262144 + y * 4096 + z * 64 + u) mod 64 = u"
proof -
  note split = div_mod_split
  show "(x * 64 + y) div 64 = x" "(x * 64 + y) mod 64 = y" using split [of y 64 x] assms by simp_all
  have three: "x * 4096 + y * 64 + z = (x * 64 + y) * 64 + z" by simp
  show "(x * 4096 + y * 64 + z) div 4096 = x" using split [of "y * 64 + z" 4096 x] assms by (simp add: add.assoc)
  show "(x * 4096 + y * 64 + z) div 64 mod 64 = y" "(x * 4096 + y * 64 + z) mod 64 = z"
    unfolding three using split [of z 64 "x * 64 + y"] split [of y 64 x] assms by simp_all
  have four: "x * 262144 + y * 4096 + z * 64 + u = (x * 4096 + y * 64 + z) * 64 + u"
    "x * 262144 + y * 4096 + z * 64 + u = (x * 64 + y) * 4096 + (z * 64 + u)" by simp_all
  show "(x * 262144 + y * 4096 + z * 64 + u) div 262144 = x"
    using split [of "y * 4096 + z * 64 + u" 262144 x] assms by (simp add: add.assoc)
  show "(x * 262144 + y * 4096 + z * 64 + u) div 4096 mod 64 = y"
    unfolding four(2) using split [of "z * 64 + u" 4096 "x * 64 + y"] split [of y 64 x] assms by simp
  have "(x * 4096 + y * 64 + z) mod 64 = z" unfolding three using split [of z 64 "x * 64 + y"] assms by simp
  then show "(x * 262144 + y * 4096 + z * 64 + u) div 64 mod 64 = z" "(x * 262144 + y * 4096 + z * 64 + u) mod 64 = u"
    unfolding four(1) using split [of u 64 "x * 4096 + y * 64 + z"] assms by simp_all
qed

text \<open>The three forms of a valid rune of more than one byte.\<close>

lemma DecodeRune_cases:
  assumes "DecodeRune (c # cs) = (r, w)" "(r, w) \<noteq> (RuneError, 1)" "\<not> byte_of c < 0x80"
  obtains
    (two) c1 ds where "cs = c1 # ds" "w = 2" "0xC2 \<le> byte_of c" "byte_of c \<le> 0xDF" "cont_byte (byte_of c1)"
      "r = (byte_of c - 0xC0) * 64 + (byte_of c1 - 0x80)"
  | (three) c1 c2 ds where "cs = c1 # c2 # ds" "w = 3" "0xE0 \<le> byte_of c" "byte_of c \<le> 0xEF"
      "second_lo (byte_of c) \<le> byte_of c1" "byte_of c1 \<le> second_hi (byte_of c)" "cont_byte (byte_of c2)"
      "r = (byte_of c - 0xE0) * 4096 + (byte_of c1 - 0x80) * 64 + (byte_of c2 - 0x80)"
  | (four) c1 c2 c3 ds where "cs = c1 # c2 # c3 # ds" "w = 4" "0xF0 \<le> byte_of c" "byte_of c \<le> 0xF4"
      "second_lo (byte_of c) \<le> byte_of c1" "byte_of c1 \<le> second_hi (byte_of c)" "cont_byte (byte_of c2)"
      "cont_byte (byte_of c3)"
      "r = (byte_of c - 0xF0) * 262144 + (byte_of c1 - 0x80) * 4096 + (byte_of c2 - 0x80) * 64 + (byte_of c3 - 0x80)"
proof -
  note d = assms(1) [unfolded DecodeRune.simps(2) Let_def]
  consider "0xC2 \<le> byte_of c" "byte_of c \<le> 0xDF" | "0xE0 \<le> byte_of c" "byte_of c \<le> 0xEF"
    | "0xF0 \<le> byte_of c" "byte_of c \<le> 0xF4"
    using d assms(2,3) by (auto split: if_splits)
  then show thesis
  proof cases
    case 1
    then show thesis using d assms(2,3) two by (auto split: if_splits list.splits)
  next
    case 2
    then show thesis using d assms(2,3) three by (auto split: if_splits list.splits)
  next
    case 3
    then show thesis using d assms(2,3) four by (auto split: if_splits list.splits)
  qed
qed

lemma second_bounds: "second_lo b \<le> x \<Longrightarrow> x \<le> second_hi b \<Longrightarrow> 0x80 \<le> x \<and> x \<le> 0xBF"
  by (auto simp: second_lo_def second_hi_def split: if_splits)

lemma EncodeRune_DecodeRune:
  assumes "DecodeRune (c # cs) = (r, w)" "(r, w) \<noteq> (RuneError, 1)" "\<not> byte_of c < 0x80"
  shows "EncodeRune r = take w (c # cs)"
  using assms
proof (cases rule: DecodeRune_cases)
  case (two c1 ds)
  define x y where "x = byte_of c - 0xC0" and "y = byte_of c1 - 0x80"
  have b: "byte_of c = 0xC0 + x" "byte_of c1 = 0x80 + y" "2 \<le> x" "x < 32" "y < 64"
    using two by (auto simp: x_def y_def cont_byte_def)
  have r: "r = x * 64 + y" using two by (simp add: x_def y_def)
  have "0x80 \<le> r" "r < 0x800" using b r by auto
  then show ?thesis using two(1,2) b sextets(1,2) [of y 0 0 x]
    by (auto simp: EncodeRune_def Let_def r intro!: byte_charI)
next
  case (three c1 c2 ds)
  define x y z where "x = byte_of c - 0xE0" and "y = byte_of c1 - 0x80" and "z = byte_of c2 - 0x80"
  have y: "0x80 \<le> byte_of c1 \<and> byte_of c1 \<le> 0xBF" using second_bounds three by blast
  have b: "byte_of c = 0xE0 + x" "byte_of c1 = 0x80 + y" "byte_of c2 = 0x80 + z" "x < 16" "y < 64" "z < 64"
    using three y by (auto simp: x_def y_def z_def cont_byte_def)
  have r: "r = x * 4096 + y * 64 + z" using three by (simp add: x_def y_def z_def)
  have lo: "x = 0 \<Longrightarrow> 32 \<le> y" and hi: "x = 13 \<Longrightarrow> y < 32"
    using three b by (auto simp: second_lo_def second_hi_def)
  have "0x800 \<le> r" using lo b r by (cases "x = 0") auto
  moreover have "r < 0x10000" using b r by auto
  moreover have "\<not> (0xD800 \<le> r \<and> r \<le> 0xDFFF)"
  proof (cases "x = 13")
    case True
    then show ?thesis using hi b r by auto
  next
    case False
    then have "x \<le> 12 \<or> 14 \<le> x" by arith
    then show ?thesis using b r by auto
  qed
  ultimately show ?thesis using three(1,2) b sextets(3-5) [of y z 0 x]
    by (auto simp: EncodeRune_def Let_def r intro!: byte_charI)
next
  case (four c1 c2 c3 ds)
  define x y z u where "x = byte_of c - 0xF0" and "y = byte_of c1 - 0x80" and "z = byte_of c2 - 0x80"
    and "u = byte_of c3 - 0x80"
  have y: "0x80 \<le> byte_of c1 \<and> byte_of c1 \<le> 0xBF" using second_bounds four by blast
  have b: "byte_of c = 0xF0 + x" "byte_of c1 = 0x80 + y" "byte_of c2 = 0x80 + z" "byte_of c3 = 0x80 + u"
    "x \<le> 4" "y < 64" "z < 64" "u < 64"
    using four y by (auto simp: x_def y_def z_def u_def cont_byte_def)
  have r: "r = x * 262144 + y * 4096 + z * 64 + u" using four by (simp add: x_def y_def z_def u_def)
  have lo: "x = 0 \<Longrightarrow> 16 \<le> y" and hi: "x = 4 \<Longrightarrow> y < 16"
    using four b by (auto simp: second_lo_def second_hi_def)
  have "0x10000 \<le> r" using lo b r by (cases "x = 0") auto
  moreover have "r \<le> 0x10FFFF"
    using hi b r by (cases "x = 4") auto
  ultimately show ?thesis using four(1,2) b sextets(6-9) [of y z u x]
    by (auto simp: EncodeRune_def Let_def r intro!: byte_charI)
qed

lemma DecodeRune_high:
  assumes "DecodeRune (c # cs) = (r, w)" "(r, w) \<noteq> (RuneError, 1)" "\<not> byte_of c < 0x80"
  shows "\<forall>b \<in> set (take w (c # cs)). 0x80 \<le> byte_of b" "2 \<le> w" "w \<le> length (c # cs)"
    "DecodeRune (take w (c # cs) @ t) = (r, w)" "r < 0x110000"
proof -
  have "(\<forall>b \<in> set (take w (c # cs)). 0x80 \<le> byte_of b) \<and> 2 \<le> w \<and> w \<le> length (c # cs)
      \<and> DecodeRune (take w (c # cs) @ t) = (r, w) \<and> r < 0x110000"
    using assms
  proof (cases rule: DecodeRune_cases)
    case (two c1 ds)
    then show ?thesis using assms by (auto simp: DecodeRune.simps(2) Let_def cont_byte_def)
  next
    case (three c1 c2 ds)
    then have "0x80 \<le> byte_of c1 \<and> byte_of c1 \<le> 0xBF" using second_bounds by blast
    with three show ?thesis using assms by (auto simp: DecodeRune.simps(2) Let_def cont_byte_def)
  next
    case (four c1 c2 c3 ds)
    then have "0x80 \<le> byte_of c1 \<and> byte_of c1 \<le> 0xBF" using second_bounds by blast
    moreover have "byte_of c = 0xF4 \<Longrightarrow> byte_of c1 \<le> 0x8F" using four by (auto simp: second_hi_def)
    ultimately show ?thesis using four assms
      by (cases "byte_of c = 0xF4") (auto simp: DecodeRune.simps(2) Let_def cont_byte_def)
  qed
  then show "\<forall>b \<in> set (take w (c # cs)). 0x80 \<le> byte_of b" "2 \<le> w" "w \<le> length (c # cs)"
    "DecodeRune (take w (c # cs) @ t) = (r, w)" "r < 0x110000" by blast+
qed

section \<open>Strings\<close>

text \<open>The shape of a valid string: empty, an ASCII byte, or a rune of more bytes.\<close>

lemma ValidString_cases:
  assumes "ValidString s"
  obtains (empty) "s = []"
  | (ascii) c cs where "s = c # cs" "byte_of c < 0x80" "ValidString cs"
  | (rune) c cs r w where "s = c # cs" "\<not> byte_of c < 0x80" "DecodeRune (c # cs) = (r, w)"
      "(r, w) \<noteq> (RuneError, 1)" "ValidString (drop w s)"
proof (cases s)
  case (Cons c cs)
  obtain r w where d: "DecodeRune (c # cs) = (r, w)" by fastforce
  have v: "\<not> (r = RuneError \<and> w = 1) \<and> ValidString (drop w (c # cs))"
    using assms d Cons by (simp add: ValidString.simps [of "c # cs"] split: if_splits)
  show ?thesis
  proof (cases "byte_of c < 0x80")
    case True
    then have "w = 1" using d by (simp add: DecodeRune_ascii)
    then show ?thesis using v Cons True ascii by simp
  next
    case False
    then show ?thesis using v Cons d rune by auto
  qed
qed (use empty in blast)

lemma escape_ascii:
  "byte_of c < 0x80 \<Longrightarrow> escape_string (c # cs) =
     (if safe_byte (byte_of c) then [c] else escaped_byte (byte_of c)) @ escape_string cs"
  by (simp add: escape_string.simps [of "c # cs"])

lemma escape_rune:
  assumes "\<not> byte_of c < 0x80" "DecodeRune (c # cs) = (r, w)" "(r, w) \<noteq> (RuneError, 1)"
  shows "escape_string (c # cs) =
    (if r = 0x2028 \<or> r = 0x2029 then [backslash] @ ''u202'' @ [hex_char (r mod 16)] else take w (c # cs))
    @ escape_string (drop w (c # cs))"
  using assms by (simp add: escape_string.simps [of "c # cs"] rune_width_def)

lemma hex_value_hex_char: "n < 16 \<Longrightarrow> hex_value (hex_char n) = Some n"
  by (simp add: hex_value_def hex_char_def Let_def)

lemma special_bytes [simp]:
  "byte_of backslash = 92" "byte_of CHR 0x22 = 34" "byte_of CHR ''u'' = 117" "byte_of CHR ''0'' = 48"
  "byte_of CHR ''2'' = 50" "byte_of CHR ''b'' = 98" "byte_of CHR ''f'' = 102" "byte_of CHR ''n'' = 110"
  "byte_of CHR ''r'' = 114" "byte_of CHR ''t'' = 116"
  by (simp_all add: byte_of_def backslash_def)

lemma is_escape_bytes:
  "is_escape CHR ''b''" "is_escape CHR ''f''" "is_escape CHR ''n''" "is_escape CHR ''r''" "is_escape CHR ''t''"
  "\<not> is_escape CHR ''u''" "b = 92 \<or> b = 34 \<Longrightarrow> is_escape (byte_char b)"
  by (auto simp: is_escape_def)

lemma hex4_control:
  assumes "b < 256"
  shows "hex4 (CHR ''0'' # CHR ''0'' # hex_char (b div 16) # hex_char (b mod 16) # t) = Some b"
proof -
  have "hex_value (hex_char (b div 16)) = Some (b div 16)" "hex_value (hex_char (b mod 16)) = Some (b mod 16)"
    using assms by (intro hex_value_hex_char; simp)+
  moreover have "hex_value CHR ''0'' = Some 0" by (simp add: hex_value_def)
  ultimately show ?thesis by (simp add: hex4_def)
qed

lemma hex4_separator:
  "r = 0x2028 \<or> r = 0x2029 \<Longrightarrow> hex4 (CHR ''2'' # CHR ''0'' # CHR ''2'' # hex_char (r mod 16) # t) = Some r"
  using hex_value_hex_char [of "r mod 16"] by (auto simp: hex4_def hex_value_def)

text \<open>An escape of one ASCII byte is scanned in one piece and unquotes to the byte.\<close>

lemma scan_simple: "is_escape e \<Longrightarrow> scan_string (backslash # e # t) = map_option ((+) 2) (scan_string t)"
  by (simp add: scan_string.simps(2))

lemma scan_hex:
  "hex4 (h1 # h2 # h3 # h4 # t) = Some r \<Longrightarrow>
     scan_string (backslash # CHR ''u'' # h1 # h2 # h3 # h4 # t) = map_option ((+) 6) (scan_string t)"
  using is_escape_bytes(6) by (simp add: scan_string.simps(2))

lemma escaped_byte_simple:
  assumes "b = 92 \<or> b = 34 \<or> b \<in> {8, 12, 10, 13, 9}"
  obtains e where "escaped_byte b = [backslash, e]" "is_escape e"
  using assms is_escape_bytes by (auto simp: escaped_byte_def)

lemma escaped_byte_scan:
  assumes "b < 0x80" "\<not> safe_byte b"
  shows "scan_string (escaped_byte b @ t) = map_option ((+) (length (escaped_byte b))) (scan_string t)"
proof (cases "b = 92 \<or> b = 34 \<or> b \<in> {8, 12, 10, 13, 9}")
  case True
  then obtain e where e: "escaped_byte b = [backslash, e]" "is_escape e" by (rule escaped_byte_simple)
  then have two: "length (escaped_byte b) = 2" by simp
  show ?thesis unfolding two using scan_simple [OF e(2)] e(1) by simp
next
  case False
  then have e: "escaped_byte b = [backslash, CHR ''u'', CHR ''0'', CHR ''0'', hex_char (b div 16), hex_char (b mod 16)]"
    by (simp add: escaped_byte_def)
  then have six: "length (escaped_byte b) = 6" by simp
  show ?thesis unfolding six using scan_hex [OF hex4_control] e assms by simp
qed

lemma EncodeRune_ascii: "b < 0x80 \<Longrightarrow> EncodeRune b = [byte_char b]"
  by (simp add: EncodeRune_def)

lemma unquote_simple:
  "e \<noteq> CHR ''u'' \<Longrightarrow> unquote (backslash # e # t) = escape_byte e @ unquote t"
  by (simp add: unquote.simps [of "backslash # e # t"] getu4_def)

lemma unquote_hex:
  assumes "hex4 (h1 # h2 # h3 # h4 # t) = Some r" "\<not> is_surrogate r"
  shows "unquote (backslash # CHR ''u'' # h1 # h2 # h3 # h4 # t) = EncodeRune r @ unquote t"
  using assms by (simp add: unquote.simps [of "backslash # CHR ''u'' # h1 # h2 # h3 # h4 # t"] getu4_def)

lemma escaped_byte_unquote:
  assumes "b < 0x80" "\<not> safe_byte b"
  shows "unquote (escaped_byte b @ t) = byte_char b # unquote t"
proof -
  consider "b = 92 \<or> b = 34" | "b \<in> {8, 12, 10, 13, 9}" | "b \<notin> {92, 34, 8, 12, 10, 13, 9}" by blast
  then show ?thesis
  proof cases
    case 1
    then have "byte_of (byte_char b) \<notin> byte_of ` {CHR ''u'', CHR ''b'', CHR ''f'', CHR ''n'', CHR ''r'', CHR ''t''}"
      by auto
    then have "byte_char b \<notin> {CHR ''u'', CHR ''b'', CHR ''f'', CHR ''n'', CHR ''r'', CHR ''t''}" by blast
    then show ?thesis using 1 by (auto simp: escaped_byte_def unquote_simple escape_byte_def)
  next
    case 2
    then show ?thesis by (auto simp: escaped_byte_def unquote_simple escape_byte_def)
  next
    case 3
    then show ?thesis using unquote_hex [OF hex4_control [of b t]] assms
      by (simp add: escaped_byte_def is_surrogate_def EncodeRune_ascii)
  qed
qed

lemma scan_high: "\<forall>b \<in> set u. 0x80 \<le> byte_of b \<Longrightarrow> scan_string (u @ t) = map_option ((+) (length u)) (scan_string t)"
proof (induction u)
  case Nil
  then show ?case by (cases "scan_string t") simp_all
next
  case (Cons c u)
  then have "byte_of c \<noteq> 34" "byte_of c \<noteq> 92" "\<not> byte_of c < 32" by auto
  with Cons show ?case by (simp add: scan_string.simps(2) option.map_comp comp_def)
qed

lemma separator_escape:
  assumes "r = 0x2028 \<or> r = 0x2029"
  shows "scan_string ([backslash] @ ''u202'' @ [hex_char (r mod 16)] @ t) = map_option ((+) 6) (scan_string t)"
    "unquote ([backslash] @ ''u202'' @ [hex_char (r mod 16)] @ t) = EncodeRune r @ unquote t"
  using hex4_separator [OF assms, of t] is_escape_bytes unquote_hex [OF hex4_separator [OF assms, of t]] assms
  by (auto simp: scan_string.simps(2) is_surrogate_def)

lemma unquote_rune:
  assumes "\<not> byte_of c < 0x80" "DecodeRune (c # cs) = (r, w)" "(r, w) \<noteq> (RuneError, 1)"
  shows "unquote (take w (c # cs) @ t) = EncodeRune r @ unquote t"
proof -
  note high = DecodeRune_high [OF assms(2,3,1)]
  obtain w' where w': "w = Suc w'" using high(2) by (cases w) auto
  then have hd: "take w (c # cs) @ t = c # (take w' cs @ t)" by simp
  have d: "DecodeRune (c # (take w' cs @ t)) = (r, w)" using high(4) [of t] hd by simp
  have "drop w (take w (c # cs) @ t) = t" using high(3) by simp
  then show ?thesis
    using assms(1) unfolding hd unquote.simps [of "c # (take w' cs @ t)"] by (auto simp: d rune_width_def)
qed

lemma scan_escaped:
  "ValidString s \<Longrightarrow> scan_string (escape_string s @ CHR 0x22 # t) = Some (length (escape_string s) + 1)"
proof (induction s rule: length_induct)
  case (1 s)
  from "1.prems" show ?case
  proof (cases rule: ValidString_cases)
    case empty
    then show ?thesis by (simp add: escape_string.simps [of "[]"] scan_string.simps(2))
  next
    case (ascii c cs)
    then have IH: "scan_string (escape_string cs @ CHR 0x22 # t) = Some (length (escape_string cs) + 1)"
      using "1.IH" by simp
    show ?thesis
    proof (cases "safe_byte (byte_of c)")
      case True
      then show ?thesis using IH ascii by (simp add: escape_ascii safe_byte_def scan_string.simps(2))
    next
      case False
      then show ?thesis using IH ascii escaped_byte_scan [OF ascii(2) False] by (simp add: escape_ascii)
    qed
  next
    case (rune c cs r w)
    note high = DecodeRune_high [OF rune(3,4,2)]
    have "length (drop w s) < length s" using high(2) rune(1) by simp
    then have IH: "scan_string (escape_string (drop w s) @ CHR 0x22 # t) = Some (length (escape_string (drop w s)) + 1)"
      using "1.IH" rune(5) by blast
    show ?thesis
    proof (cases "r = 0x2028 \<or> r = 0x2029")
      case True
      then show ?thesis
        using IH separator_escape(1) [OF True, of "escape_string (drop w s) @ CHR 0x22 # t"] rune(1)
        by (simp add: escape_rune [OF rune(2-4)])
    next
      case False
      then show ?thesis using IH scan_high [OF high(1), of "escape_string (drop w s) @ CHR 0x22 # t"] rune(1)
        by (simp add: escape_rune [OF rune(2-4)])
    qed
  qed
qed

lemma unquote_escaped: "ValidString s \<Longrightarrow> unquote (escape_string s) = s"
proof (induction s rule: length_induct)
  case (1 s)
  from "1.prems" show ?case
  proof (cases rule: ValidString_cases)
    case empty
    then show ?thesis by (simp add: escape_string.simps [of "[]"] unquote.simps [of "[]"])
  next
    case (ascii c cs)
    then have IH: "unquote (escape_string cs) = cs" using "1.IH" by simp
    show ?thesis
    proof (cases "safe_byte (byte_of c)")
      case True
      then show ?thesis using IH ascii
        by (simp add: escape_ascii safe_byte_def unquote.simps [of "c # escape_string cs"])
    next
      case False
      then show ?thesis using IH ascii escaped_byte_unquote [OF ascii(2) False] by (simp add: escape_ascii)
    qed
  next
    case (rune c cs r w)
    note high = DecodeRune_high [OF rune(3,4,2)]
    have "length (drop w s) < length s" using high(2) rune(1) by simp
    then have IH: "unquote (escape_string (drop w s)) = drop w s" using "1.IH" rune(5) by blast
    have enc: "EncodeRune r @ drop w s = s"
      using EncodeRune_DecodeRune [OF rune(3,4,2)] rune(1) by (metis append_take_drop_id)
    show ?thesis
    proof (cases "r = 0x2028 \<or> r = 0x2029")
      case True
      then show ?thesis
        using IH separator_escape(2) [OF True, of "escape_string (drop w s)"] rune(1) enc
        by (simp add: escape_rune [OF rune(2-4)])
    next
      case False
      then show ?thesis using IH unquote_rune [OF rune(2-4), of "escape_string (drop w s)"] rune(1) enc
        by (simp add: escape_rune [OF rune(2-4)])
    qed
  qed
qed

section \<open>Well-formed values\<close>

text \<open>
  What decoding can give: keys in ascending order, strings in valid UTF-8, number literals, and no
  deeper nesting than the decoder allows.
\<close>

fun json_wf :: "json \<Rightarrow> bool" where
  "json_wf JNull = True"
| "json_wf (JBool b) = True"
| "json_wf (JNumber n) = valid_number n"
| "json_wf (JString s) = ValidString s"
| "json_wf (JArray vs) = list_all json_wf vs"
| "json_wf (JObject kvs) =
     (sorted_wrt (<) (map fst kvs) \<and> list_all (\<lambda>kv. ValidString (fst kv) \<and> json_wf (snd kv)) kvs)"

fun json_depth :: "json \<Rightarrow> nat" where
  "json_depth (JArray vs) = Suc (foldr max (map json_depth vs) 0)"
| "json_depth (JObject kvs) = Suc (foldr max (map (\<lambda>kv. json_depth (snd kv)) kvs) 0)"
| "json_depth _ = 0"

definition json_ok :: "json \<Rightarrow> bool" where
  "json_ok v = (json_wf v \<and> json_depth v \<le> maxNestingDepth)"

lemma foldr_max_le: "x \<in> set xs \<Longrightarrow> x \<le> foldr max xs (0 :: nat)"
  by (induction xs) auto

section \<open>Numbers at the head of a text\<close>

text \<open>What follows a value inside a container or at the end of the text.\<close>

definition boundary :: "string \<Rightarrow> bool" where
  "boundary rest = (rest = [] \<or> hd rest \<in> {CHR '','', CHR '']'', CHR ''}''})"

lemma boundary_simps [simp]:
  "boundary []" "boundary (CHR '','' # t)" "boundary (CHR '']'' # t)" "boundary (CHR ''}'' # t)"
  by (simp_all add: boundary_def)

lemma digit_bytes [simp]:
  "\<not> json_digit CHR '',''" "\<not> json_digit CHR '']''" "\<not> json_digit CHR ''}''" "\<not> json_digit CHR ''.''"
  "\<not> json_digit CHR ''e''" "\<not> json_digit CHR ''E''" "\<not> json_digit CHR ''+''" "\<not> json_digit CHR ''-''"
  by (simp_all add: json_digit_def byte_of_def)

lemma boundary_head: "boundary (c # t) \<Longrightarrow> c = CHR '','' \<or> c = CHR '']'' \<or> c = CHR ''}''"
  by (auto simp: boundary_def)

lemma digits_len_boundary: "boundary rest \<Longrightarrow> digits_len (s @ rest) = digits_len s"
proof -
  assume "boundary rest"
  then have "takeWhile json_digit rest = []" by (cases rest) (auto dest!: boundary_head)
  then have "takeWhile json_digit (s @ rest) = takeWhile json_digit s" by (induction s) auto
  then show ?thesis by (simp add: digits_len_def)
qed

lemma frac_len_boundary: "boundary rest \<Longrightarrow> frac_len (s @ rest) = frac_len s"
proof (cases s)
  case Nil
  then show "boundary rest \<Longrightarrow> frac_len (s @ rest) = frac_len s"
    by (cases rest) (auto simp: frac_len_def dest!: boundary_head)
qed (simp add: frac_len_def digits_len_boundary)

lemma exp_len_boundary:
  assumes "boundary rest"
  shows "exp_len (s @ rest) = exp_len s"
proof (cases s)
  case Nil
  with assms show ?thesis by (cases rest) (auto simp: exp_len_def dest!: boundary_head)
next
  case (Cons c cs)
  show ?thesis
  proof (cases cs)
    case Nil
    with Cons assms show ?thesis
      by (cases rest) (auto simp: exp_len_def digits_len_def dest!: boundary_head)
  next
    case (Cons d ds)
    then show ?thesis using \<open>s = c # cs\<close> digits_len_boundary [OF assms, of ds] digits_len_boundary [OF assms, of "d # ds"]
      by (simp add: exp_len_def Let_def)
  qed
qed

lemma number_len_boundary:
  assumes "boundary rest" "number_len s = Some n"
  shows "number_len (s @ rest) = Some n"
proof -
  define body ints where "body = drop (neg_len s) s" and "ints = int_len (drop (neg_len s) s)"
  obtain f x where f: "frac_len (drop ints body) = Some f" and x: "exp_len (drop (ints + f) body) = Some x"
    and n: "n = neg_len s + ints + f + x" and ints: "ints \<noteq> 0"
    using assms(2) by (auto simp: number_len_def Let_def ints_def body_def add.assoc split: if_splits option.splits)
  have s: "s \<noteq> []" using ints by (auto simp: ints_def int_len_def)
  then have neg: "neg_len (s @ rest) = neg_len s" "neg_len s \<le> length s" by (cases s; simp add: neg_len_def)+
  have b: "body \<noteq> []" using ints by (auto simp: ints_def body_def [symmetric] int_len_def)
  have le: "ints \<le> length body" using digits_len_le [of body] b
    by (cases body) (auto simp: ints_def body_def [symmetric] int_len_def)
  have i: "int_len (body @ rest) = ints" using b digits_len_boundary [OF assms(1), of body]
    by (cases body) (auto simp: ints_def body_def [symmetric] int_len_def)
  have "f \<le> length body - ints" using frac_len_le [OF f] by simp
  then have drops: "drop ints (body @ rest) = drop ints body @ rest"
    "drop (ints + f) (body @ rest) = drop (ints + f) body @ rest" "drop (neg_len s) (s @ rest) = body @ rest"
    using le neg(2) by (simp_all add: body_def)
  show ?thesis
    unfolding number_len_def Let_def neg(1) drops(3) i using f x n ints
    by (simp add: drops(1,2) frac_len_boundary [OF assms(1)] exp_len_boundary [OF assms(1)] del: drop_append)
qed

lemma number_head:
  assumes "number_len s = Some n"
  obtains c cs where "s = c # cs" "c = CHR ''-'' \<or> json_digit c"
proof (cases s)
  case Nil
  with assms show ?thesis by (simp add: number_len_def neg_len_def int_len_def)
next
  case (Cons c cs)
  have "c = CHR ''-'' \<or> json_digit c"
  proof (rule ccontr)
    assume a: "\<not> (c = CHR ''-'' \<or> json_digit c)"
    then have "c \<noteq> CHR ''0''" by (auto simp: json_digit_def byte_of_def)
    with a Cons assms show False by (simp add: number_len_def neg_len_def int_len_def digits_len_def Let_def)
  qed
  with Cons that show ?thesis by blast
qed

lemma lex_number:
  assumes "valid_number n" "boundary rest"
  shows "lex_one (n @ rest) = Some (TNumber n, length n)" "n \<noteq> []" "\<not> is_json_space (hd n)"
proof -
  have len: "number_len (n @ rest) = Some (length n)"
    using number_len_boundary [OF assms(2)] assms(1) by (simp add: valid_number_def)
  obtain c cs where n: "n = c # cs" and c: "c = CHR ''-'' \<or> json_digit c"
    using assms(1) number_head unfolding valid_number_def by metis
  have "\<not> is_delim c \<and> c \<noteq> CHR '','' \<and> c \<noteq> CHR '':'' \<and> byte_of c \<noteq> 34 \<and> \<not> is_json_space c"
    using c by (auto simp: is_delim_def json_digit_def is_json_space_def byte_of_def)
  then show "lex_one (n @ rest) = Some (TNumber n, length n)" "n \<noteq> []" "\<not> is_json_space (hd n)"
    using c len n by (auto simp: lex_one_def)
qed

lemma lex_words:
  "lex_one (''null'' @ rest) = Some (TNull, length ''null'')"
  "lex_one (''true'' @ rest) = Some (TBool True, length ''true'')"
  "lex_one (''false'' @ rest) = Some (TBool False, length ''false'')"
  by (simp_all add: lex_one_def is_delim_def byte_of_def json_digit_def)

lemma lex_string:
  assumes "ValidString s"
  shows "lex_one (quoted s @ rest) = Some (TString s, length (quoted s))"
  using scan_escaped [OF assms, of rest] unquote_escaped [OF assms]
  by (simp add: lex_one_def quoted_def is_delim_def)

section \<open>The round trip\<close>

lemma decode_token:
  assumes "lex_one (tok @ rest) = Some (t, length tok)" "tok \<noteq> []" "\<not> is_json_space (hd tok)"
    "json_step t (x, map frame_is_object fs) = Some (x', st)"
  shows "decode_value x fs (tok @ rest) =
    (case build_token x t fs of (Some v, _) \<Rightarrow> Some (v, rest) | (None, fs') \<Rightarrow> decode_value x' fs' rest)"
proof -
  obtain c cs where tok: "tok = c # cs" using assms(2) by (cases tok) auto
  show ?thesis
    using assms by (subst decode_value.simps) (simp add: tok split: prod.splits option.splits)
qed

definition continue_with :: "json \<Rightarrow> frame list \<Rightarrow> string \<Rightarrow> (json \<times> string) option" where
  "continue_with v fs rest =
     (case deliver v fs of (Some w, _) \<Rightarrow> Some (w, rest) | (None, fs') \<Rightarrow> decode_value XAfter fs' rest)"

definition value_expected :: "expecting \<Rightarrow> bool" where
  "value_expected x = (x = XValue \<or> x = XValueOrEnd)"

lemma scalar_step:
  assumes "value_expected x" "\<And>c. t \<noteq> TDelim c" "t \<noteq> TComma" "t \<noteq> TColon"
  shows "json_step t (x, st) = Some (XAfter, st)"
  using assms by (cases t) (auto simp: json_step_def value_expected_def)

lemma decode_scalar:
  assumes "lex_one (tok @ rest) = Some (t, length tok)" "tok \<noteq> []" "\<not> is_json_space (hd tok)"
    "value_expected x" "\<And>c. t \<noteq> TDelim c" "t \<noteq> TComma" "t \<noteq> TColon" "build_token x t fs = deliver v fs"
  shows "decode_value x fs (tok @ rest) = continue_with v fs rest"
  unfolding continue_with_def
  by (subst decode_token [OF assms(1-3) scalar_step [OF assms(4-7)]]) (simp add: assms(8))

definition reads_back :: "json \<Rightarrow> bool" where
  "reads_back v = (\<exists>e. json_Encode v = Some e \<and>
     (\<forall>x fs rest. value_expected x \<longrightarrow> boundary rest \<longrightarrow> length fs + json_depth v \<le> maxNestingDepth \<longrightarrow>
        decode_value x fs (e @ rest) = continue_with v fs rest))"

lemma reads_backI:
  assumes "json_Encode v = Some e"
    "\<And>x fs rest. value_expected x \<Longrightarrow> boundary rest \<Longrightarrow> length fs + json_depth v \<le> maxNestingDepth \<Longrightarrow>
       decode_value x fs (e @ rest) = continue_with v fs rest"
  shows "reads_back v"
  using assms unfolding reads_back_def by blast

lemma decode_punct:
  assumes "lex_one (c # rest) = Some (t, 1)" "\<not> is_json_space c"
    "json_step t (x, map frame_is_object fs) = Some (x', st)"
  shows "decode_value x fs ([c] @ rest) =
    (case build_token x t fs of (Some v, _) \<Rightarrow> Some (v, rest) | (None, fs') \<Rightarrow> decode_value x' fs' rest)"
  by (rule decode_token [of "[c]"]) (use assms in simp_all)

lemma lex_punct:
  "lex_one (CHR '','' # rest) = Some (TComma, 1)" "lex_one (CHR '':'' # rest) = Some (TColon, 1)"
  "lex_one (CHR ''['' # rest) = Some (TDelim CHR ''['', 1)" "lex_one (CHR '']'' # rest) = Some (TDelim CHR '']'', 1)"
  "lex_one (CHR ''{'' # rest) = Some (TDelim CHR ''{'', 1)" "lex_one (CHR ''}'' # rest) = Some (TDelim CHR ''}'', 1)"
  by (simp_all add: lex_one_def is_delim_def)

lemma punct_space:
  "\<not> is_json_space CHR '',''" "\<not> is_json_space CHR '':''" "\<not> is_json_space CHR ''[''" "\<not> is_json_space CHR '']''"
  "\<not> is_json_space CHR ''{''" "\<not> is_json_space CHR ''}''"
  by (simp_all add: is_json_space_def byte_of_def)

lemma decode_comma:
  "decode_value XAfter (FArray vs # fs) ('','' @ rest) = decode_value XValue (FArray vs # fs) rest"
  "decode_value XAfter (FObject kvs k # fs) ('','' @ rest) = decode_value XKey (FObject kvs k # fs) rest"
proof -
  note comma = decode_punct [OF lex_punct(1) punct_space(1)]
  show "decode_value XAfter (FArray vs # fs) ('','' @ rest) = decode_value XValue (FArray vs # fs) rest"
    by (subst comma) (simp_all add: json_step_def)
  show "decode_value XAfter (FObject kvs k # fs) ('','' @ rest) = decode_value XKey (FObject kvs k # fs) rest"
    by (subst comma) (simp_all add: json_step_def)
qed

lemma decode_close:
  "decode_value XAfter (FArray vs # fs) ('']'' @ rest) = continue_with (JArray vs) fs rest"
  "decode_value XValueOrEnd (FArray vs # fs) ('']'' @ rest) = continue_with (JArray vs) fs rest"
  "decode_value XAfter (FObject kvs k # fs) (''}'' @ rest) = continue_with (JObject kvs) fs rest"
  "decode_value XKeyOrEnd (FObject kvs k # fs) (''}'' @ rest) = continue_with (JObject kvs) fs rest"
proof -
  note bracket = decode_punct [OF lex_punct(4) punct_space(4)] and brace = decode_punct [OF lex_punct(6) punct_space(6)]
  show "decode_value XAfter (FArray vs # fs) ('']'' @ rest) = continue_with (JArray vs) fs rest"
    unfolding continue_with_def by (subst bracket) (simp_all add: json_step_def)
  show "decode_value XValueOrEnd (FArray vs # fs) ('']'' @ rest) = continue_with (JArray vs) fs rest"
    unfolding continue_with_def by (subst bracket) (simp_all add: json_step_def)
  show "decode_value XAfter (FObject kvs k # fs) (''}'' @ rest) = continue_with (JObject kvs) fs rest"
    unfolding continue_with_def by (subst brace) (simp_all add: json_step_def)
  show "decode_value XKeyOrEnd (FObject kvs k # fs) (''}'' @ rest) = continue_with (JObject kvs) fs rest"
    unfolding continue_with_def by (subst brace) (simp_all add: json_step_def)
qed

lemma decode_open:
  assumes "value_expected x" "length fs < maxNestingDepth"
  shows "decode_value x fs (''['' @ rest) = decode_value XValueOrEnd (FArray [] # fs) rest"
    "decode_value x fs (''{'' @ rest) = decode_value XKeyOrEnd (FObject [] None # fs) rest"
proof -
  have "json_step (TDelim CHR ''['') (x, map frame_is_object fs) = Some (XValueOrEnd, False # map frame_is_object fs)"
    "json_step (TDelim CHR ''{'') (x, map frame_is_object fs) = Some (XKeyOrEnd, True # map frame_is_object fs)"
    using assms by (auto simp: json_step_def value_expected_def)
  then show "decode_value x fs (''['' @ rest) = decode_value XValueOrEnd (FArray [] # fs) rest"
    "decode_value x fs (''{'' @ rest) = decode_value XKeyOrEnd (FObject [] None # fs) rest"
    using decode_punct [OF lex_punct(3) punct_space(3), of x fs] decode_punct [OF lex_punct(5) punct_space(5), of x fs]
    by simp_all
qed

lemma decode_key:
  assumes "ValidString k" "wants_key x"
  shows "decode_value x (FObject kvs k0 # fs) (quoted k @ '':'' @ rest) = decode_value XValue (FObject kvs (Some k) # fs) rest"
proof -
  have x: "x = XKey \<or> x = XKeyOrEnd" using assms(2) by (auto simp: wants_key_def)
  have "decode_value x (FObject kvs k0 # fs) (quoted k @ '':'' @ rest) = decode_value XColon (FObject kvs (Some k) # fs) ('':'' @ rest)"
    using x assms(2)
    by (subst decode_token [where t = "TString k", OF lex_string [OF assms(1)]])
      (auto simp: quoted_def is_json_space_def json_step_def)
  also have "\<dots> = decode_value XValue (FObject kvs (Some k) # fs) rest"
    by (subst decode_punct [OF lex_punct(2) punct_space(2)]) (simp_all add: json_step_def)
  finally show ?thesis .
qed

lemma continue_container [simp]:
  "continue_with v (FArray vs # fs) rest = decode_value XAfter (FArray (vs @ [v]) # fs) rest"
  "continue_with v (FObject kvs (Some k) # fs) rest = decode_value XAfter (FObject (map_put k v kvs) None # fs) rest"
  by (simp_all add: continue_with_def)

definition array_reads :: "json list \<Rightarrow> string list \<Rightarrow> bool" where
  "array_reads vs es =
     (sequence_opt (map json_Encode vs) = Some es \<and> (vs = [] \<longleftrightarrow> es = [])
      \<and> (\<forall>x acc fs rest. value_expected x \<longrightarrow> vs \<noteq> [] \<longrightarrow>
           (\<forall>v \<in> set vs. Suc (length fs) + json_depth v \<le> maxNestingDepth) \<longrightarrow>
           decode_value x (FArray acc # fs) (join_with '','' es @ '']'' @ rest) = continue_with (JArray (acc @ vs)) fs rest))"

lemma array_readsD:
  assumes "array_reads vs es"
  shows "sequence_opt (map json_Encode vs) = Some es" "vs = [] \<longleftrightarrow> es = []"
    "value_expected x \<Longrightarrow> vs \<noteq> [] \<Longrightarrow> \<forall>v \<in> set vs. Suc (length fs) + json_depth v \<le> maxNestingDepth \<Longrightarrow>
       decode_value x (FArray acc # fs) (join_with '','' es @ '']'' @ rest) = continue_with (JArray (acc @ vs)) fs rest"
  using assms unfolding array_reads_def by simp_all

lemma array_elements: "(\<And>v. v \<in> set vs \<Longrightarrow> reads_back v) \<Longrightarrow> \<exists>es. array_reads vs es"
proof (induction vs)
  case (Cons v vs)
  obtain e where e: "json_Encode v = Some e"
    and read: "\<And>x fs rest. value_expected x \<Longrightarrow> boundary rest \<Longrightarrow> length fs + json_depth v \<le> maxNestingDepth \<Longrightarrow>
       decode_value x fs (e @ rest) = continue_with v fs rest"
    using Cons.prems [of v] unfolding reads_back_def by auto
  obtain es where reads: "array_reads vs es" using Cons.IH Cons.prems by auto
  note es = array_readsD(1,2) [OF reads] and IH = array_readsD(3) [OF reads]
  have "decode_value x (FArray acc # fs) (join_with '','' (e # es) @ '']'' @ rest) = continue_with (JArray (acc @ v # vs)) fs rest"
    if x: "value_expected x" and deep: "\<forall>u \<in> set (v # vs). Suc (length fs) + json_depth u \<le> maxNestingDepth" for x acc fs rest
  proof (cases vs)
    case Nil
    then show ?thesis using es(2) read [OF x, of "'']'' @ rest" "FArray acc # fs"] deep decode_close(1) [of "acc @ [v]" fs rest]
      by simp
  next
    case (Cons u us)
    then obtain e' es' where es': "es = e' # es'" using es(2) by (cases es) auto
    have "decode_value x (FArray acc # fs) (e @ '','' @ join_with '','' es @ '']'' @ rest)
        = decode_value XAfter (FArray (acc @ [v]) # fs) ('','' @ join_with '','' es @ '']'' @ rest)"
      using read [OF x, of "'','' @ join_with '','' es @ '']'' @ rest" "FArray acc # fs"] deep by simp
    also have "\<dots> = decode_value XValue (FArray (acc @ [v]) # fs) (join_with '','' es @ '']'' @ rest)"
      by (rule decode_comma)
    also have "\<dots> = continue_with (JArray ((acc @ [v]) @ vs)) fs rest"
      by (rule IH) (use Cons deep in \<open>simp_all add: value_expected_def\<close>)
    finally show ?thesis by (simp add: es')
  qed
  then have "array_reads (v # vs) (e # es)" using e es by (simp add: array_reads_def)
  then show ?case by blast
qed (auto simp: array_reads_def intro!: exI [of _ "[]"])

lemma map_put_last: "sorted_wrt (<) (map fst (acc @ [(k, v)])) \<Longrightarrow> map_put k v acc = acc @ [(k, v)]"
  by (induction acc) (auto simp: sorted_wrt_append)

definition encode_entry :: "string \<times> json \<Rightarrow> string option" where
  "encode_entry kv = map_option (\<lambda>e. quoted (fst kv) @ '':'' @ e) (json_Encode (snd kv))"

definition object_reads :: "(string \<times> json) list \<Rightarrow> string list \<Rightarrow> bool" where
  "object_reads kvs es =
     (sequence_opt (map encode_entry kvs) = Some es \<and> (kvs = [] \<longleftrightarrow> es = [])
      \<and> (\<forall>x acc fs rest. wants_key x \<longrightarrow> kvs \<noteq> [] \<longrightarrow> sorted_wrt (<) (map fst (acc @ kvs)) \<longrightarrow>
           (\<forall>kv \<in> set kvs. Suc (length fs) + json_depth (snd kv) \<le> maxNestingDepth) \<longrightarrow>
           decode_value x (FObject acc None # fs) (join_with '','' es @ ''}'' @ rest) = continue_with (JObject (acc @ kvs)) fs rest))"

lemma object_readsD:
  assumes "object_reads kvs es"
  shows "sequence_opt (map encode_entry kvs) = Some es" "kvs = [] \<longleftrightarrow> es = []"
    "wants_key x \<Longrightarrow> kvs \<noteq> [] \<Longrightarrow> sorted_wrt (<) (map fst (acc @ kvs)) \<Longrightarrow>
       \<forall>kv \<in> set kvs. Suc (length fs) + json_depth (snd kv) \<le> maxNestingDepth \<Longrightarrow>
       decode_value x (FObject acc None # fs) (join_with '','' es @ ''}'' @ rest) = continue_with (JObject (acc @ kvs)) fs rest"
  using assms unfolding object_reads_def by simp_all

lemma object_elements:
  "(\<And>kv. kv \<in> set kvs \<Longrightarrow> ValidString (fst kv) \<and> reads_back (snd kv)) \<Longrightarrow> \<exists>es. object_reads kvs es"
proof (induction kvs)
  case (Cons kv kvs)
  obtain k v where kv: "kv = (k, v)" by fastforce
  have k: "ValidString k" using Cons.prems [of kv] kv by simp
  obtain e where e: "json_Encode v = Some e"
    and read: "\<And>x fs rest. value_expected x \<Longrightarrow> boundary rest \<Longrightarrow> length fs + json_depth v \<le> maxNestingDepth \<Longrightarrow>
       decode_value x fs (e @ rest) = continue_with v fs rest"
    using Cons.prems [of kv] kv unfolding reads_back_def by auto
  obtain es where reads: "object_reads kvs es" using Cons.IH Cons.prems by auto
  note es = object_readsD(1,2) [OF reads] and IH = object_readsD(3) [OF reads]
  have "decode_value x (FObject acc None # fs) (join_with '','' ((quoted k @ '':'' @ e) # es) @ ''}'' @ rest)
      = continue_with (JObject (acc @ kv # kvs)) fs rest"
    if x: "wants_key x" and sorted: "sorted_wrt (<) (map fst (acc @ kv # kvs))"
      and deep: "\<forall>u \<in> set (kv # kvs). Suc (length fs) + json_depth (snd u) \<le> maxNestingDepth" for x acc fs rest
  proof -
    have put: "map_put k v acc = acc @ [kv]"
      using map_put_last [of acc k v] sorted kv by (simp add: sorted_wrt_append)
    have entry: "decode_value x (FObject acc None # fs) (quoted k @ '':'' @ e @ t) = decode_value XAfter (FObject (acc @ [kv]) None # fs) t"
      if t: "boundary t" for t
    proof -
      have "decode_value XValue (FObject acc (Some k) # fs) (e @ t) = continue_with v (FObject acc (Some k) # fs) t"
        by (rule read) (use t deep kv in \<open>simp_all add: value_expected_def\<close>)
      then show ?thesis by (simp only: decode_key [OF k x] continue_container put)
    qed
    show ?thesis
    proof (cases kvs)
      case Nil
      then show ?thesis using es(2) entry [of "''}'' @ rest"] decode_close(3) [of "acc @ [kv]" None fs rest] by simp
    next
      case (Cons u us)
      then obtain e' es' where es': "es = e' # es'" using es(2) by (cases es) auto
      have "decode_value x (FObject acc None # fs) (quoted k @ '':'' @ e @ '','' @ join_with '','' es @ ''}'' @ rest)
          = decode_value XAfter (FObject (acc @ [kv]) None # fs) ('','' @ join_with '','' es @ ''}'' @ rest)"
        by (rule entry) simp
      also have "\<dots> = decode_value XKey (FObject (acc @ [kv]) None # fs) (join_with '','' es @ ''}'' @ rest)"
        by (rule decode_comma)
      also have "\<dots> = continue_with (JObject ((acc @ [kv]) @ kvs)) fs rest"
        by (rule IH) (use Cons deep sorted in \<open>simp_all add: wants_key_def\<close>)
      finally show ?thesis by (simp add: es')
    qed
  qed
  then have "object_reads (kv # kvs) ((quoted k @ '':'' @ e) # es)"
    using e es kv by (simp add: object_reads_def encode_entry_def)
  then show ?case by blast
qed (auto simp: object_reads_def intro!: exI [of _ "[]"])

lemma reads_back_scalar:
  assumes "json_Encode v = Some e" "\<And>rest. boundary rest \<Longrightarrow> lex_one (e @ rest) = Some (t, length e)"
    "e \<noteq> []" "\<not> is_json_space (hd e)" "\<And>c. t \<noteq> TDelim c" "t \<noteq> TComma" "t \<noteq> TColon"
    "\<And>x fs. value_expected x \<Longrightarrow> build_token x t fs = deliver v fs"
  shows "reads_back v"
  using assms by (intro reads_backI [of v e] decode_scalar [where t = t]) auto

lemma depth_element:
  "v \<in> set vs \<Longrightarrow> json_depth v < json_depth (JArray vs)"
  "kv \<in> set kvs \<Longrightarrow> json_depth (snd kv) < json_depth (JObject kvs)"
  using foldr_max_le [of "json_depth v" "map json_depth vs"]
    foldr_max_le [of "json_depth (snd kv)" "map (\<lambda>kv. json_depth (snd kv)) kvs"]
  by (auto simp: less_Suc_eq_le)

lemma json_wf_reads_back: "json_wf v \<Longrightarrow> reads_back v"
proof (induction v rule: json_wf.induct)
  case 1
  show ?case by (rule reads_back_scalar [of _ "''null''" TNull]) (simp_all add: lex_words is_json_space_def byte_of_def del: append.simps)
next
  case (2 b)
  show ?case
  proof (cases b)
    case True
    then show ?thesis
      by (intro reads_back_scalar [of _ "''true''" "TBool True"]) (simp_all add: lex_words is_json_space_def byte_of_def del: append.simps)
  next
    case False
    then show ?thesis
      by (intro reads_back_scalar [of _ "''false''" "TBool False"]) (simp_all add: lex_words is_json_space_def byte_of_def del: append.simps)
  qed
next
  case (3 n)
  then have n: "valid_number n" by simp
  show ?case
    by (rule reads_back_scalar [of _ n "TNumber n"])
      (use n lex_number [OF n] lex_number(2,3) [OF n, of "[]"] in simp_all)
next
  case (4 s)
  show ?case
  proof (rule reads_back_scalar [of _ "quoted s" "TString s"])
    show "lex_one (quoted s @ rest) = Some (TString s, length (quoted s))" for rest
      using 4 by (intro lex_string) simp
  qed (auto simp: quoted_def is_json_space_def value_expected_def wants_key_def)
next
  case (5 vs)
  then have el: "\<And>v. v \<in> set vs \<Longrightarrow> reads_back v" by (simp add: list_all_iff)
  obtain es where reads: "array_reads vs es" using array_elements el by blast
  note es = array_readsD(1,2) [OF reads] and run = array_readsD(3) [OF reads]
  show ?case
  proof (rule reads_backI)
    show "json_Encode (JArray vs) = Some (''['' @ join_with '','' es @ '']'')" using es by simp
    fix x and fs :: "frame list" and rest
    assume a: "value_expected x" "boundary rest" "length fs + json_depth (JArray vs) \<le> maxNestingDepth"
    then have opened: "decode_value x fs (''['' @ t) = decode_value XValueOrEnd (FArray [] # fs) t" for t
      by (intro decode_open) simp_all
    have "decode_value XValueOrEnd (FArray [] # fs) (join_with '','' es @ '']'' @ rest) = continue_with (JArray vs) fs rest"
    proof (cases "vs = []")
      case True
      then show ?thesis using es decode_close(2) [of "[]" fs rest] by simp
    next
      case False
      have "\<forall>v \<in> set vs. Suc (length fs) + json_depth v \<le> maxNestingDepth"
        using a(3) depth_element(1) by fastforce
      then show ?thesis using run [OF _ False, of XValueOrEnd fs "[]"] by (simp add: value_expected_def)
    qed
    then show "decode_value x fs ((''['' @ join_with '','' es @ '']'') @ rest) = continue_with (JArray vs) fs rest"
      using opened [of "join_with '','' es @ '']'' @ rest"] by simp
  qed
next
  case (6 kvs)
  then have el: "\<And>kv. kv \<in> set kvs \<Longrightarrow> ValidString (fst kv) \<and> reads_back (snd kv)" by (auto simp: list_all_iff)
  obtain es where reads: "object_reads kvs es" using object_elements el by blast
  note es = object_readsD(1,2) [OF reads] and run = object_readsD(3) [OF reads]
  show ?case
  proof (rule reads_backI)
    show "json_Encode (JObject kvs) = Some (''{'' @ join_with '','' es @ ''}'')"
      using es by (simp add: encode_entry_def [abs_def])
    fix x and fs :: "frame list" and rest
    assume a: "value_expected x" "boundary rest" "length fs + json_depth (JObject kvs) \<le> maxNestingDepth"
    then have opened: "decode_value x fs (''{'' @ t) = decode_value XKeyOrEnd (FObject [] None # fs) t" for t
      by (intro decode_open) simp_all
    have "decode_value XKeyOrEnd (FObject [] None # fs) (join_with '','' es @ ''}'' @ rest) = continue_with (JObject kvs) fs rest"
    proof (cases "kvs = []")
      case True
      then show ?thesis using es decode_close(4) [of "[]" None fs rest] by simp
    next
      case False
      have "\<forall>kv \<in> set kvs. Suc (length fs) + json_depth (snd kv) \<le> maxNestingDepth"
        using a(3) depth_element(2) by fastforce
      then show ?thesis using run [OF _ False, of XKeyOrEnd "[]" fs] "6.prems" by (simp add: wants_key_def)
    qed
    then show "decode_value x fs ((''{'' @ join_with '','' es @ ''}'') @ rest) = continue_with (JObject kvs) fs rest"
      using opened [of "join_with '','' es @ ''}'' @ rest"] by simp
  qed
qed

lemma json_round_trip: "json_ok v \<Longrightarrow> \<exists>e. json_Encode v = Some e \<and> json_Decode e = Some v"
proof -
  assume ok: "json_ok v"
  then obtain e where e: "json_Encode v = Some e"
    and read: "\<And>x fs rest. value_expected x \<Longrightarrow> boundary rest \<Longrightarrow> length fs + json_depth v \<le> maxNestingDepth \<Longrightarrow>
       decode_value x fs (e @ rest) = continue_with v fs rest"
    using json_wf_reads_back [of v] unfolding json_ok_def reads_back_def by blast
  have "decode_value XValue [] (e @ []) = continue_with v [] []"
    using ok by (intro read) (simp_all add: value_expected_def json_ok_def)
  then show ?thesis using e by (simp add: json_Decode_def continue_with_def)
qed

section \<open>What decoding gives\<close>

lemma rune_digits:
  fixes q :: nat
  shows "q = q div 4096 * 4096 + q div 64 mod 64 * 64 + q mod 64"
    "q = q div 262144 * 262144 + q div 4096 mod 64 * 4096 + q div 64 mod 64 * 64 + q mod 64"
proof -
  have a: "q = q div 64 * 64 + q mod 64" "q div 64 = q div 4096 * 64 + q div 64 mod 64"
    "q div 4096 = q div 262144 * 64 + q div 4096 mod 64"
    using div_mult_mod_eq [of q 64] div_mult_mod_eq [of "q div 64" 64] div_mult_mod_eq [of "q div 4096" 64]
    by (simp_all flip: div_mult2_eq)
  then show "q = q div 4096 * 4096 + q div 64 mod 64 * 64 + q mod 64"
    "q = q div 262144 * 262144 + q div 4096 mod 64 * 4096 + q div 64 mod 64 * 64 + q mod 64"
    by linarith+
qed

lemma ValidString_drop: "snd (DecodeRune s) = w \<Longrightarrow> 2 \<le> w \<Longrightarrow> s \<noteq> [] \<Longrightarrow> ValidString s = ValidString (drop w s)"
  by (subst ValidString.simps) (auto simp: split_beta)

lemma encoded_rune_valid:
  assumes "r < 0x110000"
  shows "ValidString (EncodeRune r @ t) = ValidString t"
proof -
  define q where "q = (if (0xD800 \<le> r \<and> r \<le> 0xDFFF) \<or> 0x10FFFF < r then RuneError else r)"
  have q: "q < 0x110000" "\<not> (0xD800 \<le> q \<and> q \<le> 0xDFFF)" using assms by (auto simp: q_def RuneError_def)
  have same: "EncodeRune r = EncodeRune q"
    by (auto simp: EncodeRune_def q_def RuneError_def Let_def)
  note byte = byte_of_byte_char
  consider "q < 0x80" | "0x80 \<le> q" "q < 0x800" | "0x800 \<le> q" "q < 0x10000" | "0x10000 \<le> q" by linarith
  then show ?thesis
  proof cases
    case 1
    then have e: "EncodeRune r = [byte_char q]" unfolding same by (simp add: EncodeRune_def)
    have "DecodeRune (byte_char q # t) = (q, 1)" using 1 by (subst DecodeRune_ascii) simp_all
    then show ?thesis using 1 unfolding e by (simp add: ValidString.simps [of "byte_char q # t"] RuneError_def)
  next
    case 2
    define x y where "x = q div 64" and "y = q mod 64"
    have b: "2 \<le> x" "x < 32" "y < 64" using 2 by (auto simp: x_def y_def)
    have e: "EncodeRune r = [byte_char (0xC0 + x), byte_char (0x80 + y)]"
      unfolding same using 2 by (simp add: EncodeRune_def x_def y_def)
    have w: "snd (DecodeRune (byte_char (0xC0 + x) # byte_char (0x80 + y) # t)) = 2"
      using b by (simp add: DecodeRune.simps(2) Let_def cont_byte_def)
    show ?thesis using ValidString_drop [OF w] unfolding e by simp
  next
    case 3
    define x y z where "x = q div 4096" and "y = q div 64 mod 64" and "z = q mod 64"
    have b: "x < 16" "y < 64" "z < 64" using 3 by (auto simp: x_def y_def z_def)
    have e: "EncodeRune r = [byte_char (0xE0 + x), byte_char (0x80 + y), byte_char (0x80 + z)]"
      unfolding same using 3 q by (auto simp: EncodeRune_def x_def y_def z_def Let_def)
    have split: "q = x * 4096 + y * 64 + z" unfolding x_def y_def z_def by (rule rune_digits)
    have "x = 0 \<Longrightarrow> 32 \<le> y" using 3 b split by auto
    moreover have "x = 13 \<Longrightarrow> y \<le> 31" using q(2) b split by auto
    ultimately have w: "snd (DecodeRune (byte_char (0xE0 + x) # byte_char (0x80 + y) # byte_char (0x80 + z) # t)) = 3"
      using b by (simp add: DecodeRune.simps(2) Let_def cont_byte_def second_lo_def second_hi_def)
    show ?thesis using ValidString_drop [OF w] unfolding e by simp
  next
    case 4
    define x y z u where "x = q div 262144" and "y = q div 4096 mod 64" and "z = q div 64 mod 64" and "u = q mod 64"
    have b: "x < 5" "y < 64" "z < 64" "u < 64" using q by (auto simp: x_def y_def z_def u_def)
    have e: "EncodeRune r = [byte_char (0xF0 + x), byte_char (0x80 + y), byte_char (0x80 + z), byte_char (0x80 + u)]"
      unfolding same using 4 q by (auto simp: EncodeRune_def x_def y_def z_def u_def Let_def)
    have split: "q = x * 262144 + y * 4096 + z * 64 + u"
      unfolding x_def y_def z_def u_def by (rule rune_digits)
    have "x = 0 \<Longrightarrow> 16 \<le> y" using 4 b split by auto
    moreover have "x = 4 \<Longrightarrow> y \<le> 15" using q(1) b split by auto
    ultimately have w: "snd (DecodeRune (byte_char (0xF0 + x) # byte_char (0x80 + y) # byte_char (0x80 + z) # byte_char (0x80 + u) # t)) = 4"
      using b by (simp add: DecodeRune.simps(2) Let_def cont_byte_def second_lo_def second_hi_def)
    show ?thesis using ValidString_drop [OF w] unfolding e by simp
  qed
qed

lemma hex4_less: "hex4 s = Some r \<Longrightarrow> r < 0x10000"
proof -
  have h: "hex_value c = Some v \<Longrightarrow> v < 16" for c v by (auto simp: hex_value_def Let_def split: if_splits)
  show "hex4 s = Some r \<Longrightarrow> r < 0x10000"
    by (auto simp: hex4_def split: list.splits option.splits dest!: h)
qed

lemma getu4_less: "getu4 s = Some r \<Longrightarrow> r < 0x110000"
  using hex4_less by (fastforce simp: getu4_def split: list.splits if_splits)

lemma utf16_less: "utf16_DecodeRune a b < 0x110000"
  by (auto simp: utf16_DecodeRune_def RuneError_def)

lemma DecodeRune_less: "fst (DecodeRune s) < 0x110000"
proof (cases s)
  case Nil
  then show ?thesis by (simp add: RuneError_def)
next
  case (Cons c cs)
  obtain r w where d: "DecodeRune (c # cs) = (r, w)" by fastforce
  show ?thesis
  proof (cases "byte_of c < 0x80 \<or> (r, w) = (RuneError, 1)")
    case True
    then show ?thesis using d Cons by (auto simp: DecodeRune_ascii RuneError_def)
  next
    case False
    then show ?thesis using DecodeRune_high(5) [OF d] d Cons by simp
  qed
qed

lemma ValidString_ascii: "byte_of c < 0x80 \<Longrightarrow> ValidString (c # t) = ValidString t"
  by (simp add: ValidString.simps [of "c # t"] DecodeRune_ascii RuneError_def)

text \<open>The bytes between the quotes of a string literal.\<close>

definition literal :: "string \<Rightarrow> bool" where
  "literal s = (\<exists>t. scan_string (s @ CHR 0x22 # t) = Some (length s + 1))"

lemma scan_string_quote: "scan_string s = Some n \<Longrightarrow> s ! (n - 1) = CHR 0x22"
proof (induction s arbitrary: n rule: scan_string.induct)
  case (2 c cs)
  consider "byte_of c = 34" | "byte_of c = 92" | "byte_of c \<noteq> 34" "byte_of c \<noteq> 92" by blast
  then show ?case
  proof cases
    case 1
    then have "c = CHR 0x22" by (metis byte_char_byte_of special_bytes(2))
    with 1 "2.prems" show ?thesis by (simp add: scan_string.simps(2))
  next
    case 2
    then obtain e es where cs: "cs = e # es"
      using "2.prems" by (auto simp: scan_string.simps(2) split: list.splits)
    show ?thesis
    proof (cases "is_escape e")
      case True
      then obtain m where m: "scan_string es = Some m" "n = 2 + m"
        using "2.prems" 2 cs by (auto simp: scan_string.simps(2))
      then have "1 \<le> m" using scan_string_bounds by blast
      with "2.IH"(1) [OF _ 2 cs True, of m] 2 cs m show ?thesis by (cases m) simp_all
    next
      case False
      with "2.prems" 2 cs have u: "e = CHR ''u''" by (simp add: scan_string.simps(2) split: if_splits)
      obtain h1 h2 h3 h4 rest where es: "es = h1 # h2 # h3 # h4 # rest" and hex: "hex4 es \<noteq> None"
        using "2.prems" 2 cs False u by (simp add: scan_string.simps(2) split: list.splits if_splits)
      then obtain m where m: "scan_string rest = Some m" "n = 6 + m"
        using "2.prems" 2 cs False u by (auto simp: scan_string.simps(2))
      then have "1 \<le> m" using scan_string_bounds by blast
      moreover have "rest ! (m - 1) = CHR 0x22"
        using "2.IH"(2) [OF _ 2 cs False u es refl refl refl hex m(1)] 2 by simp
      ultimately show ?thesis using 2 cs es m by (cases m) simp_all
    qed
  next
    case 3
    then have c: "\<not> byte_of c < 32" using "2.prems" by (auto simp: scan_string.simps(2))
    then obtain m where m: "scan_string cs = Some m" "n = Suc m"
      using "2.prems" 3 by (auto simp: scan_string.simps(2))
    then have "1 \<le> m" using scan_string_bounds by blast
    with "2.IH"(3) [OF 3 c, of m] m show ?thesis by (cases m) simp_all
  qed
qed simp

lemma scanned_literal:
  assumes "scan_string s = Some n"
  shows "literal (take (n - 1) s)"
proof -
  have b: "1 \<le> n" "n \<le> length s" using scan_string_bounds [OF assms] by auto
  then have "s = take (n - 1) s @ CHR 0x22 # drop n s"
    using scan_string_quote [OF assms] id_take_nth_drop [of "n - 1" s] by simp
  then show ?thesis unfolding literal_def using assms b by (intro exI [of _ "drop n s"]) simp
qed

lemma hex_value_quote [simp]: "hex_value CHR 0x22 = None"
  by (simp add: hex_value_def)

lemma hex4_long:
  assumes "hex4 (es @ CHR 0x22 # t) = Some r"
  shows "4 \<le> length es"
proof (rule ccontr)
  assume "\<not> 4 \<le> length es"
  then consider "es = []" | a where "es = [a]" | a b where "es = [a, b]" | a b c where "es = [a, b, c]"
    by (auto simp: not_le numeral_eq_Suc less_Suc_eq length_Suc_conv)
  then show False using assms by cases (auto simp: hex4_def split: list.splits option.splits)
qed

lemma hex4_take: "4 \<le> length es \<Longrightarrow> hex4 (es @ t) = hex4 es"
  by (cases es; cases "tl es"; cases "tl (tl es)"; cases "tl (tl (tl es))") (auto simp: hex4_def)

text \<open>One step of the literal: what comes after its first character or escape is a literal.\<close>

lemma literal_step:
  assumes "literal (c # cs)"
  obtains
    (escape) e es where "byte_of c = 92" "cs = e # es" "is_escape e" "literal es"
  | (hex) es rr where "byte_of c = 92" "cs = CHR ''u'' # es" "getu4 (c # cs) = Some rr" "literal (drop 4 es)"
  | (plain) "byte_of c \<noteq> 92" "32 \<le> byte_of c" "literal cs"
proof -
  obtain t where t: "scan_string (c # (cs @ CHR 0x22 # t)) = Some (length cs + 2)"
    using assms by (auto simp: literal_def)
  show ?thesis
  proof (cases "byte_of c = 92")
    case True
    note scan = t [unfolded scan_string.simps(2)]
    show ?thesis
    proof (cases cs)
      case Nil
      have "is_escape CHR 0x22" by (simp add: is_escape_def)
      then show ?thesis using scan True Nil scan_string_bounds [of t 0] by auto
    next
      case (Cons e es)
      show ?thesis
      proof (cases "is_escape e")
        case esc: True
        then have "scan_string (es @ CHR 0x22 # t) = Some (length es + 1)" using scan True Cons by auto
        then show ?thesis using escape True Cons esc unfolding literal_def by blast
      next
        case False
        then have e: "e = CHR ''u''" using scan True Cons by (auto split: if_splits)
        obtain r where r: "hex4 (es @ CHR 0x22 # t) = Some r"
          using scan True Cons False e by (auto split: list.splits if_splits)
        note long = hex4_long [OF r]
        obtain h1 h2 h3 h4 rest where es: "es = h1 # h2 # h3 # h4 # rest"
          using long by (auto simp: Suc_le_length_iff numeral_eq_Suc)
        have "hex4 es = Some r" using r hex4_take [OF long] by simp
        then have "getu4 (c # cs) = Some r" using True Cons e by (simp add: getu4_def)
        moreover have "scan_string (rest @ CHR 0x22 # t) = Some (length rest + 1)"
          using scan True Cons False e es by (auto split: if_splits)
        then have "literal (drop 4 es)" unfolding literal_def es by auto
        ultimately show ?thesis using hex True Cons e by blast
      qed
    qed
  next
    case False
    then have "byte_of c \<noteq> 34" using t by (auto simp: scan_string.simps(2))
    then show ?thesis using t False plain unfolding literal_def by (auto simp: scan_string.simps(2) split: if_splits)
  qed
qed

lemma literal_hex:
  assumes "literal s" "getu4 s = Some rr"
  shows "literal (drop 6 s)" "6 \<le> length s"
proof -
  obtain c e es where s: "s = c # e # es" "byte_of c = 92" "e = CHR ''u''" "hex4 es = Some rr"
    using assms(2) by (auto simp: getu4_def split: list.splits if_splits)
  have len: "4 \<le> length es" using s(4) by (auto simp: hex4_def split: list.splits)
  from assms(1) [unfolded s(1)] show "literal (drop 6 s)"
    using s len is_escape_bytes(6) by (cases rule: literal_step) (auto simp: numeral_eq_Suc)
  show "6 \<le> length s" using len s by simp
qed

lemma literal_high: "literal (u @ s) \<Longrightarrow> \<forall>b \<in> set u. 0x80 \<le> byte_of b \<Longrightarrow> literal s"
proof (induction u)
  case (Cons c u)
  from Cons.prems(1) have "literal (u @ s)"
    using Cons.prems(2) by (cases rule: literal_step [of c "u @ s", simplified append_Cons]) auto
  with Cons show ?case by simp
qed simp

lemma unquote_valid: "literal s \<Longrightarrow> ValidString (unquote s)"
proof (induction s rule: length_induct)
  case (1 s)
  then have IH: "\<And>t. length t < length s \<Longrightarrow> literal t \<Longrightarrow> ValidString (unquote t)" by blast
  show ?case
  proof (cases s)
    case Nil
    then show ?thesis by (simp add: unquote.simps [of "[]"] ValidString.simps [of "[]"])
  next
    case (Cons c cs)
    show ?thesis
      using "1.prems" [unfolded Cons]
    proof (cases rule: literal_step)
      case (escape e es)
      have "e \<noteq> CHR ''u''" using escape(3) is_escape_bytes(6) by metis
      then have u: "unquote s = escape_byte e @ unquote es"
        unfolding Cons escape(2) using escape(1) by (subst unquote.simps) (simp add: getu4_def)
      have "byte_of e < 0x80" using escape(3) by (auto simp: is_escape_def byte_of_def)
      then have "ValidString (escape_byte e @ unquote es) = ValidString (unquote es)"
        by (simp add: escape_byte_def ValidString_ascii)
      then show ?thesis using IH [of es] escape Cons u by simp
    next
      case (hex es rr)
      note six = literal_hex [OF "1.prems", of rr]
      have g: "getu4 s = Some rr" using hex(3) Cons by simp
      have tail: "ValidString (unquote (drop 6 s))" using IH six [OF g] by simp
      have "ValidString (unquote (drop 12 s))" if "getu4 (drop 6 s) = Some r" for r
        using literal_hex [OF six(1) [OF g] that] six(2) [OF g] by (intro IH) simp_all
      moreover have "unquote s =
          (if is_surrogate rr then
             (case getu4 (drop 6 s) of
                Some rr1 \<Rightarrow>
                  if utf16_DecodeRune rr rr1 \<noteq> RuneError
                  then EncodeRune (utf16_DecodeRune rr rr1) @ unquote (drop 12 s)
                  else EncodeRune RuneError @ unquote (drop 6 s)
              | None \<Rightarrow> EncodeRune RuneError @ unquote (drop 6 s))
           else EncodeRune rr @ unquote (drop 6 s))"
        using hex(1) g unfolding Cons by (subst unquote.simps) simp
      ultimately show ?thesis
        using tail getu4_less [OF g] utf16_less [of rr] by (auto simp: encoded_rune_valid RuneError_def split: option.splits)
    next
      case plain
      show ?thesis
      proof (cases "byte_of c < 0x80")
        case True
        then have "unquote s = c # unquote cs" using plain unfolding Cons by (subst unquote.simps) simp
        then show ?thesis using IH [of cs] plain Cons True by (simp add: ValidString_ascii)
      next
        case False
        obtain r w where d: "DecodeRune (c # cs) = (r, w)" by fastforce
        have w: "0 < w" "w \<le> length s" using DecodeRune_width [OF d] Cons by auto
        have "\<forall>b \<in> set (take w (c # cs)). 0x80 \<le> byte_of b"
        proof (cases "(r, w) = (RuneError, 1)")
          case True
          then show ?thesis using False by simp
        next
          case valid: False
          show ?thesis using DecodeRune_high(1) [OF d valid False] .
        qed
        then have "literal (drop w s)"
          using literal_high [of "take w s" "drop w s"] "1.prems" Cons by simp
        then have "ValidString (unquote (drop w s))" using IH w by simp
        moreover have "unquote s = EncodeRune r @ unquote (drop w s)"
          using False plain d unfolding Cons by (subst unquote.simps) (simp add: rune_width_def)
        ultimately show ?thesis using encoded_rune_valid DecodeRune_less [of "c # cs"] d by simp
      qed
    qed
  qed
qed

text \<open>A number literal is a number on its own.\<close>

lemma digits_len_take: "digits_len (take n s) = min n (digits_len s)"
  unfolding digits_len_def by (induction s arbitrary: n) (auto simp: take_Cons split: nat.splits)

lemma exp_len_take:
  assumes "exp_len s = Some x"
  shows "exp_len (take x s) = Some x"
proof (cases "x = 0")
  case False
  then obtain c cs where s: "s = c # cs" and c: "c = CHR ''e'' \<or> c = CHR ''E''"
    using assms by (cases s) (auto simp: exp_len_def split: if_splits)
  show ?thesis
  proof (cases cs)
    case Nil
    then show ?thesis using assms c s by (simp add: exp_len_def digits_len_def)
  next
    case (Cons d ds)
    then show ?thesis using assms c s digits_len_take [of "x - 2" ds] digits_len_take [of "x - 1" cs]
      by (auto simp: exp_len_def Let_def take_Cons split: if_splits nat.splits)
  qed
qed (simp add: exp_len_def)

lemma frac_len_take:
  assumes "frac_len s = Some f" "exp_len (drop f s) = Some x"
  shows "frac_len (take (f + x) s) = Some f"
proof (cases s)
  case (Cons c cs)
  show ?thesis
  proof (cases "c = CHR ''.''")
    case True
    then have f: "f = 1 + digits_len cs" "digits_len cs \<noteq> 0" using assms(1) Cons by (auto simp: frac_len_def split: if_splits)
    then have "take (f + x) s = c # take (digits_len cs + x) cs" using Cons by simp
    then show ?thesis using True f by (simp add: frac_len_def digits_len_take)
  next
    case False
    then show ?thesis using assms(1) Cons by (cases x) (auto simp: frac_len_def)
  qed
qed (use assms in \<open>simp add: frac_len_def\<close>)

lemma number_len_take:
  assumes "number_len s = Some n"
  shows "valid_number (take n s)"
proof -
  define body ints where "body = drop (neg_len s) s" and "ints = int_len (drop (neg_len s) s)"
  obtain f x where f: "frac_len (drop ints body) = Some f" and x: "exp_len (drop (ints + f) body) = Some x"
    and n: "n = neg_len s + ints + f + x" and ints: "ints \<noteq> 0"
    using assms by (auto simp: number_len_def Let_def ints_def body_def add.assoc split: if_splits option.splits)
  have neg: "neg_len (take n s) = neg_len s"
    using n ints by (cases s) (auto simp: neg_len_def take_Cons split: nat.splits)
  have take_body: "drop (neg_len s) (take n s) = take (ints + f + x) body"
    using n by (simp add: body_def drop_take add.assoc)
  have int: "int_len (take (ints + f + x) body) = ints"
    using ints digits_len_take [of "ints + f + x" body]
    by (cases body) (auto simp: ints_def body_def [symmetric] int_len_def take_Cons split: nat.splits if_splits)
  have "drop ints (take (ints + f + x) body) = take (f + x) (drop ints body)"
    "drop (ints + f) (take (ints + f + x) body) = take x (drop (ints + f) body)"
    by (simp_all add: drop_take)
  moreover have "frac_len (take (f + x) (drop ints body)) = Some f"
    using frac_len_take [OF f] x by (simp add: add.commute)
  moreover have "exp_len (take x (drop (ints + f) body)) = Some x" using exp_len_take [OF x] .
  ultimately have "number_len (take n s) = Some n"
    unfolding number_len_def Let_def neg take_body int using ints n by simp
  then show ?thesis using number_len_le [OF assms] by (simp add: valid_number_def min_def)
qed

text \<open>What the open containers hold is well formed and fits under the nesting limit.\<close>

fun frames_ok :: "frame list \<Rightarrow> bool" where
  "frames_ok [] = True"
| "frames_ok (FArray vs # fs) =
     (list_all (\<lambda>v. json_wf v \<and> json_depth v + Suc (length fs) \<le> maxNestingDepth) vs
      \<and> length fs < maxNestingDepth \<and> frames_ok fs)"
| "frames_ok (FObject kvs k # fs) =
     (sorted_wrt (<) (map fst kvs)
      \<and> list_all (\<lambda>kv. ValidString (fst kv) \<and> json_wf (snd kv) \<and> json_depth (snd kv) + Suc (length fs) \<le> maxNestingDepth) kvs
      \<and> (case k of Some s \<Rightarrow> ValidString s | None \<Rightarrow> True) \<and> length fs < maxNestingDepth \<and> frames_ok fs)"

definition fits :: "json \<Rightarrow> frame list \<Rightarrow> bool" where
  "fits v fs = (json_wf v \<and> json_depth v + length fs \<le> maxNestingDepth)"

lemma map_put_keys: "fst ` set (map_put k v kvs) = insert k (fst ` set kvs)"
  by (induction k v kvs rule: map_put.induct) (simp_all add: insert_commute)

lemma map_put_sorted: "sorted_wrt (<) (map fst kvs) \<Longrightarrow> sorted_wrt (<) (map fst (map_put k v kvs))"
proof (induction kvs)
  case (Cons kv kvs)
  obtain k' v' where kv: "kv = (k', v')" by fastforce
  have "\<forall>x \<in> fst ` set kvs. k' < x" using Cons.prems kv by auto
  then have "k' < k \<Longrightarrow> \<forall>x \<in> fst ` set (map_put k v kvs). k' < x" unfolding map_put_keys by simp
  then show ?case using Cons kv by (auto dest: less_trans)
qed simp

lemma map_put_all: "list_all P kvs \<Longrightarrow> P (k, v) \<Longrightarrow> list_all P (map_put k v kvs)"
  by (induction kvs) auto

lemma deliver_ok:
  assumes "frames_ok fs" "fits v fs"
  shows "case deliver v fs of (Some w, _) \<Rightarrow> json_ok w | (None, fs') \<Rightarrow> frames_ok fs'"
proof (cases "(v, fs)" rule: deliver.cases)
  case (1 v)
  with assms show ?thesis by (simp add: fits_def json_ok_def)
next
  case (2 v vs fs)
  with assms show ?thesis by (simp add: fits_def)
next
  case (3 v kvs k fs)
  with assms show ?thesis
    by (cases k) (auto simp: fits_def intro!: map_put_sorted map_put_all)
qed

lemma foldr_max_bound: "(\<forall>x \<in> set xs. x + m \<le> n) \<Longrightarrow> m \<le> n \<Longrightarrow> foldr max xs (0 :: nat) + m \<le> n"
  by (induction xs) auto

lemma closed_fits: "frames_ok (f # fs) \<Longrightarrow> fits (closed_frame f) fs \<and> frames_ok fs"
proof (cases f)
  case (FArray vs)
  assume "frames_ok (f # fs)"
  then show ?thesis
    using FArray foldr_max_bound [of "map json_depth vs" "Suc (length fs)" maxNestingDepth]
    by (auto simp: fits_def list_all_iff)
next
  case (FObject kvs k)
  assume "frames_ok (f # fs)"
  then show ?thesis
    using FObject foldr_max_bound [of "map (\<lambda>kv. json_depth (snd kv)) kvs" "Suc (length fs)" maxNestingDepth]
    by (auto simp: fits_def list_all_iff)
qed

definition token_ok :: "json_token \<Rightarrow> bool" where
  "token_ok t = (case t of TString s \<Rightarrow> ValidString s | TNumber n \<Rightarrow> valid_number n | _ \<Rightarrow> True)"

lemma lex_one_token_ok: "lex_one s = Some (t, n) \<Longrightarrow> token_ok t"
  using unquote_valid [OF scanned_literal] number_len_take
  by (auto simp: lex_one_def token_ok_def split: list.splits if_splits)

lemma frames_ok_length: "frames_ok fs \<Longrightarrow> length fs \<le> maxNestingDepth"
  by (cases fs rule: frames_ok.cases) auto

lemma build_token_ok:
  assumes "frames_ok fs" "token_ok t" "json_step t (x, map frame_is_object fs) = Some (x', st)"
  shows "case build_token x t fs of (Some w, _) \<Rightarrow> json_ok w | (None, fs') \<Rightarrow> frames_ok fs'"
proof (cases t)
  case (TDelim c)
  have "length fs < maxNestingDepth" if "c = CHR ''{'' \<or> c = CHR ''[''"
    using assms(3) that TDelim by (auto simp: json_step_def split: if_splits list.splits bool.splits)
  then show ?thesis
    using assms(1) closed_fits [of "hd fs" "tl fs"] deliver_ok [of "tl fs" "closed_frame (hd fs)"] TDelim
    by (cases fs) (auto split: prod.splits option.splits)
next
  case (TString s)
  have "frames_ok (name_key s fs)" if "ValidString s"
    using assms(1) that by (cases "(s, fs)" rule: name_key.cases) auto
  moreover have "fits (JString s) fs" if "ValidString s"
    using that frames_ok_length [OF assms(1)] by (simp add: fits_def)
  ultimately show ?thesis using assms(1,2) deliver_ok [of fs "JString s"] TString by (simp add: token_ok_def)
next
  case (TNumber n)
  have "fits (JNumber n) fs" using assms(2) frames_ok_length [OF assms(1)] TNumber by (simp add: fits_def token_ok_def)
  then show ?thesis using deliver_ok [OF assms(1), of "JNumber n"] TNumber by simp
next
  case (TBool b)
  have "fits (JBool b) fs" using frames_ok_length [OF assms(1)] by (simp add: fits_def)
  then show ?thesis using deliver_ok [OF assms(1), of "JBool b"] TBool by simp
next
  case TNull
  have "fits JNull fs" using frames_ok_length [OF assms(1)] by (simp add: fits_def)
  then show ?thesis using deliver_ok [OF assms(1), of JNull] TNull by simp
qed (use assms in simp_all)

lemma decode_value_ok: "decode_value x fs s = Some (v, rest) \<Longrightarrow> frames_ok fs \<Longrightarrow> json_ok v"
proof (induction x fs s rule: decode_value.induct)
  case (1 x fs s)
  show ?case
  proof (cases s)
    case Nil
    with "1.prems"(1) show ?thesis by (simp add: decode_value.simps [of x fs "[]"])
  next
    case (Cons c cs)
    show ?thesis
    proof (cases "is_json_space c")
      case True
      then have "decode_value x fs cs = Some (v, rest)"
        using "1.prems"(1) unfolding Cons by (subst (asm) decode_value.simps) simp
      then show ?thesis using "1.IH"(1) [OF Cons True] "1.prems"(2) by blast
    next
      case False
      note step = "1.prems"(1) [unfolded decode_value.simps [of x fs s]]
      obtain t n where one: "lex_one s = Some (t, n)" using step Cons False by (cases "lex_one s") auto
      have n: "n \<noteq> 0" using step Cons False one by (auto split: if_splits)
      obtain x' st where js: "json_step t (x, map frame_is_object fs) = Some (x', st)"
        using step Cons False one n by (cases "json_step t (x, map frame_is_object fs)") auto
      note ok = build_token_ok [OF "1.prems"(2) lex_one_token_ok [OF one] js]
      obtain r fs' where b: "build_token x t fs = (r, fs')" by fastforce
      show ?thesis
      proof (cases r)
        case None
        then have "decode_value x' fs' (drop n s) = Some (v, rest)"
          using step Cons False one n js b by simp
        moreover have "frames_ok fs'" using ok b None by simp
        ultimately show ?thesis
          using "1.IH"(2) [OF Cons False one refl n js refl b [unfolded None, symmetric] refl] by simp
      next
        case (Some w)
        then show ?thesis using step Cons False one n js b ok by simp
      qed
    qed
  qed
qed

lemma json_Decode_ok: "json_Decode s = Some v \<Longrightarrow> json_ok v"
  using decode_value_ok [of XValue "[]" s v] by (auto simp: json_Decode_def)

end
