(* ===== verification/Core_Types.thy ===== *)
theory Core_Types
  imports Prelude
begin

text \<open>
  \<open>internal/core/core.go\<close>: the gateway-neutral vocabulary. \<open>Surface\<close>, \<open>Trust\<close> and \<open>Action\<close> are
  Go string types with named constants, so any string is a value of them and only the constants
  are meaningful. Offsets are Go \<open>int\<close>s; a detector could report a negative one, so they are
  \<^typ>\<open>int\<close>.
\<close>

section \<open>Surfaces and trust\<close>

type_synonym surface = string

definition SurfaceToolDefinition :: surface where [go_consts]: "SurfaceToolDefinition = ''tool_definition''"
definition SurfaceInput :: surface where [go_consts]: "SurfaceInput = ''input''"
definition SurfaceToolCall :: surface where [go_consts]: "SurfaceToolCall = ''tool_call''"
definition SurfaceToolResult :: surface where [go_consts]: "SurfaceToolResult = ''tool_result''"
definition SurfaceOutput :: surface where [go_consts]: "SurfaceOutput = ''output''"

definition Surfaces :: "surface list" where
  "Surfaces = [SurfaceToolDefinition, SurfaceInput, SurfaceToolCall, SurfaceToolResult, SurfaceOutput]"

definition surface_Valid :: "surface \<Rightarrow> bool" where
  "surface_Valid s =
     (s = SurfaceToolDefinition \<or> s = SurfaceInput \<or> s = SurfaceToolCall \<or> s = SurfaceToolResult
      \<or> s = SurfaceOutput)"

type_synonym trust = string

definition TrustTrusted :: trust where [go_consts]: "TrustTrusted = ''trusted''"
definition TrustUntrusted :: trust where [go_consts]: "TrustUntrusted = ''untrusted''"

section \<open>Actions\<close>

type_synonym action = string

definition ActionAllow :: action where [go_consts]: "ActionAllow = ''allow''"
definition ActionFlag :: action where [go_consts]: "ActionFlag = ''flag''"
definition ActionRedact :: action where [go_consts]: "ActionRedact = ''redact''"
definition ActionBlock :: action where [go_consts]: "ActionBlock = ''block''"

definition Severity :: "action \<Rightarrow> int" where
  "Severity a =
     (if a = ActionAllow then 0 else if a = ActionFlag then 1 else if a = ActionRedact then 2
      else if a = ActionBlock then 3 else -1)"

fun most_severe_loop :: "action \<Rightarrow> action list \<Rightarrow> action" where
  "most_severe_loop worst [] = worst"
| "most_severe_loop worst (a # as) =
     most_severe_loop (if Severity a > Severity worst then a else worst) as"

definition MostSevere :: "action list \<Rightarrow> action" where
  "MostSevere actions = most_severe_loop ActionAllow actions"

section \<open>Spans, findings, parts\<close>

record span =
  span_part :: int
  span_start :: int
  span_end :: int

record finding =
  f_detector :: string
  f_type :: string
  f_span :: span
  f_score :: rat

record part =
  p_role :: string
  p_text :: string
  p_trust :: trust

record request =
  r_surface :: surface
  r_session :: string
  r_caller :: string
  r_source :: string
  r_parts :: "part list"

record verdict =
  v_action :: action
  v_findings :: "finding list"
  v_redactions :: "span list"
  v_taint_session :: bool
  v_policy_version :: string

text \<open>
  What the policy layer decides on, and what it decides (\<open>EvalInput\<close> and \<open>Decision\<close> of
  \<open>internal/core/pipeline.go\<close>).
\<close>

record eval_input =
  ei_request :: request
  ei_findings :: "finding list"
  ei_session_tainted :: bool
  ei_pin_changed :: bool

record decision =
  d_action :: action
  d_taint_session :: bool
  d_redactions :: "span list"
  d_policy_version :: string

text \<open>The zero value of a Go struct: what a struct literal leaves out.\<close>

definition zero_span :: span where
  "zero_span = \<lparr>span_part = 0, span_start = 0, span_end = 0\<rparr>"

definition zero_finding :: finding where
  "zero_finding = \<lparr>f_detector = [], f_type = [], f_span = zero_span, f_score = 0\<rparr>"

definition zero_request :: request where
  "zero_request = \<lparr>r_surface = [], r_session = [], r_caller = [], r_source = [], r_parts = []\<rparr>"

definition zero_verdict :: verdict where
  "zero_verdict = \<lparr>v_action = [], v_findings = [], v_redactions = [], v_taint_session = False,
     v_policy_version = []\<rparr>"

section \<open>Spans inside a payload\<close>

definition finding_within :: "int \<Rightarrow> finding \<Rightarrow> bool" where
  "finding_within n f = (0 \<le> span_start (f_span f) \<and> span_start (f_span f) \<le> span_end (f_span f) \<and> span_end (f_span f) \<le> n)"

text \<open>A span that lies inside the part it names.\<close>

definition span_in_parts :: "part list \<Rightarrow> span \<Rightarrow> bool" where
  "span_in_parts ps s =
     (0 \<le> span_part s \<and> span_part s < int (length ps) \<and> 0 \<le> span_start s \<and> span_start s \<le> span_end s
      \<and> span_end s \<le> int (length (p_text (ps ! nat (span_part s)))))"

section \<open>Facts\<close>

lemma Severity_simps [simp]:
  "Severity ActionAllow = 0" "Severity ActionFlag = 1" "Severity ActionRedact = 2"
  "Severity ActionBlock = 3"
  by (simp_all add: Severity_def go_consts)

lemma Severity_range: "-1 \<le> Severity a" "Severity a \<le> 3"
  by (simp_all add: Severity_def)

lemma Severity_inj: "0 \<le> Severity a \<Longrightarrow> Severity a = Severity b \<Longrightarrow> a = b"
  by (simp add: Severity_def split: if_splits)

lemma Severity_eq_iff [simp]:
  "Severity a = 3 \<longleftrightarrow> a = ActionBlock" "Severity a = 2 \<longleftrightarrow> a = ActionRedact"
  "Severity a = 1 \<longleftrightarrow> a = ActionFlag" "Severity a = 0 \<longleftrightarrow> a = ActionAllow"
  by (auto simp: Severity_def go_consts)

lemma action_neq [simp]:
  "ActionAllow \<noteq> ActionBlock" "ActionAllow \<noteq> ActionRedact" "ActionAllow \<noteq> ActionFlag"
  "ActionBlock \<noteq> ActionAllow" "ActionBlock \<noteq> ActionRedact" "ActionBlock \<noteq> ActionFlag"
  "ActionRedact \<noteq> ActionAllow" "ActionRedact \<noteq> ActionBlock" "ActionRedact \<noteq> ActionFlag"
  by (simp_all add: go_consts)

lemma most_severe_loop_Severity:
  "Severity (most_severe_loop w as) = Max (insert (Severity w) (Severity ` set as))"
proof (induction as arbitrary: w)
  case (Cons a as)
  show ?case
    by (cases "as = []") (auto simp: Cons.IH insert_commute max_def Max_insert2)
qed simp

text \<open>\<open>MostSevere\<close> is the maximum by severity, never below \<open>allow\<close>, and depends only on which
  actions occur.\<close>

lemma MostSevere_Severity: "Severity (MostSevere as) = Max (insert 0 (Severity ` set as))"
  by (simp add: MostSevere_def most_severe_loop_Severity)

lemma MostSevere_nonneg: "0 \<le> Severity (MostSevere as)"
  by (simp add: MostSevere_Severity)

lemma MostSevere_eqI: "Severity (MostSevere as) = Severity (MostSevere bs) \<Longrightarrow> MostSevere as = MostSevere bs"
  using MostSevere_nonneg Severity_inj by blast

lemma MostSevere_upper: "a \<in> set as \<Longrightarrow> Severity a \<le> Severity (MostSevere as)"
  by (simp add: MostSevere_Severity)

lemma MostSevere_mono: "set as \<subseteq> set bs \<Longrightarrow> Severity (MostSevere as) \<le> Severity (MostSevere bs)"
  by (auto simp: MostSevere_Severity intro!: Max_mono)

lemma MostSevere_attained: "MostSevere as = ActionAllow \<or> MostSevere as \<in> set as"
proof -
  have "Severity (MostSevere as) \<in> insert 0 (Severity ` set as)"
    unfolding MostSevere_Severity by (rule Max_in) auto
  then consider "Severity (MostSevere as) = 0"
    | a where "a \<in> set as" "Severity (MostSevere as) = Severity a" by auto
  then show ?thesis
  proof cases
    case 2
    then show ?thesis using Severity_inj [OF MostSevere_nonneg] by metis
  qed simp
qed

lemma MostSevere_Block_iff: "MostSevere as = ActionBlock \<longleftrightarrow> ActionBlock \<in> set as"
proof
  show "MostSevere as = ActionBlock \<Longrightarrow> ActionBlock \<in> set as"
    using MostSevere_attained [of as] by auto
  assume "ActionBlock \<in> set as"
  then have "3 \<le> Severity (MostSevere as)" using MostSevere_upper by fastforce
  then show "MostSevere as = ActionBlock" using Severity_range(2) [of "MostSevere as"] by (metis Severity_eq_iff(1) order_antisym)
qed

end
