(* ===== verification/Spans.thy ===== *)
theory Spans
  imports Core_Types
begin

text \<open>
  \<open>MergeSpans\<close> of \<open>internal/core/offset.go\<close>. The comparator of its \<open>sort.Slice\<close> call is the
  linear order of spans: part, then start, then end. Spans the comparator does not separate are
  equal, so the unstable \<open>sort.Slice\<close> and the library's \<^const>\<open>sort\<close> return the same list.
\<close>

section \<open>The comparator\<close>

instantiation span_ext :: (linorder) linorder
begin

definition less_eq_span_ext :: "'a span_scheme \<Rightarrow> 'a span_scheme \<Rightarrow> bool" where
  "less_eq_span_ext a b =
     (if span_part a \<noteq> span_part b then span_part a < span_part b
      else if span_start a \<noteq> span_start b then span_start a < span_start b
      else if span_end a \<noteq> span_end b then span_end a < span_end b
      else span.more a \<le> span.more b)"

definition less_span_ext :: "'a span_scheme \<Rightarrow> 'a span_scheme \<Rightarrow> bool" where
  "less_span_ext a b =
     (if span_part a \<noteq> span_part b then span_part a < span_part b
      else if span_start a \<noteq> span_start b then span_start a < span_start b
      else if span_end a \<noteq> span_end b then span_end a < span_end b
      else span.more a < span.more b)"

instance
proof
  fix x y z :: "'a span_scheme"
  show "x < y \<longleftrightarrow> x \<le> y \<and> \<not> y \<le> x"
    by (auto simp: less_span_ext_def less_eq_span_ext_def)
  show "x \<le> x" by (simp add: less_eq_span_ext_def)
  show "x \<le> y \<Longrightarrow> y \<le> z \<Longrightarrow> x \<le> z"
    by (auto simp: less_eq_span_ext_def split: if_splits)
  show "x \<le> y \<Longrightarrow> y \<le> x \<Longrightarrow> x = y"
    by (auto simp: less_eq_span_ext_def split: if_splits)
  show "x \<le> y \<or> y \<le> x" by (auto simp: less_eq_span_ext_def)
qed

end

text \<open>On plain spans this is the function literal of \<open>offset.go\<close>.\<close>

definition span_less :: "span \<Rightarrow> span \<Rightarrow> bool" where
  "span_less a b =
     (if span_part a \<noteq> span_part b then span_part a < span_part b
      else if span_start a \<noteq> span_start b then span_start a < span_start b
      else span_end a < span_end b)"

lemma span_less_iff: "span_less a b \<longleftrightarrow> a < b"
  by (simp add: span_less_def less_span_ext_def)

section \<open>Merging\<close>

text \<open>The loop over the sorted spans; \<open>cur\<close> is the last span of \<open>merged\<close>.\<close>

fun merge_loop :: "span \<Rightarrow> span list \<Rightarrow> span list" where
  "merge_loop cur [] = [cur]"
| "merge_loop cur (s # ss) =
     (if span_part s = span_part cur \<and> span_start s \<le> span_end cur then
        merge_loop (if span_end s > span_end cur then cur\<lparr>span_end := span_end s\<rparr> else cur) ss
      else cur # merge_loop s ss)"

definition MergeSpans :: "span list \<Rightarrow> span list" where
  "MergeSpans spans =
     (if length spans = 0 then []
      else case sort spans of [] \<Rightarrow> [] | s # ss \<Rightarrow> merge_loop s ss)"

section \<open>What a set of spans covers\<close>

definition covers :: "span list \<Rightarrow> int \<Rightarrow> int \<Rightarrow> bool" where
  "covers ss k x = (\<exists>s \<in> set ss. span_part s = k \<and> span_start s \<le> x \<and> x < span_end s)"

definition valid_span :: "span \<Rightarrow> bool" where
  "valid_span s = (span_start s \<le> span_end s)"

text \<open>Later spans of the same part start strictly after the end of earlier ones.\<close>

definition apart :: "span \<Rightarrow> span \<Rightarrow> bool" where
  "apart s t = (span_part s < span_part t \<or> (span_part s = span_part t \<and> span_end s < span_start t))"

definition separated :: "span list \<Rightarrow> bool" where
  "separated ss = sorted_wrt apart ss"

definition starts_by :: "span \<Rightarrow> span \<Rightarrow> bool" where
  "starts_by s t = (span_part s < span_part t \<or> (span_part s = span_part t \<and> span_start s \<le> span_start t))"

lemma span_le_starts_by: "s \<le> t \<Longrightarrow> starts_by s t"
  by (auto simp: less_eq_span_ext_def starts_by_def split: if_splits)

lemma sorted_starts_by: "sorted ss \<Longrightarrow> sorted_wrt starts_by ss"
  using sorted_wrt_mono_rel [of ss "(\<le>)" starts_by] span_le_starts_by by simp

lemma starts_by_trans: "starts_by s t \<Longrightarrow> starts_by t u \<Longrightarrow> starts_by s u"
  by (auto simp: starts_by_def)

lemma starts_by_end [simp]:
  "starts_by (s\<lparr>span_end := e\<rparr>) t = starts_by s t" "starts_by s (t\<lparr>span_end := e\<rparr>) = starts_by s t"
  by (simp_all add: starts_by_def)

lemma covers_Cons: "covers (s # ss) k x = ((span_part s = k \<and> span_start s \<le> x \<and> x < span_end s) \<or> covers ss k x)"
  by (simp add: covers_def)

lemma covers_set: "set ss = set ts \<Longrightarrow> covers ss = covers ts"
  by (auto simp: covers_def fun_eq_iff)

lemma merge_loop_starts:
  "sorted_wrt starts_by (cur # ss) \<Longrightarrow> t \<in> set (merge_loop cur ss) \<Longrightarrow> starts_by cur t"
proof (induction cur ss rule: merge_loop.induct)
  case (1 cur)
  then show ?case by (simp add: starts_by_def)
next
  case (2 cur s ss)
  show ?case
  proof (cases "span_part s = span_part cur \<and> span_start s \<le> span_end cur")
    case True
    then show ?thesis using "2.IH"(1) [OF True] "2.prems" by (auto split: if_splits)
  next
    case False
    have "t = cur \<or> starts_by s t"
      using "2.IH"(2) [OF False] "2.prems" False by auto
    then show ?thesis using "2.prems"(1) by (auto intro: starts_by_trans simp: starts_by_def)
  qed
qed

lemma merge_loop_separated:
  "sorted_wrt starts_by (cur # ss) \<Longrightarrow> separated (merge_loop cur ss)"
proof (induction cur ss rule: merge_loop.induct)
  case (2 cur s ss)
  show ?case
  proof (cases "span_part s = span_part cur \<and> span_start s \<le> span_end cur")
    case True
    then show ?thesis using "2.IH"(1) [OF True] "2.prems" by (auto split: if_splits)
  next
    case False
    have srt: "sorted_wrt starts_by (s # ss)" "starts_by cur s" using "2.prems" by auto
    have "apart cur t" if "t \<in> set (merge_loop s ss)" for t
      using merge_loop_starts [OF srt(1) that] srt(2) False by (auto simp: starts_by_def apart_def)
    moreover have "merge_loop cur (s # ss) = cur # merge_loop s ss" using False by auto
    ultimately show ?thesis using "2.IH"(2) [OF False srt(1)] by (simp add: separated_def)
  qed
qed (simp add: separated_def)

lemma merge_loop_covers:
  "sorted_wrt starts_by (cur # ss) \<Longrightarrow> covers (merge_loop cur ss) k x = covers (cur # ss) k x"
proof (induction cur ss rule: merge_loop.induct)
  case (2 cur s ss)
  show ?case
  proof (cases "span_part s = span_part cur \<and> span_start s \<le> span_end cur")
    case True
    have "starts_by cur s" using "2.prems" by simp
    then show ?thesis
      using "2.IH"(1) [OF True] "2.prems" True by (auto simp: covers_Cons starts_by_def split: if_splits)
  next
    case False
    then show ?thesis using "2.IH"(2) [OF False] "2.prems" by (auto simp: covers_Cons)
  qed
qed simp

text \<open>A property of single spans that extending the end keeps survives merging.\<close>

lemma merge_loop_all:
  assumes step: "\<And>s t. Q s \<Longrightarrow> Q t \<Longrightarrow> span_part t = span_part s \<Longrightarrow> span_end s < span_end t \<Longrightarrow> Q (s\<lparr>span_end := span_end t\<rparr>)"
    and "Q cur" "\<forall>s \<in> set ss. Q s"
  shows "\<forall>s \<in> set (merge_loop cur ss). Q s"
  using assms(2,3)
proof (induction cur ss rule: merge_loop.induct)
  case (2 cur s ss)
  show ?case
  proof (cases "span_part s = span_part cur \<and> span_start s \<le> span_end cur")
    case True
    have "Q (if span_end s > span_end cur then cur\<lparr>span_end := span_end s\<rparr> else cur)"
      using True "2.prems" step [of cur s] by simp
    then show ?thesis using "2.IH"(1) [OF True] "2.prems" True by simp
  next
    case False
    have "merge_loop cur (s # ss) = cur # merge_loop s ss" using False by auto
    then show ?thesis using "2.IH"(2) [OF False] "2.prems" by simp
  qed
qed simp

lemma MergeSpans_Nil [simp]: "MergeSpans [] = []"
  by (simp add: MergeSpans_def)

lemma MergeSpans_eq:
  assumes "ss \<noteq> []"
  obtains c cs where "sort ss = c # cs" "MergeSpans ss = merge_loop c cs" "sorted_wrt starts_by (c # cs)"
    "set (c # cs) = set ss"
proof -
  obtain c cs where c: "sort ss = c # cs" using assms by (cases "sort ss") (auto dest: arg_cong [where f = set])
  have "sorted (c # cs)" using c by (metis sorted_sort_key list.map_ident)
  then have srt: "sorted_wrt starts_by (c # cs)" by (rule sorted_starts_by)
  have "set (c # cs) = set ss" using c by (metis set_sort)
  moreover have "MergeSpans ss = merge_loop c cs" using c assms by (simp add: MergeSpans_def)
  ultimately show thesis using c srt by (intro that)
qed

lemma MergeSpans_separated: "separated (MergeSpans ss)"
proof (cases "ss = []")
  case False
  obtain c cs where "MergeSpans ss = merge_loop c cs" "sorted_wrt starts_by (c # cs)"
    by (rule MergeSpans_eq [OF False])
  then show ?thesis using merge_loop_separated by simp
qed (simp add: separated_def)

lemma MergeSpans_covers: "covers (MergeSpans ss) k x = covers ss k x"
proof (cases "ss = []")
  case False
  obtain c cs where "MergeSpans ss = merge_loop c cs" "sorted_wrt starts_by (c # cs)" "set (c # cs) = set ss"
    by (rule MergeSpans_eq [OF False])
  then show ?thesis using merge_loop_covers [of c cs k x] covers_set [of "c # cs" ss] by simp
qed simp

lemma MergeSpans_all:
  assumes "\<And>s t. Q s \<Longrightarrow> Q t \<Longrightarrow> span_part t = span_part s \<Longrightarrow> span_end s < span_end t \<Longrightarrow> Q (s\<lparr>span_end := span_end t\<rparr>)"
    and "\<forall>s \<in> set ss. Q s"
  shows "\<forall>s \<in> set (MergeSpans ss). Q s"
proof (cases "ss = []")
  case False
  obtain c cs where c: "MergeSpans ss = merge_loop c cs" "set (c # cs) = set ss"
    by (rule MergeSpans_eq [OF False])
  then have "Q c" "\<forall>s \<in> set cs. Q s" using assms(2) by auto
  then show ?thesis unfolding c(1) using merge_loop_all [of Q c cs] assms(1) by blast
qed simp

lemma MergeSpans_valid: "\<forall>s \<in> set ss. valid_span s \<Longrightarrow> \<forall>s \<in> set (MergeSpans ss). valid_span s"
  by (rule MergeSpans_all) (auto simp: valid_span_def)

text \<open>Merging merged spans changes nothing.\<close>

lemma apart_le: "apart s t \<Longrightarrow> valid_span s \<Longrightarrow> s \<le> (t :: span)"
  by (auto simp: apart_def valid_span_def less_eq_span_ext_def)

lemma merge_loop_separated_id: "separated (cur # ss) \<Longrightarrow> merge_loop cur ss = cur # ss"
proof (induction ss arbitrary: cur)
  case (Cons s ss)
  have "apart cur s" "separated (s # ss)" using Cons.prems by (simp_all add: separated_def)
  moreover from \<open>apart cur s\<close> have "\<not> (span_part s = span_part cur \<and> span_start s \<le> span_end cur)"
    by (auto simp: apart_def)
  ultimately show ?case using Cons.IH by auto
qed simp

lemma MergeSpans_id:
  assumes "separated ss" "\<forall>s \<in> set ss. valid_span s"
  shows "MergeSpans ss = ss"
proof (cases ss)
  case (Cons c cs)
  have "sorted ss"
    using assms(1) unfolding separated_def
    by (rule sorted_wrt_mono_rel [rotated]) (use assms(2) apart_le in auto)
  then have "sort ss = ss" by (rule sorted_sort_id)
  with Cons show ?thesis using merge_loop_separated_id assms(1) by (simp add: MergeSpans_def)
qed simp

text \<open>The result depends on the set of spans only, not on the order the detectors report them in.\<close>

lemma MergeSpans_permutation: "mset ss = mset ts \<Longrightarrow> MergeSpans ss = MergeSpans ts"
proof -
  assume eq: "mset ss = mset ts"
  then have "sort ss = sort ts" by (intro properties_for_sort) simp_all
  moreover have "length ss = length ts" using eq by (metis size_mset)
  ultimately show ?thesis by (simp add: MergeSpans_def)
qed

lemma MergeSpans_eq_Nil_iff: "MergeSpans ss = [] \<longleftrightarrow> ss = []"
proof
  assume "MergeSpans ss = []"
  then show "ss = []"
  proof (rule contrapos_pp)
    assume "ss \<noteq> []"
    then obtain c cs where m: "MergeSpans ss = merge_loop c cs" by (rule MergeSpans_eq)
    have "merge_loop c cs \<noteq> []" by (induction c cs rule: merge_loop.induct) auto
    with m show "MergeSpans ss \<noteq> []" by simp
  qed
qed simp

section \<open>Properties\<close>

text \<open>C27: merging a set of spans covers exactly the bytes the spans cover, with spans that are in order
  and strictly apart, and merging again changes nothing.\<close>

theorem merge_spans_correct:
  assumes "\<forall>s \<in> set ss. valid_span s"
  shows "separated (MergeSpans ss) \<and> (\<forall>s \<in> set (MergeSpans ss). valid_span s)
    \<and> covers (MergeSpans ss) = covers ss \<and> MergeSpans (MergeSpans ss) = MergeSpans ss"
  using MergeSpans_separated [of ss] MergeSpans_valid [OF assms] MergeSpans_id [of "MergeSpans ss"]
  by (simp add: fun_eq_iff MergeSpans_covers)

definition sample_span :: "int \<Rightarrow> int \<Rightarrow> span" where
  "sample_span i j = \<lparr>span_part = 0, span_start = i, span_end = j\<rparr>"

theorem merge_spans_correct_witness:
  "covers (MergeSpans [sample_span 4 9, sample_span 0 4, sample_span 12 15])
     = covers [sample_span 4 9, sample_span 0 4, sample_span 12 15]
   \<and> separated (MergeSpans [sample_span 4 9, sample_span 0 4, sample_span 12 15])"
  using merge_spans_correct [of "[sample_span 4 9, sample_span 0 4, sample_span 12 15]"]
  by (simp add: sample_span_def valid_span_def)

end
