(* ===== verification/Json_Text.thy ===== *)
theory Json_Text
  imports Json_Roundtrip Spans
begin

text \<open>
  \<open>internal/adapters/agentgateway/jsontext.go\<close>: a payload is decoded into generic values, its text
  fields become the parts of a request, and a redaction is written back into the fields. In Go a
  field holds a closure that assigns into the map or slice it came from; here it holds the path of
  that place in the value, and the assignment is \<open>set_at\<close>. Values that come from JSON share no
  structure, so the two agree.
\<close>

section \<open>Fields\<close>

definition replacement :: string where
  "replacement = ''[REDACTED]''"

datatype path_step = Key string | Index nat

record text_field =
  tf_text :: string
  tf_path :: "path_step list"

fun set_at :: "path_step list \<Rightarrow> string \<Rightarrow> json \<Rightarrow> json" where
  "set_at [] n v = JString n"
| "set_at (Key k # p) n (JObject kvs) = JObject (map (\<lambda>(k', v). (k', if k' = k then set_at p n v else v)) kvs)"
| "set_at (Index i # p) n (JArray vs) = (if i < length vs then JArray (vs[i := set_at p n (vs ! i)]) else JArray vs)"
| "set_at (s # p) n v = v"

fun get_at :: "path_step list \<Rightarrow> json \<Rightarrow> json option" where
  "get_at [] v = Some v"
| "get_at (Key k # p) (JObject kvs) = (case map_of kvs k of Some v \<Rightarrow> get_at p v | None \<Rightarrow> None)"
| "get_at (Index i # p) (JArray vs) = (if i < length vs then get_at p (vs ! i) else None)"
| "get_at (s # p) v = None"

definition under :: "path_step \<Rightarrow> text_field \<Rightarrow> text_field" where
  "under s f = f\<lparr>tf_path := s # tf_path f\<rparr>"

definition field_here :: "path_step \<Rightarrow> string \<Rightarrow> text_field" where
  "field_here s t = \<lparr>tf_text = t, tf_path = [s]\<rparr>"

section \<open>Decoding and encoding\<close>

text \<open>The text of a decoding error is left out.\<close>

definition decodeJSON :: "string \<Rightarrow> json result" where
  "decodeJSON b = (case json_Decode b of None \<Rightarrow> Inl (ErrorText ''json'') | Some v \<Rightarrow> Inr v)"

definition encodeJSON :: "json \<Rightarrow> string result" where
  "encodeJSON v = (case json_Encode v of None \<Rightarrow> Inl (ErrorText ''json'') | Some e \<Rightarrow> Inr e)"

section \<open>The text fields of a value\<close>

text \<open>
  Object keys are visited in sorted order. The fields of the value under a step are those of the
  value, one step deeper.
\<close>

lemma entry_size: "(k, v) \<in> set kvs \<Longrightarrow> size v < Suc (size_list (size_prod (\<lambda>_. 0) size) kvs)"
  by (induction kvs) auto

lemma element_size: "v \<in> set vs \<Longrightarrow> size v < Suc (size_list size vs)"
  by (induction vs) auto

function stringLeaves :: "json \<Rightarrow> text_field list" where
  "stringLeaves v =
     (case v of
        JObject kvs \<Rightarrow>
          concat (map (\<lambda>kv. case snd kv of
              JString s \<Rightarrow> [field_here (Key (fst kv)) s]
            | w \<Rightarrow> map (under (Key (fst kv))) (stringLeaves w)) (sort_key fst kvs))
      | JArray vs \<Rightarrow>
          concat (map (\<lambda>iv. case snd iv of
              JString s \<Rightarrow> [field_here (Index (fst iv)) s]
            | w \<Rightarrow> map (under (Index (fst iv))) (stringLeaves w)) (zip [0..<length vs] vs))
      | _ \<Rightarrow> [])"
  by pat_completeness auto
termination
  by (relation "measure size") (auto dest!: set_zip_rightD dest: entry_size element_size)

declare stringLeaves.simps [simp del]

text \<open>Values under these keys are no prose: identifiers, enums, media and signed blobs.\<close>

definition opaqueKeys :: "string list" where
  "opaqueKeys = [''id'', ''object'', ''type'', ''role'', ''model'',
     ''status'', ''finish_reason'', ''stop_reason'', ''finishReason'',
     ''system_fingerprint'', ''service_tier'', ''encoding_format'',
     ''tool_call_id'', ''tool_use_id'', ''call_id'', ''file_id'',
     ''response_id'', ''previous_response_id'',
     ''data'', ''b64_json'', ''media_type'', ''mime_type'', ''mimeType'',
     ''signature'', ''thoughtSignature'', ''encrypted_content'']"

definition isText :: "string \<Rightarrow> bool" where
  "isText s = (s \<noteq> [] \<and> \<not> has_prefix s ''data:'')"

function textLeaves :: "json \<Rightarrow> text_field list" where
  "textLeaves v =
     (case v of
        JObject kvs \<Rightarrow>
          concat (map (\<lambda>kv.
            if fst kv \<in> set opaqueKeys then []
            else case snd kv of
              JString s \<Rightarrow> (if isText s then [field_here (Key (fst kv)) s] else [])
            | w \<Rightarrow> map (under (Key (fst kv))) (textLeaves w)) (sort_key fst kvs))
      | JArray vs \<Rightarrow>
          concat (map (\<lambda>iv. case snd iv of
              JString s \<Rightarrow> (if isText s then [field_here (Index (fst iv)) s] else [])
            | w \<Rightarrow> map (under (Index (fst iv))) (textLeaves w)) (zip [0..<length vs] vs))
      | _ \<Rightarrow> [])"
  by pat_completeness auto
termination
  by (relation "measure size") (auto dest!: set_zip_rightD dest: entry_size element_size)

declare textLeaves.simps [simp del]

definition stringField :: "(string \<times> json) list \<Rightarrow> string \<Rightarrow> text_field option" where
  "stringField m key = (case map_of m key of Some (JString s) \<Rightarrow> Some (field_here (Key key) s) | _ \<Rightarrow> None)"

definition parts :: "text_field list \<Rightarrow> string \<Rightarrow> trust \<Rightarrow> part list" where
  "parts flds role tr = map (\<lambda>f. \<lparr>p_role = role, p_text = tf_text f, p_trust = tr\<rparr>) flds"

section \<open>Redaction\<close>

definition clamp :: "int \<Rightarrow> int \<Rightarrow> int" where
  "clamp n limit = min (max n 0) limit"

text \<open>
  The loop over the spans from the last to the first, each applied to the text as it is by then.
  The slices never panic, since the bounds are clamped to the text.
\<close>

fun redact_loop :: "string \<Rightarrow> span list \<Rightarrow> string" where
  "redact_loop body [] = body"
| "redact_loop body (s # ss) =
     (let start = clamp (span_start s) (int (length body)); stop = clamp (span_end s) (int (length body)) in
      if stop \<le> start then redact_loop body ss
      else redact_loop (take (nat start) body @ replacement @ drop (nat stop) body) ss)"

definition redact :: "string \<Rightarrow> span list \<Rightarrow> string" where
  "redact body spans = redact_loop body (sort_key (\<lambda>s. - span_start s) spans)"

text \<open>
  The spans by part, and the assignment to each part's field. The parts are taken in ascending
  order; Go takes them in the order of a map, and the fields are different places
  (\<open>set_at_commute\<close>).
\<close>

definition spans_of_part :: "nat \<Rightarrow> nat \<Rightarrow> span list \<Rightarrow> span list" where
  "spans_of_part n i spans = filter (\<lambda>s. span_part s \<ge> 0 \<and> span_part s < int n \<and> span_part s = int i) spans"

fun apply_redactions :: "text_field list \<Rightarrow> span list \<Rightarrow> nat list \<Rightarrow> json \<Rightarrow> json" where
  "apply_redactions flds spans [] v = v"
| "apply_redactions flds spans (i # is) v =
     (let ss = spans_of_part (length flds) i spans; f = flds ! i in
      apply_redactions flds spans is (if ss = [] then v else set_at (tf_path f) (redact (tf_text f) ss) v))"

definition redactFields :: "text_field list \<Rightarrow> span list \<Rightarrow> json \<Rightarrow> bool \<times> json" where
  "redactFields flds spans v =
     (\<exists>s \<in> set spans. span_part s \<ge> 0 \<and> span_part s < int (length flds),
      apply_redactions flds spans [0..<length flds] v)"

end
