(* ===== verification/Wire.thy ===== *)
theory Wire
  imports Json_Text
begin

text \<open>
  What the two adapters of \<open>internal/adapters/agentgateway\<close> share: the inspector they call, the
  session identity (\<open>mcp.go\<close>), and the type assertions on generic JSON values. An inspector
  runs on a state: the session store, the audit log and the clock behind it.
\<close>

type_synonym 's inspector = "request \<Rightarrow> 's \<Rightarrow> verdict result \<times> 's"

section \<open>Type assertions\<close>

text \<open>
  \<open>m, _ := v.(map[string]any)\<close> is the nil map when \<open>v\<close> is no object, and reading a key a map does
  not have gives nil, as JSON's \<open>null\<close> does.
\<close>

definition as_object :: "json \<Rightarrow> (string \<times> json) list" where
  "as_object v = (case v of JObject kvs \<Rightarrow> kvs | _ \<Rightarrow> [])"

definition as_array :: "json \<Rightarrow> json list" where
  "as_array v = (case v of JArray vs \<Rightarrow> vs | _ \<Rightarrow> [])"

definition as_string :: "json \<Rightarrow> string" where
  "as_string v = (case v of JString s \<Rightarrow> s | _ \<Rightarrow> [])"

definition value_at :: "(string \<times> json) list \<Rightarrow> string \<Rightarrow> json" where
  "value_at m k = (case map_of m k of Some v \<Rightarrow> v | None \<Rightarrow> JNull)"

text \<open>A field that may be there.\<close>

definition field_list :: "text_field option \<Rightarrow> text_field list" where
  "field_list f = (case f of Some f \<Rightarrow> [f] | None \<Rightarrow> [])"

section \<open>Package strings\<close>

fun split_on :: "char \<Rightarrow> string \<Rightarrow> string list" where
  "split_on sep [] = [[]]"
| "split_on sep (c # cs) =
     (if c = sep then [] # split_on sep cs
      else case split_on sep cs of p # ps \<Rightarrow> (c # p) # ps | [] \<Rightarrow> [[c]])"

text \<open>
  \<open>strings.EqualFold\<close> against an ASCII string: ASCII letters in both cases, and the two runes outside
  ASCII that fold to a letter, the Kelvin sign and the long s.
\<close>

definition fold_rune :: "nat \<Rightarrow> nat" where
  "fold_rune r = (if 65 \<le> r \<and> r \<le> 90 then r + 32 else if r = 0x212A then 107 else if r = 0x17F then 115 else r)"

definition EqualFold :: "string \<Rightarrow> string \<Rightarrow> bool" where
  "EqualFold s ascii = (map (\<lambda>(i, r). fold_rune r) (runes s) = map (\<lambda>c. fold_rune (byte_of c)) ascii)"

lemma runes_from_ascii: "list_all (\<lambda>c. byte_of c < 0x80) s \<Longrightarrow> map snd (runes_from i s) = map byte_of s"
proof (induction s arbitrary: i)
  case (Cons c cs)
  then show ?case by (simp add: runes_from.simps [of i "c # cs"] DecodeRune_ascii)
qed (simp add: runes_from.simps)

lemma EqualFold_ascii:
  assumes "list_all (\<lambda>c. byte_of c < 0x80) s"
  shows "EqualFold s a = (map (\<lambda>c. fold_rune (byte_of c)) s = map (\<lambda>c. fold_rune (byte_of c)) a)"
proof -
  have "map (\<lambda>(i, r). fold_rune r) (runes s) = map fold_rune (map snd (runes_from 0 s))"
    by (simp add: runes_def split_beta comp_def)
  then show ?thesis by (simp add: EqualFold_def runes_from_ascii [OF assms] comp_def)
qed

section \<open>Session identity\<close>

definition traceID :: "string \<Rightarrow> string" where
  "traceID traceparent =
     (let ps = split_on CHR ''-'' traceparent in
      if length ps \<noteq> 4 \<or> length (ps ! 1) \<noteq> 32 then [] else ps ! 1)"

definition sessionFrom :: "(string \<Rightarrow> string) \<Rightarrow> string" where
  "sessionFrom header =
     (if header ''x-session-id'' \<noteq> [] then header ''x-session-id''
      else if header ''mcp-session-id'' \<noteq> [] then header ''mcp-session-id''
      else traceID (header ''traceparent''))"

end
