(* ===== verification/Mcp.thy ===== *)
theory Mcp
  imports Wire
begin

text \<open>
  \<open>internal/adapters/agentgateway/mcp.go\<close>: the ExtMcp server. The messages of the generated package
  are records of the fields the code reads and a datatype of the results it builds. A gRPC status
  keeps its code and the text in front of the wrapped error.
\<close>

section \<open>Messages\<close>

datatype grpc_code = InvalidArgument | Internal

datatype rpc_error = Status grpc_code string

datatype pb_value = StringValue string | OtherValue

type_synonym metadata = "(string \<times> pb_value) list option"

record mcp_header =
  mh_key :: string
  mh_value :: string

record mcp_request =
  mq_method :: string
  mq_params :: string
  mq_metadata :: metadata
  mq_headers :: "mcp_header list"

record mcp_response =
  mr_method :: string
  mr_result :: string
  mr_metadata :: metadata
  mr_services :: "string list"

datatype mcp_reply = Pass | PermissionDenied string | Mutated string

definition methodToolsList :: string where "methodToolsList = ''tools/list''"
definition methodToolsCall :: string where "methodToolsCall = ''tools/call''"
definition methodResourcesRead :: string where "methodResourcesRead = ''resources/read''"

lemmas mcp_methods = methodToolsList_def methodToolsCall_def methodResourcesRead_def

definition blockedReason :: string where
  "blockedReason = ''blocked by ai_security policy''"

definition denied :: mcp_reply where
  "denied = PermissionDenied blockedReason"

section \<open>Sessions and names\<close>

definition metadataString :: "metadata \<Rightarrow> string \<Rightarrow> string" where
  "metadataString md key =
     (case md of
        None \<Rightarrow> []
      | Some flds \<Rightarrow> (case map_of flds key of Some (StringValue s) \<Rightarrow> s | _ \<Rightarrow> []))"

definition responseSession :: "metadata \<Rightarrow> string" where
  "responseSession md =
     (if metadataString md ''session'' \<noteq> [] then metadataString md ''session''
      else metadataString md ''mcp_session'')"

fun header_value :: "mcp_header list \<Rightarrow> string \<Rightarrow> string" where
  "header_value [] key = []"
| "header_value (h # hs) key = (if EqualFold (mh_key h) key then mh_value h else header_value hs key)"

definition requestSession :: "metadata \<Rightarrow> mcp_header list \<Rightarrow> string" where
  "requestSession md headers =
     (if metadataString md ''session'' \<noteq> [] then metadataString md ''session''
      else sessionFrom (header_value headers))"

fun native_loop :: "string \<Rightarrow> string list \<Rightarrow> string" where
  "native_loop name [] = name"
| "native_loop name (s # ss) =
     (case cut_prefix name (s @ ''_'') of Some rest \<Rightarrow> rest | None \<Rightarrow> native_loop name ss)"

definition nativeToolName :: "string \<Rightarrow> string list \<Rightarrow> string" where
  "nativeToolName name services = (if length services < 2 then name else native_loop name services)"

section \<open>Requests\<close>

definition call_fields :: "(string \<times> json) list \<Rightarrow> text_field list" where
  "call_fields params = map (under (Key ''arguments'')) (stringLeaves (value_at params ''arguments''))"

definition call_request :: "mcp_request \<Rightarrow> (string \<times> json) list \<Rightarrow> request" where
  "call_request r params =
     zero_request\<lparr>r_surface := SurfaceToolCall, r_session := requestSession (mq_metadata r) (mq_headers r),
       r_source := as_string (value_at params ''name''), r_parts := parts (call_fields params) ''tool'' TrustTrusted\<rparr>"

definition CheckRequest :: "'s inspector \<Rightarrow> mcp_request \<Rightarrow> 's \<Rightarrow> (rpc_error + mcp_reply) \<times> 's" where
  "CheckRequest inspect r \<sigma> =
     (if mq_method r \<noteq> methodToolsCall \<or> length (mq_params r) = 0 then (Inr Pass, \<sigma>)
      else case decodeJSON (mq_params r) of
        Inl err \<Rightarrow> (Inl (Status InvalidArgument ''tools/call params''), \<sigma>)
      | Inr v \<Rightarrow>
          let params = as_object v; flds = call_fields params in
          case inspect (call_request r params) \<sigma> of
            (Inl err, \<sigma>) \<Rightarrow> (Inl (Status Internal ''inspect''), \<sigma>)
          | (Inr verdict, \<sigma>) \<Rightarrow>
              if v_action verdict = ActionBlock then (Inr denied, \<sigma>)
              else if v_action verdict = ActionRedact then
                (let (changed, v') = redactFields flds (v_redactions verdict) (JObject params) in
                 if \<not> changed then (Inr Pass, \<sigma>)
                 else case encodeJSON v' of
                   Inl err \<Rightarrow> (Inl (Status Internal ''encode params''), \<sigma>)
                 | Inr b \<Rightarrow> (Inr (Mutated b), \<sigma>))
              else (Inr Pass, \<sigma>))"

section \<open>Tool lists\<close>

definition definition_request :: "string \<Rightarrow> string list \<Rightarrow> json \<Rightarrow> request" where
  "definition_request sess services tool =
     zero_request\<lparr>r_surface := SurfaceToolDefinition, r_session := sess,
       r_source := nativeToolName (as_string (value_at (as_object tool) ''name'')) services,
       r_parts := parts (stringLeaves tool) ''tool'' TrustUntrusted\<rparr>"

definition is_map :: "json \<Rightarrow> bool" where
  "is_map v = (case v of JObject kvs \<Rightarrow> True | _ \<Rightarrow> False)"

fun tools_loop ::
  "'s inspector \<Rightarrow> string \<Rightarrow> string list \<Rightarrow> json list \<Rightarrow> json list \<Rightarrow> bool \<Rightarrow> 's \<Rightarrow> (rpc_error + json list \<times> bool) \<times> 's" where
  "tools_loop inspect sess services [] kept changed \<sigma> = (Inr (kept, changed), \<sigma>)"
| "tools_loop inspect sess services (t # ts) kept changed \<sigma> =
     (if \<not> is_map t then tools_loop inspect sess services ts (kept @ [t]) changed \<sigma>
      else case inspect (definition_request sess services t) \<sigma> of
        (Inl err, \<sigma>) \<Rightarrow> (Inl (Status Internal ''inspect''), \<sigma>)
      | (Inr verdict, \<sigma>) \<Rightarrow>
          if v_action verdict = ActionBlock then tools_loop inspect sess services ts kept True \<sigma>
          else if v_action verdict = ActionRedact then
            (let (ch, t') = redactFields (stringLeaves t) (v_redactions verdict) t in
             tools_loop inspect sess services ts (kept @ [t']) (changed \<or> ch) \<sigma>)
          else tools_loop inspect sess services ts (kept @ [t]) changed \<sigma>)"

definition toolsList ::
  "'s inspector \<Rightarrow> (string \<times> json) list \<Rightarrow> string \<Rightarrow> string list \<Rightarrow> 's \<Rightarrow> (rpc_error + bool \<times> (string \<times> json) list) \<times> 's" where
  "toolsList inspect res sess services \<sigma> =
     (case tools_loop inspect sess services (as_array (value_at res ''tools'')) [] False \<sigma> of
        (Inl err, \<sigma>) \<Rightarrow> (Inl err, \<sigma>)
      | (Inr (kept, changed), \<sigma>) \<Rightarrow>
          (Inr (changed, if changed then map_put ''tools'' (JArray kept) res else res), \<sigma>))"

section \<open>Tool results\<close>

definition item_fields :: "json \<Rightarrow> text_field list" where
  "item_fields item =
     (case item of
        JObject kvs \<Rightarrow>
          field_list (stringField kvs ''text'')
          @ (case value_at kvs ''resource'' of
               JObject res \<Rightarrow> map (under (Key ''resource'')) (field_list (stringField res ''text''))
             | _ \<Rightarrow> [])
      | _ \<Rightarrow> [])"

definition content_fields :: "(string \<times> json) list \<Rightarrow> string \<Rightarrow> text_field list" where
  "content_fields res key =
     (let items = as_array (value_at res key) in
      map (under (Key key))
        (concat (map (\<lambda>iv. map (under (Index (fst iv))) (item_fields (snd iv))) (zip [0..<length items] items))))"

definition result_fields :: "(string \<times> json) list \<Rightarrow> text_field list" where
  "result_fields res =
     concat (map (content_fields res) [''content'', ''contents''])
     @ map (under (Key ''structuredContent'')) (stringLeaves (value_at res ''structuredContent''))"

definition result_request :: "string \<Rightarrow> string list \<Rightarrow> text_field list \<Rightarrow> request" where
  "result_request sess services flds =
     zero_request\<lparr>r_surface := SurfaceToolResult, r_session := sess,
       r_source := (if length services = 1 then services ! 0 else []),
       r_parts := parts flds ''tool'' TrustUntrusted\<rparr>"

text \<open>Blocked, changed, and the result as it is then.\<close>

definition toolResult ::
  "'s inspector \<Rightarrow> (string \<times> json) list \<Rightarrow> string \<Rightarrow> string list \<Rightarrow> 's \<Rightarrow> (rpc_error + bool \<times> bool \<times> json) \<times> 's" where
  "toolResult inspect res sess services \<sigma> =
     (let flds = result_fields res in
      if length flds = 0 then (Inr (False, False, JObject res), \<sigma>)
      else case inspect (result_request sess services flds) \<sigma> of
        (Inl err, \<sigma>) \<Rightarrow> (Inl (Status Internal ''inspect''), \<sigma>)
      | (Inr verdict, \<sigma>) \<Rightarrow>
          if v_action verdict = ActionBlock then (Inr (True, False, JObject res), \<sigma>)
          else if v_action verdict = ActionRedact then
            (let (changed, v') = redactFields flds (v_redactions verdict) (JObject res) in (Inr (False, changed, v'), \<sigma>))
          else (Inr (False, False, JObject res), \<sigma>))"

section \<open>Responses\<close>

definition encode_result :: "bool \<Rightarrow> json \<Rightarrow> rpc_error + mcp_reply" where
  "encode_result changed res =
     (if \<not> changed then Inr Pass
      else case encodeJSON res of
        Inl err \<Rightarrow> Inl (Status Internal ''encode result'') | Inr b \<Rightarrow> Inr (Mutated b))"

definition CheckResponse :: "'s inspector \<Rightarrow> mcp_response \<Rightarrow> 's \<Rightarrow> (rpc_error + mcp_reply) \<times> 's" where
  "CheckResponse inspect r \<sigma> =
     (if mr_method r \<notin> {methodToolsList, methodToolsCall, methodResourcesRead} then (Inr Pass, \<sigma>)
      else case decodeJSON (mr_result r) of
        Inl err \<Rightarrow> (Inl (Status InvalidArgument (mr_method r @ '' result'')), \<sigma>)
      | Inr v \<Rightarrow>
          let res = as_object v; sess = responseSession (mr_metadata r) in
          if mr_method r = methodToolsList then
            (case toolsList inspect res sess (mr_services r) \<sigma> of
               (Inl err, \<sigma>) \<Rightarrow> (Inl err, \<sigma>)
             | (Inr (changed, res'), \<sigma>) \<Rightarrow> (encode_result changed (JObject res'), \<sigma>))
          else
            (case toolResult inspect res sess (mr_services r) \<sigma> of
               (Inl err, \<sigma>) \<Rightarrow> (Inl err, \<sigma>)
             | (Inr (blocked, changed, v'), \<sigma>) \<Rightarrow>
                 if blocked then (Inr denied, \<sigma>) else (encode_result changed v', \<sigma>)))"

end
