(* ===== verification/Json_Text_Correct.thy ===== *)
theory Json_Text_Correct
  imports Json_Text
begin

text \<open>
  What redaction does to a text and to a payload: the marked ranges are replaced and nothing else,
  the fields a verdict names change and no other place of the payload.
\<close>

section \<open>Redacting one text\<close>

text \<open>
  The specification: from left to right, the text between the spans is copied and each span becomes
  one marker.
\<close>

fun redacted_from :: "int \<Rightarrow> string \<Rightarrow> span list \<Rightarrow> string" where
  "redacted_from p body [] = drop (nat p) body"
| "redacted_from p body (s # ss) =
     (if span_end s \<le> span_start s then redacted_from p body ss
      else take (nat (span_start s) - nat p) (drop (nat p) body) @ replacement @ redacted_from (span_end s) body ss)"

text \<open>Spans of one part as a merge gives them, inside a text of the given length.\<close>

definition spans_within :: "int \<Rightarrow> span list \<Rightarrow> bool" where
  "spans_within n ss =
     (sorted_wrt (\<lambda>s t. span_end s < span_start t) ss
      \<and> (\<forall>s \<in> set ss. 0 \<le> span_start s \<and> span_start s \<le> span_end s \<and> span_end s \<le> n))"

lemma clamp_id [simp]: "0 \<le> x \<Longrightarrow> x \<le> n \<Longrightarrow> clamp x n = x"
  by (simp add: clamp_def)

lemma redacted_from_cut:
  assumes "sorted_wrt (\<lambda>s t. span_end s < span_start t) (ss @ [t])"
    "\<forall>s \<in> set (ss @ [t]). p \<le> span_start s \<and> span_start s \<le> span_end s \<and> span_end s \<le> int (length body)"
    "0 \<le> p" "span_start t < span_end t"
  shows "redacted_from p body (ss @ [t]) =
    redacted_from p (take (nat (span_start t)) body @ replacement @ drop (nat (span_end t)) body) ss"
  using assms(1-3)
proof (induction ss arbitrary: p)
  case Nil
  then have "nat p \<le> nat (span_start t)" "nat (span_start t) \<le> length body" using assms(4) by auto
  then show ?case using assms(4) by (simp add: drop_take)
next
  case (Cons s ss)
  let ?cut = "take (nat (span_start t)) body @ replacement @ drop (nat (span_end t)) body"
  have st: "span_end s < span_start t" using Cons.prems(1) by simp
  have after: "\<forall>u \<in> set (ss @ [t]). span_end s \<le> span_start u \<and> span_start u \<le> span_end u \<and> span_end u \<le> int (length body)"
    using Cons.prems(1,2) by auto
  show ?case
  proof (cases "span_end s \<le> span_start s")
    case True
    then show ?thesis using Cons.IH [of p] Cons.prems by simp
  next
    case False
    have s: "p \<le> span_start s" "span_start s \<le> span_end s" "span_end t \<le> int (length body)" using Cons.prems(2) by auto
    have "nat (span_start s) \<le> length body" "nat (span_start s) \<le> nat (span_start t)"
      using s st Cons.prems(2) by auto
    then have "take (nat (span_start s)) ?cut = take (nat (span_start s)) body" by (simp add: min_def)
    moreover have "nat (span_start s) - nat p + nat p = nat (span_start s)" using s(1) by simp
    ultimately have "take (nat (span_start s) - nat p) (drop (nat p) ?cut) = take (nat (span_start s) - nat p) (drop (nat p) body)"
      by (simp only: take_drop)
    moreover have "redacted_from (span_end s) body (ss @ [t]) = redacted_from (span_end s) ?cut ss"
      using Cons.IH [of "span_end s"] Cons.prems(1) after s Cons.prems(3) by simp
    ultimately show ?thesis using False by simp
  qed
qed

lemma redact_loop_rev:
  "spans_within (int (length body)) ss \<Longrightarrow> redact_loop body (rev ss) = redacted_from 0 body ss"
proof (induction ss arbitrary: body rule: rev_induct)
  case (snoc t ss)
  let ?cut = "take (nat (span_start t)) body @ replacement @ drop (nat (span_end t)) body"
  have t: "0 \<le> span_start t" "span_start t \<le> span_end t" "span_end t \<le> int (length body)"
    using snoc.prems by (auto simp: spans_within_def)
  show ?case
  proof (cases "span_end t \<le> span_start t")
    case True
    have skip: "redacted_from p body (ss @ [t]) = redacted_from p body ss" for p
      using True by (induction ss arbitrary: p) auto
    have "spans_within (int (length body)) ss" using snoc.prems by (auto simp: spans_within_def sorted_wrt_append)
    then show ?thesis using snoc.IH True t skip by (simp add: Let_def)
  next
    case False
    have "spans_within (int (length ?cut)) ss"
      using snoc.prems t by (auto simp: spans_within_def sorted_wrt_append)
    then have "redact_loop ?cut (rev ss) = redacted_from 0 ?cut ss" by (rule snoc.IH)
    also have "\<dots> = redacted_from 0 body (ss @ [t])"
      by (rule redacted_from_cut [symmetric]) (use snoc.prems False in \<open>auto simp: spans_within_def\<close>)
    finally show ?thesis using False t by (simp add: Let_def)
  qed
qed (simp add: spans_within_def)

lemma redact_eq:
  assumes "spans_within (int (length body)) ss"
  shows "redact body ss = redacted_from 0 body ss"
proof -
  have asc: "sorted_wrt (\<lambda>s t. span_start s < span_start t) ss"
    using assms by (auto simp: spans_within_def elim!: sorted_wrt_mono_rel [rotated])
  then have desc: "sorted (map (\<lambda>s. - span_start s) (rev ss))"
    by (auto simp: sorted_map sorted_wrt_rev elim!: sorted_wrt_mono_rel [rotated])
  have "distinct (map span_start ss)"
    using asc strict_sorted_iff [of "map span_start ss"] by (simp add: sorted_wrt_map)
  then have "inj_on (\<lambda>s. - span_start s) (set ss)" by (auto simp: distinct_map inj_on_def)
  then have "sort_key (\<lambda>s. - span_start s) ss = rev ss"
    using desc by (intro sort_key_inj_key_eq) simp_all
  then show ?thesis using redact_loop_rev [OF assms] by (simp add: redact_def)
qed

section \<open>Places in a value\<close>

text \<open>Two places neither of which lies inside the other.\<close>

fun apart_paths :: "path_step list \<Rightarrow> path_step list \<Rightarrow> bool" where
  "apart_paths (s # p) (t # q) = (s \<noteq> t \<or> apart_paths p q)"
| "apart_paths p q = False"

lemma map_of_map_at: "map_of (map (\<lambda>(k', v). (k', if k' = k then f v else v)) kvs) j =
    (if j = k then map_option f (map_of kvs j) else map_of kvs j)"
  by (induction kvs) auto

lemma get_set_same: "get_at p v \<noteq> None \<Longrightarrow> get_at p (set_at p n v) = Some (JString n)"
proof (induction p n v rule: set_at.induct)
  case (2 k p n kvs)
  then obtain v where v: "map_of kvs k = Some v" "get_at p v \<noteq> None" by (auto split: option.splits)
  then show ?case using "2.IH" [OF map_of_SomeD [OF v(1)] refl refl v(2)] by (simp add: map_of_map_at)
qed (auto split: if_splits)

lemma get_set_apart: "apart_paths p q \<Longrightarrow> get_at q (set_at p n v) = get_at q v"
proof (induction p n v arbitrary: q rule: set_at.induct)
  case (2 k p n kvs)
  then obtain t q' where q: "q = t # q'" by (cases q) auto
  show ?case
  proof (cases t)
    case (Key j)
    show ?thesis
    proof (cases "j = k")
      case True
      then have a: "apart_paths p q'" using 2 q Key by simp
      have "get_at q' (set_at p n v) = get_at q' v" if "map_of kvs k = Some v" for v
        using "2.IH" [OF map_of_SomeD [OF that] _ _ a] that by (simp add: map_of_SomeD)
      then show ?thesis using True q Key by (simp add: map_of_map_at split: option.splits)
    next
      case False
      then show ?thesis using q Key by (simp add: map_of_map_at)
    qed
  qed (use q in simp)
next
  case (3 i p n vs)
  then obtain t q' where q: "q = t # q'" by (cases q) auto
  then show ?case using 3 by (cases t) (auto simp: nth_list_update)
qed auto

lemma set_at_mismatch:
  "set_at (Index i # p) n (set_at (t # q) m (JObject kvs)) = set_at (t # q) m (JObject kvs)"
  "set_at (Key k # p) n (set_at (t # q) m (JArray vs)) = set_at (t # q) m (JArray vs)"
  "set_at (t # q) m JNull = JNull" "set_at (t # q) m (JBool b) = JBool b" "set_at (t # q) m (JNumber x) = JNumber x"
  "set_at (t # q) m (JString x) = JString x"
  by (cases t; simp)+

lemma apart_paths_shape: "apart_paths (s # p) q \<Longrightarrow> \<exists>t q'. q = t # q'"
  by (cases q) auto

lemma set_at_commute: "apart_paths p q \<Longrightarrow> set_at p n (set_at q m v) = set_at q m (set_at p n v)"
proof (induction p arbitrary: q v)
  case (Cons s p)
  then obtain t q' where q: "q = t # q'" using apart_paths_shape by blast
  have IH: "s = t \<Longrightarrow> set_at p n (set_at q' m w) = set_at q' m (set_at p n w)" for w
    using Cons q by simp
  show ?case
  proof (cases v)
    case (JArray vs)
    then show ?thesis using IH q Cons.prems
      by (cases s; cases t) (auto simp: nth_list_update list_update_swap)
  next
    case (JObject kvs)
    then show ?thesis using IH q Cons.prems by (cases s; cases t) auto
  qed (simp_all only: q set_at_mismatch)
qed simp

section \<open>Fields of a payload\<close>

text \<open>Each field holds the text at its place, and no field lies inside another.\<close>

definition fields_ok :: "json \<Rightarrow> text_field list \<Rightarrow> bool" where
  "fields_ok v flds =
     ((\<forall>f \<in> set flds. get_at (tf_path f) v = Some (JString (tf_text f)))
      \<and> sorted_wrt apart_paths (map tf_path flds))"

lemma apart_paths_sym: "apart_paths p q = apart_paths q p"
  by (induction p q rule: apart_paths.induct) auto

lemma apart_paths_irrefl [simp]: "\<not> apart_paths p p"
  by (induction p) auto

lemma fields_ok_apart:
  assumes "fields_ok v flds" "i < length flds" "j < length flds" "i \<noteq> j"
  shows "apart_paths (tf_path (flds ! i)) (tf_path (flds ! j))"
proof -
  have "apart_paths (tf_path (flds ! i)) (tf_path (flds ! j))" if "i < j" "j < length flds" for i j
    using assms(1) that by (simp add: fields_ok_def sorted_wrt_iff_nth_less)
  then show ?thesis using assms(2-4) apart_paths_sym by (metis linorder_neq_iff)
qed

text \<open>The text a field has after redaction.\<close>

definition field_after :: "text_field list \<Rightarrow> span list \<Rightarrow> nat \<Rightarrow> string" where
  "field_after flds spans i =
     (let ss = spans_of_part (length flds) i spans in
      if ss = [] then tf_text (flds ! i) else redact (tf_text (flds ! i)) ss)"

lemma apply_redactions_get:
  assumes "\<forall>i < length flds. \<forall>j < length flds. i \<noteq> j \<longrightarrow> apart_paths (tf_path (flds ! i)) (tf_path (flds ! j))"
    "distinct is" "set is \<subseteq> {..<length flds}"
    "\<forall>i < length flds. \<exists>s. get_at (tf_path (flds ! i)) v = Some (JString s)"
    "\<forall>i \<in> set is. get_at (tf_path (flds ! i)) v = Some (JString (tf_text (flds ! i)))"
  shows "(\<forall>i < length flds. get_at (tf_path (flds ! i)) (apply_redactions flds spans is v) =
        (if i \<in> set is then Some (JString (field_after flds spans i)) else get_at (tf_path (flds ! i)) v))
    \<and> (\<forall>q. (\<forall>f \<in> set flds. apart_paths (tf_path f) q) \<longrightarrow> get_at q (apply_redactions flds spans is v) = get_at q v)"
  using assms(2-5)
proof (induction "is" arbitrary: v)
  case (Cons i "is")
  define v' where "v' = (if spans_of_part (length flds) i spans = [] then v
    else set_at (tf_path (flds ! i)) (redact (tf_text (flds ! i)) (spans_of_part (length flds) i spans)) v)"
  have i: "i < length flds" "i \<notin> set is" using Cons.prems by auto
  have same: "get_at (tf_path (flds ! i)) v' = Some (JString (field_after flds spans i))"
    using Cons.prems(4) get_set_same [of "tf_path (flds ! i)" v] by (simp add: v'_def field_after_def Let_def)
  have other: "apart_paths (tf_path (flds ! i)) q \<Longrightarrow> get_at q v' = get_at q v" for q
    by (simp add: v'_def get_set_apart)
  then have others: "j < length flds \<Longrightarrow> j \<noteq> i \<Longrightarrow> get_at (tf_path (flds ! j)) v' = get_at (tf_path (flds ! j)) v" for j
    using assms(1) i(1) by blast
  have "(\<forall>i < length flds. get_at (tf_path (flds ! i)) (apply_redactions flds spans is v') =
        (if i \<in> set is then Some (JString (field_after flds spans i)) else get_at (tf_path (flds ! i)) v'))
    \<and> (\<forall>q. (\<forall>f \<in> set flds. apart_paths (tf_path f) q) \<longrightarrow> get_at q (apply_redactions flds spans is v') = get_at q v')"
  proof (rule Cons.IH)
    show "\<forall>j < length flds. \<exists>s. get_at (tf_path (flds ! j)) v' = Some (JString s)"
    proof (intro allI impI)
      fix j assume "j < length flds"
      then show "\<exists>s. get_at (tf_path (flds ! j)) v' = Some (JString s)"
        using same others [of j] Cons.prems(3) by (cases "j = i") auto
    qed
    show "\<forall>j \<in> set is. get_at (tf_path (flds ! j)) v' = Some (JString (tf_text (flds ! j)))"
    proof
      fix j assume j: "j \<in> set is"
      then have "j < length flds" "j \<noteq> i" using Cons.prems(2) i by auto
      then show "get_at (tf_path (flds ! j)) v' = Some (JString (tf_text (flds ! j)))"
        using others Cons.prems(4) j by simp
    qed
  qed (use Cons.prems in auto)
  moreover have "apply_redactions flds spans (i # is) v = apply_redactions flds spans is v'"
    by (simp add: v'_def Let_def)
  moreover have "\<forall>q. (\<forall>f \<in> set flds. apart_paths (tf_path f) q) \<longrightarrow> get_at q v' = get_at q v"
    using other i(1) nth_mem by blast
  ultimately show ?case using same others i by auto
qed simp

lemma redactFields_get:
  assumes "fields_ok v flds"
  shows "i < length flds \<Longrightarrow> get_at (tf_path (flds ! i)) (snd (redactFields flds spans v)) = Some (JString (field_after flds spans i))"
    "\<forall>f \<in> set flds. apart_paths (tf_path f) q \<Longrightarrow> get_at q (snd (redactFields flds spans v)) = get_at q v"
proof -
  have "(\<forall>i < length flds. get_at (tf_path (flds ! i)) (apply_redactions flds spans [0..<length flds] v) =
        (if i \<in> set [0..<length flds] then Some (JString (field_after flds spans i)) else get_at (tf_path (flds ! i)) v))
    \<and> (\<forall>q. (\<forall>f \<in> set flds. apart_paths (tf_path f) q) \<longrightarrow> get_at q (apply_redactions flds spans [0..<length flds] v) = get_at q v)"
    by (rule apply_redactions_get) (use assms fields_ok_apart [OF assms] in \<open>auto simp: fields_ok_def\<close>)
  then show "i < length flds \<Longrightarrow> get_at (tf_path (flds ! i)) (snd (redactFields flds spans v)) = Some (JString (field_after flds spans i))"
    "\<forall>f \<in> set flds. apart_paths (tf_path f) q \<Longrightarrow> get_at q (snd (redactFields flds spans v)) = get_at q v"
    by (simp_all add: redactFields_def)
qed

section \<open>The leaves are fields\<close>

definition block_ok :: "path_step \<Rightarrow> json \<Rightarrow> text_field list \<Rightarrow> bool" where
  "block_ok s w b = (\<exists>flds. b = map (under s) flds \<and> fields_ok w flds)"

lemma block_ok_here: "block_ok s (JString t) [field_here s t]"
  unfolding block_ok_def
  by (rule exI [of _ "[\<lparr>tf_text = t, tf_path = []\<rparr>]"]) (simp add: fields_ok_def under_def field_here_def)

lemma block_ok_none: "block_ok s w []"
  unfolding block_ok_def by (rule exI [of _ "[]"]) (simp add: fields_ok_def)

lemma block_ok_under: "fields_ok w flds \<Longrightarrow> block_ok s w (map (under s) flds)"
  unfolding block_ok_def by blast

lemma tf_path_under [simp]: "tf_path (under s f) = s # tf_path f" "tf_text (under s f) = tf_text f"
  by (simp_all add: under_def)

lemma fields_of_blocks:
  assumes "distinct (map (step \<circ> fst) cs)"
    "\<And>k w. (k, w) \<in> set cs \<Longrightarrow> block_ok (step k) w (blk (k, w)) \<and> (\<forall>p. get_at (step k # p) v = get_at p w)"
  shows "fields_ok v (concat (map blk cs))
    \<and> (\<forall>f \<in> set (concat (map blk cs)). \<exists>p. tf_path f \<noteq> [] \<and> hd (tf_path f) \<in> (step \<circ> fst) ` set cs)"
  using assms
proof (induction cs)
  case Nil
  then show ?case by (simp add: fields_ok_def)
next
  case (Cons c cs)
  obtain k w where c: "c = (k, w)" by fastforce
  have IH: "fields_ok v (concat (map blk cs))"
    "\<forall>f \<in> set (concat (map blk cs)). tf_path f \<noteq> [] \<and> hd (tf_path f) \<in> (step \<circ> fst) ` set cs"
    using Cons.IH Cons.prems by auto
  obtain flds where b: "blk c = map (under (step k)) flds" and ok: "fields_ok w flds"
    using Cons.prems(2) [of k w] c unfolding block_ok_def by auto
  have "get_at (tf_path f) v = Some (JString (tf_text f))" if "f \<in> set (blk c)" for f
    using that ok Cons.prems(2) [of k w] c unfolding b fields_ok_def by auto
  moreover have "sorted_wrt apart_paths (map tf_path (blk c))"
    using ok by (simp add: b fields_ok_def sorted_wrt_map)
  moreover have "apart_paths (tf_path f) (tf_path g)" if f: "f \<in> set (blk c)" and g: "g \<in> set (concat (map blk cs))" for f g
  proof -
    obtain p where "tf_path f = step k # p" using f unfolding b by auto
    moreover have "tf_path g \<noteq> []" "hd (tf_path g) \<in> (step \<circ> fst) ` set cs" using IH(2) g by blast+
    then obtain t q where "tf_path g = t # q" "t \<in> (step \<circ> fst) ` set cs" by (cases "tf_path g") auto
    moreover have "step k \<notin> (step \<circ> fst) ` set cs" using Cons.prems(1) c by simp
    ultimately show ?thesis by auto
  qed
  ultimately have "fields_ok v (concat (map blk (c # cs)))"
    using IH(1) by (auto simp: fields_ok_def sorted_wrt_append)
  then show ?case using IH(2) b c by auto
qed

lemma fields_of_object:
  assumes "distinct (map fst kvs)" "\<And>kv. kv \<in> set kvs \<Longrightarrow> block_ok (Key (fst kv)) (snd kv) (blk kv)"
  shows "fields_ok (JObject kvs) (concat (map blk (sort_key fst kvs)))"
proof -
  have "distinct (map fst (sort_key fst kvs))"
    using assms(1) distinct_map by (metis distinct_sort set_sort)
  then have "distinct (map (Key \<circ> fst) (sort_key fst kvs))"
    by (simp add: distinct_map inj_on_def)
  then show ?thesis
    using fields_of_blocks [of Key "sort_key fst kvs" blk "JObject kvs"] assms by fastforce
qed

lemma fields_of_array:
  assumes "\<And>iv. snd iv \<in> set vs \<Longrightarrow> block_ok (Index (fst iv)) (snd iv) (blk iv)"
  shows "fields_ok (JArray vs) (concat (map blk (zip [0..<length vs] vs)))"
proof -
  have "distinct (map (Index \<circ> fst) (zip [0..<length vs] vs))"
    by (simp add: map_fst_zip flip: map_map) (simp add: distinct_map inj_on_def)
  moreover have "w = vs ! k \<and> k < length vs" if "(k, w) \<in> set (zip [0..<length vs] vs)" for k w
    using that by (auto simp: set_zip)
  ultimately show ?thesis
    using fields_of_blocks [of Index "zip [0..<length vs] vs" blk "JArray vs"] assms by fastforce
qed

lemma sorted_keys_distinct: "sorted_wrt (<) (map fst (kvs :: (string \<times> 'a) list)) \<Longrightarrow> distinct (map fst kvs)"
  by (simp add: strict_sorted_iff)

lemma string_block:
  "fields_ok w (F w) \<Longrightarrow> block_ok st w (case w of JString s \<Rightarrow> [field_here st s] | w \<Rightarrow> map (under st) (F w))"
  by (cases w) (simp_all add: block_ok_here block_ok_under)

lemma text_block:
  "fields_ok w (F w) \<Longrightarrow>
     block_ok st w (case w of JString s \<Rightarrow> (if isText s then [field_here st s] else []) | w \<Rightarrow> map (under st) (F w))"
  by (cases w) (simp_all add: block_ok_here block_ok_under block_ok_none)

lemma no_fields_ok: "fields_ok v []"
  by (simp add: fields_ok_def)

lemma stringLeaves_ok: "json_wf v \<Longrightarrow> fields_ok v (stringLeaves v)"
proof (induction v rule: json_wf.induct)
  case (5 vs)
  have "fields_ok w (stringLeaves w)" if "w \<in> set vs" for w using 5 that by (simp add: list_all_iff)
  then show ?case
    by (subst stringLeaves.simps, unfold json.case) (intro fields_of_array string_block [of _ stringLeaves])
next
  case (6 kvs)
  have "fields_ok (snd kv) (stringLeaves (snd kv))" if "kv \<in> set kvs" for kv using 6 that by (auto simp: list_all_iff)
  moreover have "distinct (map fst kvs)" by (rule sorted_keys_distinct) (use 6 in simp)
  ultimately show ?case
    by (subst stringLeaves.simps, unfold json.case) (intro fields_of_object string_block [of _ stringLeaves])
qed (simp_all add: stringLeaves.simps [of JNull] stringLeaves.simps [of "JBool _"] stringLeaves.simps [of "JNumber _"]
    stringLeaves.simps [of "JString _"] no_fields_ok)

lemma textLeaves_ok: "json_wf v \<Longrightarrow> fields_ok v (textLeaves v)"
proof (induction v rule: json_wf.induct)
  case (5 vs)
  have "fields_ok w (textLeaves w)" if "w \<in> set vs" for w using 5 that by (simp add: list_all_iff)
  then show ?case
    by (subst textLeaves.simps, unfold json.case) (intro fields_of_array text_block [of _ textLeaves])
next
  case (6 kvs)
  have "fields_ok (snd kv) (textLeaves (snd kv))" if "kv \<in> set kvs" for kv using 6 that by (auto simp: list_all_iff)
  then have "block_ok (Key (fst kv)) (snd kv)
      (case snd kv of JString s \<Rightarrow> (if isText s then [field_here (Key (fst kv)) s] else [])
       | w \<Rightarrow> map (under (Key (fst kv))) (textLeaves w))" if "kv \<in> set kvs" for kv
    using that by (intro text_block [of _ textLeaves])
  moreover have "distinct (map fst kvs)" by (rule sorted_keys_distinct) (use 6 in simp)
  ultimately show ?case
    by (subst textLeaves.simps, unfold json.case) (intro fields_of_object, simp_all only: block_ok_none split: if_split, blast)
qed (simp_all add: textLeaves.simps [of JNull] textLeaves.simps [of "JBool _"] textLeaves.simps [of "JNumber _"]
    textLeaves.simps [of "JString _"] no_fields_ok)

section \<open>Properties\<close>

lemma decodeJSON_ok: "decodeJSON b = Inr v \<Longrightarrow> json_ok v"
  by (auto simp: decodeJSON_def intro: json_Decode_ok split: option.splits)

lemma decodeJSON_wf: "decodeJSON b = Inr v \<Longrightarrow> json_wf v"
  using decodeJSON_ok by (simp add: json_ok_def)

text \<open>C22: a payload that was decoded can be encoded again, without an error, and the encoding decodes to the
  same value: strings with every escape and any Unicode, number literals, the order of arrays and
  the entries of objects survive.\<close>

theorem payload_round_trip:
  assumes "decodeJSON b = Inr v"
  shows "\<exists>e. encodeJSON v = Inr e \<and> decodeJSON e = Inr v"
proof -
  obtain e where "json_Encode v = Some e" "json_Decode e = Some v"
    using json_round_trip [OF decodeJSON_ok [OF assms]] by blast
  then show ?thesis by (auto simp: encodeJSON_def decodeJSON_def)
qed

lemmas decode_eval = json_Decode_def decode_value.simps is_json_space_def lex_one_def is_delim_def json_digit_def
  number_len_def neg_len_def int_len_def digits_len_def frac_len_def exp_len_def json_step_def build_token.simps
  byte_of_def wants_key_def Let_def

theorem payload_round_trip_witness:
  "decodeJSON ''[ 1.5e3, null,[] ] tail'' = Inr (JArray [JNumber ''1.5e3'', JNull, JArray []])
   \<and> (\<exists>e. encodeJSON (JArray [JNumber ''1.5e3'', JNull, JArray []]) = Inr e
        \<and> decodeJSON e = Inr (JArray [JNumber ''1.5e3'', JNull, JArray []]))"
proof -
  have "decodeJSON ''[ 1.5e3, null,[] ] tail'' = Inr (JArray [JNumber ''1.5e3'', JNull, JArray []])"
    by (simp add: decodeJSON_def decode_eval maxNestingDepth_def)
  then show ?thesis using payload_round_trip by blast
qed

text \<open>Redacting a text with merged spans copies every byte outside the spans and replaces each span by one
  marker, in order: applying the spans from the last to the first, with clamped bounds, is the same
  as one pass from left to right.\<close>

theorem redact_replaces_spans:
  assumes "spans_within (int (length body)) ss"
  shows "redact body ss = redacted_from 0 body ss"
  using assms by (rule redact_eq)

theorem redact_replaces_spans_witness:
  "redact ''my pan is ABCDE1234F, ok'' [\<lparr>span_part = 0, span_start = 0, span_end = 2\<rparr>, \<lparr>span_part = 0, span_start = 10, span_end = 20\<rparr>]
   = ''[REDACTED] pan is [REDACTED], ok''"
  using redact_replaces_spans [of "''my pan is ABCDE1234F, ok''"
      "[\<lparr>span_part = 0, span_start = 0, span_end = 2\<rparr>, \<lparr>span_part = 0, span_start = 10, span_end = 20\<rparr>]"]
  by (simp add: spans_within_def replacement_def)

text \<open>Redacting a decoded payload through its string leaves changes exactly the leaves a span names: leaf
  \<open>i\<close> holds its text redacted by the spans of part \<open>i\<close>, and every place of the payload outside the
  leaves reads as before.\<close>

theorem redaction_changes_only_leaves:
  assumes "decodeJSON b = Inr v" "redactFields (stringLeaves v) spans v = (changed, v')"
  shows "(\<forall>i < length (stringLeaves v).
        get_at (tf_path (stringLeaves v ! i)) v = Some (JString (tf_text (stringLeaves v ! i)))
        \<and> get_at (tf_path (stringLeaves v ! i)) v' = Some (JString (field_after (stringLeaves v) spans i)))
    \<and> (\<forall>q. (\<forall>f \<in> set (stringLeaves v). apart_paths (tf_path f) q) \<longrightarrow> get_at q v' = get_at q v)"
  using redactFields_get [OF stringLeaves_ok [OF decodeJSON_wf [OF assms(1)]], of _ spans] assms(2)
    stringLeaves_ok [OF decodeJSON_wf [OF assms(1)]]
  by (simp add: fields_ok_def)

lemma stringLeaves_eval:
  "stringLeaves (JArray vs) = concat (map (\<lambda>iv. case snd iv of
              JString s \<Rightarrow> [field_here (Index (fst iv)) s]
            | w \<Rightarrow> map (under (Index (fst iv))) (stringLeaves w)) (zip [0..<length vs] vs))"
  "stringLeaves JNull = []"
  by (subst stringLeaves.simps, simp)+

theorem redaction_changes_only_leaves_witness:
  "\<exists>v'. redactFields (stringLeaves (JArray [JString ''abc'', JNull])) [\<lparr>span_part = 0, span_start = 1, span_end = 3\<rparr>]
      (JArray [JString ''abc'', JNull]) = (True, v')
   \<and> get_at [Index 0] v' = Some (JString ''a[REDACTED]'') \<and> get_at [Index 1] v' = Some JNull"
proof -
  let ?v = "JArray [JString ''abc'', JNull]" and ?ss = "[\<lparr>span_part = 0, span_start = 1, span_end = 3\<rparr>]"
  have b: "decodeJSON ''[\"abc\", null]'' = Inr ?v"
    by (simp add: decodeJSON_def decode_eval maxNestingDepth_def scan_string.simps(2) unquote.simps)
  have l: "stringLeaves ?v = [field_here (Index 0) ''abc'']"
    by (simp add: stringLeaves_eval field_here_def upt_rec)
  obtain ch v' where r: "redactFields (stringLeaves ?v) ?ss ?v = (ch, v')" by fastforce
  have "redact ''abc'' ?ss = ''a[REDACTED]''" by (simp add: redact_def clamp_def replacement_def)
  then show ?thesis
    using redaction_changes_only_leaves [OF b r] r
    by (auto simp: l field_here_def field_after_def spans_of_part_def redactFields_def)
qed

end
