(* ===== verification/Payloads.thy ===== *)
theory Payloads
  imports Json_Text_Correct Wire
begin

text \<open>
  What the adapters rely on when they write a redaction back: a decoded payload stays encodable
  whatever its text is replaced by, the encoding reads back when the new text is valid UTF-8, and the
  fields of an object are those of its entries.
\<close>

section \<open>Payloads that can be encoded\<close>

fun encodable :: "json \<Rightarrow> bool" where
  "encodable (JNumber n) = (n = [] \<or> valid_number n)"
| "encodable (JArray vs) = list_all encodable vs"
| "encodable (JObject kvs) = list_all (\<lambda>kv. encodable (snd kv)) kvs"
| "encodable _ = True"

lemma sequence_opt_some: "(\<And>x. x \<in> set xs \<Longrightarrow> x \<noteq> None) \<Longrightarrow> \<exists>ys. sequence_opt xs = Some ys"
  by (induction xs) fastforce+

lemma encodable_Encode: "encodable v \<Longrightarrow> \<exists>e. json_Encode v = Some e"
proof (induction v rule: encodable.induct)
  case (2 vs)
  have "\<exists>es. sequence_opt (map json_Encode vs) = Some es"
    by (rule sequence_opt_some) (use 2 in \<open>auto simp: list_all_iff\<close>)
  then show ?case by auto
next
  case (3 kvs)
  have "\<exists>es. sequence_opt (map (\<lambda>kv. map_option (\<lambda>e. quoted (fst kv) @ '':'' @ e) (json_Encode (snd kv))) kvs) = Some es"
    by (rule sequence_opt_some) (use 3 in \<open>fastforce simp: list_all_iff\<close>)
  then show ?case by auto
qed auto

lemma encodable_encodeJSON: "encodable v \<Longrightarrow> \<exists>b. encodeJSON v = Inr b"
  using encodable_Encode [of v] by (auto simp: encodeJSON_def)

lemma json_wf_encodable: "json_wf v \<Longrightarrow> encodable v"
  by (induction v rule: json_wf.induct) (auto simp: list_all_iff)

lemma encodable_set_at: "encodable v \<Longrightarrow> encodable (set_at p n v)"
proof (induction p n v rule: set_at.induct)
  case (3 i p n vs)
  then show ?case by (auto simp: list_all_length nth_list_update)
qed (auto simp: list_all_iff)

lemma encodable_redactFields: "encodable v \<Longrightarrow> encodable (snd (redactFields flds spans v))"
proof -
  have "encodable v \<Longrightarrow> encodable (apply_redactions flds spans is v)" for "is"
    by (induction "is" arbitrary: v) (auto simp: Let_def encodable_set_at)
  then show "encodable v \<Longrightarrow> ?thesis" by (simp add: redactFields_def)
qed

lemma keys_set_at: "map (fst \<circ> (\<lambda>(k', v). (k', if k' = k then f v else v))) kvs = map fst kvs"
  by (induction kvs) auto

lemma json_wf_set_at: "json_wf v \<Longrightarrow> ValidString n \<Longrightarrow> json_wf (set_at p n v)"
proof (induction p n v rule: set_at.induct)
  case (2 k p n kvs)
  then show ?case by (auto simp: list_all_iff keys_set_at)
next
  case (3 i p n vs)
  then show ?case by (auto simp: list_all_length nth_list_update)
qed auto

lemma foldr_max_mono: "list_all2 (\<le>) xs ys \<Longrightarrow> foldr max xs (0::nat) \<le> foldr max ys 0"
  by (induction rule: list_all2_induct) auto

lemma json_depth_set_at: "json_depth (set_at p n v) \<le> json_depth v"
proof (induction p n v rule: set_at.induct)
  case (2 k p n kvs)
  have "json_depth (set_at p n (snd (kvs ! i))) \<le> json_depth (snd (kvs ! i))" if "i < length kvs" "fst (kvs ! i) = k" for i
    using 2 [of "(k, snd (kvs ! i))"] that nth_mem [OF that(1)] by (metis prod.collapse)
  then show ?case by (auto simp: list_all2_conv_all_nth split_beta intro!: foldr_max_mono)
next
  case (3 i p n vs)
  then show ?case by (auto simp: list_all2_conv_all_nth nth_list_update intro!: foldr_max_mono)
qed auto

lemma json_ok_set_at: "json_ok v \<Longrightarrow> ValidString n \<Longrightarrow> json_ok (set_at p n v)"
  using json_wf_set_at json_depth_set_at le_trans unfolding json_ok_def by blast

definition valid_after :: "text_field list \<Rightarrow> span list \<Rightarrow> bool" where
  "valid_after flds spans = (\<forall>i < length flds. ValidString (field_after flds spans i))"

lemma json_ok_redactFields:
  assumes "json_ok v" "valid_after flds spans"
  shows "json_ok (snd (redactFields flds spans v))"
proof -
  have "set is \<subseteq> {..<length flds} \<Longrightarrow> json_ok v \<Longrightarrow> json_ok (apply_redactions flds spans is v)" for "is"
  proof (induction "is" arbitrary: v)
    case (Cons i "is")
    have "ValidString (field_after flds spans i)" using assms(2) Cons.prems(1) by (simp add: valid_after_def)
    then have "json_ok (if spans_of_part (length flds) i spans = [] then v
        else set_at (tf_path (flds ! i)) (redact (tf_text (flds ! i)) (spans_of_part (length flds) i spans)) v)"
      using Cons.prems(2) json_ok_set_at by (auto simp: field_after_def Let_def)
    then show ?case using Cons by (simp add: Let_def)
  qed simp
  from this [of "[0..<length flds]"] assms(1) show ?thesis by (simp add: redactFields_def lessThan_atLeast0)
qed

lemma json_ok_payload: "json_ok v \<Longrightarrow> \<exists>b. encodeJSON v = Inr b \<and> decodeJSON b = Inr v"
  using json_round_trip by (fastforce simp: encodeJSON_def decodeJSON_def)

text \<open>The encoding of a redacted payload never fails.\<close>

lemma redacted_payload:
  assumes "json_ok v"
  shows "\<exists>b. encodeJSON (snd (redactFields flds spans v)) = Inr b
     \<and> (valid_after flds spans \<longrightarrow> decodeJSON b = Inr (snd (redactFields flds spans v)))"
proof (cases "valid_after flds spans")
  case True
  from json_ok_payload [OF json_ok_redactFields [OF assms True]] show ?thesis by auto
next
  case False
  have "encodable v" using assms json_wf_encodable by (simp add: json_ok_def)
  from encodable_encodeJSON [OF encodable_redactFields [OF this]] False show ?thesis by auto
qed

text \<open>A payload that is no object reads as an empty one.\<close>

lemma as_object_ok: "json_ok v \<Longrightarrow> json_ok (JObject (as_object v))"
  by (cases v) (auto simp: as_object_def json_ok_def maxNestingDepth_def)

lemma json_ok_entry: "json_ok (JObject kvs) \<Longrightarrow> json_wf (value_at kvs k)"
  by (auto simp: json_ok_def value_at_def list_all_iff split: option.splits dest!: map_of_SomeD)

section \<open>The fields of an object\<close>

lemma fields_ok_key:
  assumes "fields_ok (value_at kvs k) flds"
  shows "fields_ok (JObject kvs) (map (under (Key k)) flds)"
proof (cases "map_of kvs k")
  case None
  have "flds = []"
  proof (rule ccontr)
    assume "flds \<noteq> []"
    then have "get_at (tf_path (hd flds)) JNull = Some (JString (tf_text (hd flds)))"
      using assms None by (cases flds) (auto simp: fields_ok_def value_at_def)
    then show False by (cases "tf_path (hd flds)") auto
  qed
  then show ?thesis by (simp add: no_fields_ok)
next
  case (Some v)
  then show ?thesis using assms by (auto simp: fields_ok_def value_at_def sorted_wrt_map)
qed

lemma stringField_ok: "fields_ok (JObject kvs) (field_list (stringField kvs k))"
  by (auto simp: field_list_def stringField_def fields_ok_def field_here_def split: option.splits json.splits)

lemma fields_of_elements:
  assumes "\<And>w. fields_ok w (F w)"
  shows "fields_ok (JObject kvs) (map (under (Key k))
    (concat (map (\<lambda>iv. map (under (Index (fst iv))) (F (snd iv))) (zip [0..<length (as_array (value_at kvs k))] (as_array (value_at kvs k))))))"
proof (cases "value_at kvs k")
  case (JArray vs)
  have "fields_ok (JArray vs) (concat (map (\<lambda>iv. map (under (Index (fst iv))) (F (snd iv))) (zip [0..<length vs] vs)))"
    by (intro fields_of_array block_ok_under assms)
  then show ?thesis by (intro fields_ok_key) (simp add: JArray as_array_def)
qed (simp_all add: as_array_def no_fields_ok)

lemma fields_ok_append:
  assumes "fields_ok v fs" "fields_ok v gs" "\<And>f g. f \<in> set fs \<Longrightarrow> g \<in> set gs \<Longrightarrow> apart_paths (tf_path f) (tf_path g)"
  shows "fields_ok v (fs @ gs)"
  using assms by (auto simp: fields_ok_def sorted_wrt_append)

lemma fields_ok_keys:
  assumes "fields_ok (JObject kvs) fs" "fields_ok (JObject kvs) gs"
    "\<And>f. f \<in> set fs \<Longrightarrow> \<exists>k \<in> ks. \<exists>p. tf_path f = Key k # p" "\<And>g. g \<in> set gs \<Longrightarrow> \<exists>k. k \<notin> ks \<and> (\<exists>p. tf_path g = Key k # p)"
  shows "fields_ok (JObject kvs) (fs @ gs)"
  using assms by (intro fields_ok_append) fastforce+

lemma redactFields_fst: "fst (redactFields flds spans v) = (\<exists>s \<in> set spans. span_part s \<ge> 0 \<and> span_part s < int (length flds))"
  by (simp add: redactFields_def)

lemma redactFields_unchanged: "\<not> fst (redactFields flds spans v) \<Longrightarrow> snd (redactFields flds spans v) = v"
proof -
  assume none: "\<not> fst (redactFields flds spans v)"
  have "spans_of_part (length flds) i spans = []" for i
    using none by (auto simp: redactFields_def spans_of_part_def filter_empty_conv)
  then have "apply_redactions flds spans is v = v" for "is" by (induction "is") (simp_all add: Let_def)
  then show ?thesis by (simp add: redactFields_def)
qed

text \<open>What the written-back payload holds, in one fact: every field its redacted text, and the rest as it was.\<close>

definition redacted_payload_of :: "text_field list \<Rightarrow> span list \<Rightarrow> json \<Rightarrow> json \<Rightarrow> bool" where
  "redacted_payload_of flds spans v v' =
     ((\<forall>i < length flds. get_at (tf_path (flds ! i)) v = Some (JString (tf_text (flds ! i)))
         \<and> get_at (tf_path (flds ! i)) v' = Some (JString (field_after flds spans i)))
      \<and> (\<forall>q. (\<forall>f \<in> set flds. apart_paths (tf_path f) q) \<longrightarrow> get_at q v' = get_at q v))"

lemma redacted_payload_of_fields:
  "fields_ok v flds \<Longrightarrow> redacted_payload_of flds spans v (snd (redactFields flds spans v))"
  using redactFields_get [of v flds] by (simp add: redacted_payload_of_def fields_ok_def)

end
