(* ===== verification/Policy.thy ===== *)
theory Policy
  imports Spans
begin

text \<open>
  \<open>internal/policy\<close>: the rule table (\<open>policy.go\<close>), its loader (\<open>load.go\<close>), rule matching
  (\<open>match.go\<close>) and the evaluator (\<open>evaluator.go\<close>). Optional YAML fields are pointers in the code
  and options here. The YAML decoder and SHA-256 are parameters.
\<close>

section \<open>The rule table\<close>

type_synonym on_error = string

definition FailClosed :: on_error where [go_consts]: "FailClosed = ''fail_closed''"
definition FailOpen :: on_error where [go_consts]: "FailOpen = ''fail_open''"

definition OnError_Action :: "on_error \<Rightarrow> action" where
  "OnError_Action e = (if e = FailOpen then ActionAllow else ActionBlock)"

record condition =
  c_detector :: "string list"
  c_score_gte :: "float64 option"
  c_type_in :: "string list"
  c_tool :: string
  c_session_tainted :: "bool option"
  c_pin_changed :: "bool option"

record rule =
  ru_surface :: "string list"
  ru_when :: condition
  ru_action :: action
  ru_taint_session :: bool

record policy =
  pol_tenant :: string
  pol_on_error :: on_error
  pol_rules :: "rule list"
  pol_version :: string

fun list_Contains :: "string list \<Rightarrow> string \<Rightarrow> bool" where
  "list_Contains [] s = False"
| "list_Contains (v # l) s = (if v = s then True else list_Contains l s)"

text \<open>A YAML node, by its kind: what \<open>value.Decode\<close> returns on it, or the line of any other kind.\<close>

datatype yaml_node = ScalarNode "string result" | SequenceNode "string list result" | OtherNode nat

fun StringList_UnmarshalYAML :: "yaml_node \<Rightarrow> string list result" where
  "StringList_UnmarshalYAML (ScalarNode d) = (case d of Inl err \<Rightarrow> Inl err | Inr s \<Rightarrow> Inr [s])"
| "StringList_UnmarshalYAML (SequenceNode d) = (case d of Inl err \<Rightarrow> Inl err | Inr ss \<Rightarrow> Inr ss)"
| "StringList_UnmarshalYAML (OtherNode line) =
     Inl (ErrorText (''policy: line '' @ go_itoa line @ '': expected a string or a list of strings''))"

section \<open>Loading\<close>

definition Default_policy :: policy where
  "Default_policy = \<lparr>pol_tenant = [], pol_on_error = FailClosed, pol_rules = [], pol_version = ''default''\<rparr>"

text \<open>\<open>decode\<close> is yaml.v3's decoder with \<open>KnownFields\<close>, \<open>sha256\<close> the hex digest.\<close>

definition Parse :: "(string \<Rightarrow> policy result) \<Rightarrow> (string \<Rightarrow> string) \<Rightarrow> string \<Rightarrow> policy result" where
  "Parse decode sha256 data =
     (case decode data of
        Inl err \<Rightarrow> Inl (Wrap ''policy: parse'' err)
      | Inr p \<Rightarrow>
          let p = (if pol_on_error p = [] then p\<lparr>pol_on_error := FailClosed\<rparr> else p) in
          Inr (p\<lparr>pol_version := take 12 (sha256 data)\<rparr>))"

definition LoadFile ::
  "(string \<Rightarrow> string result) \<Rightarrow> (string \<Rightarrow> policy result) \<Rightarrow> (string \<Rightarrow> string) \<Rightarrow> string \<Rightarrow> policy result" where
  "LoadFile read_file decode sha256 path =
     (case read_file path of
        Inl err \<Rightarrow> Inl (Wrap (''policy: read '' @ path) err)
      | Inr data \<Rightarrow> Parse decode sha256 data)"

section \<open>Matching\<close>

definition matchesSurface :: "rule \<Rightarrow> surface \<Rightarrow> bool" where
  "matchesSurface r s = (length (ru_surface r) = 0 \<or> list_Contains (ru_surface r) s)"

definition selectsFindings :: "condition \<Rightarrow> bool" where
  "selectsFindings c = (length (c_detector c) > 0 \<or> length (c_type_in c) > 0 \<or> c_score_gte c \<noteq> None)"

definition matchesRequest :: "condition \<Rightarrow> eval_input \<Rightarrow> bool" where
  "matchesRequest c inp =
     (if c_tool c \<noteq> [] \<and> c_tool c \<noteq> r_source (ei_request inp) then False
      else if c_session_tainted c \<noteq> None \<and> the (c_session_tainted c) \<noteq> ei_session_tainted inp then False
      else if c_pin_changed c \<noteq> None \<and> the (c_pin_changed c) \<noteq> ei_pin_changed inp then False
      else True)"

definition matchesFinding :: "condition \<Rightarrow> finding \<Rightarrow> bool" where
  "matchesFinding c f =
     (if length (c_detector c) > 0 \<and> \<not> list_Contains (c_detector c) (f_detector f) then False
      else if length (c_type_in c) > 0 \<and> \<not> list_Contains (c_type_in c) (f_type f) then False
      else if c_score_gte c \<noteq> None \<and> less_than_float64 (f_score f) (the (c_score_gte c)) then False
      else True)"

definition spansOf :: "finding list \<Rightarrow> span list" where
  "spansOf findings = (if length findings = 0 then [] else map f_span findings)"

fun matching_spans :: "condition \<Rightarrow> finding list \<Rightarrow> span list" where
  "matching_spans c [] = []"
| "matching_spans c (f # fs) =
     (if matchesFinding c f then f_span f # matching_spans c fs else matching_spans c fs)"

definition rule_match :: "rule \<Rightarrow> eval_input \<Rightarrow> bool \<times> span list" where
  "rule_match r inp =
     (if \<not> matchesSurface r (r_surface (ei_request inp)) \<or> \<not> matchesRequest (ru_when r) inp then (False, [])
      else if \<not> selectsFindings (ru_when r) then (True, spansOf (ei_findings inp))
      else let spans = matching_spans (ru_when r) (ei_findings inp) in (length spans > 0, spans))"

section \<open>The evaluator\<close>

fun evaluate_loop :: "eval_input \<Rightarrow> rule list \<Rightarrow> action list \<Rightarrow> decision \<Rightarrow> action list \<times> decision" where
  "evaluate_loop inp [] actions d = (actions, d)"
| "evaluate_loop inp (r # rs) actions d =
     (let (matched, spans) = rule_match r inp in
      if \<not> matched then evaluate_loop inp rs actions d
      else
        let d = (if ru_taint_session r then d\<lparr>d_taint_session := True\<rparr> else d);
            d = (if ru_action r = ActionRedact then d\<lparr>d_redactions := d_redactions d @ spans\<rparr> else d)
        in evaluate_loop inp rs (actions @ [ru_action r]) d)"

definition Evaluate :: "policy \<Rightarrow> eval_input \<Rightarrow> decision" where
  "Evaluate p inp =
     (let d = \<lparr>d_action = ActionAllow, d_taint_session = False, d_redactions = [], d_policy_version = pol_version p\<rparr>;
          (actions, d) = evaluate_loop inp (pol_rules p) [] d
      in d\<lparr>d_action := MostSevere actions\<rparr>)"

definition Policy_OnError :: "policy \<Rightarrow> decision" where
  "Policy_OnError p = \<lparr>d_action = OnError_Action (pol_on_error p), d_taint_session = False, d_redactions = [],
     d_policy_version = pol_version p\<rparr>"

definition NewEvaluator :: "policy option \<Rightarrow> policy" where
  "NewEvaluator p = (case p of None \<Rightarrow> Default_policy | Some p \<Rightarrow> p)"

section \<open>Facts on matching\<close>

lemma list_Contains_iff [simp]: "list_Contains l s \<longleftrightarrow> s \<in> set l"
  by (induction l) auto

lemma matching_spans_eq [simp]: "matching_spans c fs = map f_span (filter (matchesFinding c) fs)"
  by (induction fs) auto

lemma spansOf_eq [simp]: "spansOf fs = map f_span fs"
  by (simp add: spansOf_def)

definition rule_hit :: "eval_input \<Rightarrow> rule \<Rightarrow> bool" where
  "rule_hit inp r = fst (rule_match r inp)"

definition rule_findings :: "rule \<Rightarrow> finding list \<Rightarrow> finding list" where
  "rule_findings r fs = (if selectsFindings (ru_when r) then filter (matchesFinding (ru_when r)) fs else fs)"

lemma rule_hit_iff:
  "rule_hit inp r \<longleftrightarrow> matchesSurface r (r_surface (ei_request inp)) \<and> matchesRequest (ru_when r) inp
     \<and> (selectsFindings (ru_when r) \<longrightarrow> (\<exists>f \<in> set (ei_findings inp). matchesFinding (ru_when r) f))"
  by (auto simp: rule_hit_def rule_match_def Let_def filter_empty_conv)

lemma rule_match_spans:
  "rule_hit inp r \<Longrightarrow> snd (rule_match r inp) = map f_span (rule_findings r (ei_findings inp))"
  by (auto simp: rule_hit_def rule_match_def rule_findings_def Let_def split: if_splits)

lemma matchesRequest_cong:
  "ei_request a = ei_request b \<Longrightarrow> ei_session_tainted a = ei_session_tainted b \<Longrightarrow>
   ei_pin_changed a = ei_pin_changed b \<Longrightarrow> matchesRequest c a = matchesRequest c b"
  by (simp add: matchesRequest_def)

lemma rule_hit_mono:
  assumes "ei_request a = ei_request b" "ei_session_tainted a = ei_session_tainted b"
    "ei_pin_changed a = ei_pin_changed b" "set (ei_findings a) \<subseteq> set (ei_findings b)" "rule_hit a r"
  shows "rule_hit b r"
  using assms(5) matchesRequest_cong [OF assms(1-3)] assms(1,4) by (auto simp: rule_hit_iff)

section \<open>The evaluator as one equation\<close>

lemma evaluate_loop_eq:
  "evaluate_loop inp rs actions d =
     (actions @ map ru_action (filter (rule_hit inp) rs),
      d\<lparr>d_taint_session := d_taint_session d \<or> (\<exists>r \<in> set rs. rule_hit inp r \<and> ru_taint_session r),
        d_redactions := d_redactions d @ concat (map (\<lambda>r. map f_span (rule_findings r (ei_findings inp)))
          (filter (\<lambda>r. rule_hit inp r \<and> ru_action r = ActionRedact) rs))\<rparr>)"
proof (induction rs arbitrary: actions d)
  case (Cons r rs)
  obtain m sp where m: "rule_match r inp = (m, sp)" by fastforce
  then have hit: "m = rule_hit inp r" by (simp add: rule_hit_def)
  show ?case
  proof (cases m)
    case True
    then have "rule_hit inp r" "sp = map f_span (rule_findings r (ei_findings inp))"
      using rule_match_spans [of inp r] m hit by simp_all
    with True show ?thesis by (simp add: Cons.IH m Let_def)
  next
    case False
    with hit have "\<not> rule_hit inp r" by simp
    with False show ?thesis by (simp add: Cons.IH m)
  qed
qed simp

lemma Evaluate_action: "d_action (Evaluate p inp) = MostSevere (map ru_action (filter (rule_hit inp) (pol_rules p)))"
  by (simp add: Evaluate_def evaluate_loop_eq Let_def)

lemma Evaluate_taint: "d_taint_session (Evaluate p inp) = (\<exists>r \<in> set (pol_rules p). rule_hit inp r \<and> ru_taint_session r)"
  by (simp add: Evaluate_def evaluate_loop_eq Let_def)

lemma Evaluate_redactions:
  "d_redactions (Evaluate p inp) = concat (map (\<lambda>r. map f_span (rule_findings r (ei_findings inp)))
     (filter (\<lambda>r. rule_hit inp r \<and> ru_action r = ActionRedact) (pol_rules p)))"
  by (simp add: Evaluate_def evaluate_loop_eq Let_def)

lemma Evaluate_version: "d_policy_version (Evaluate p inp) = pol_version p"
  by (simp add: Evaluate_def evaluate_loop_eq Let_def)

lemmas Evaluate_simps = Evaluate_action Evaluate_taint Evaluate_redactions Evaluate_version

lemma rule_findings_subset: "set (rule_findings r fs) \<subseteq> set fs"
  by (auto simp: rule_findings_def)

lemma Evaluate_redactions_subset: "set (d_redactions (Evaluate p inp)) \<subseteq> f_span ` set (ei_findings inp)"
  using rule_findings_subset by (fastforce simp: Evaluate_redactions)

lemma OnError_Action_block: "e \<noteq> FailOpen \<Longrightarrow> OnError_Action e = ActionBlock"
  by (simp add: OnError_Action_def)

section \<open>Properties\<close>

text \<open>C28: evaluating a policy allows, flags, redacts or blocks by the most severe action among the
  rules that match the hop; it taints exactly when a matching rule says so; and its redactions are
  the spans of exactly the findings that a matching redact rule selects, which are all findings of the
  hop when the rule has no finding predicate.\<close>

theorem evaluate_decides:
  "Severity (d_action (Evaluate p inp)) = Max (insert 0 (Severity ` ru_action ` {r \<in> set (pol_rules p). rule_hit inp r}))
   \<and> (d_taint_session (Evaluate p inp) \<longleftrightarrow> (\<exists>r \<in> set (pol_rules p). rule_hit inp r \<and> ru_taint_session r))
   \<and> set (d_redactions (Evaluate p inp)) =
       {f_span f | f r. r \<in> set (pol_rules p) \<and> rule_hit inp r \<and> ru_action r = ActionRedact
          \<and> f \<in> set (rule_findings r (ei_findings inp))}"
  by (auto simp: Evaluate_simps MostSevere_Severity image_image)

text \<open>More findings never make the decision less severe and never lift a taint.\<close>

theorem evaluate_monotone:
  assumes "ei_request a = ei_request b" "ei_session_tainted a = ei_session_tainted b"
    "ei_pin_changed a = ei_pin_changed b" "set (ei_findings a) \<subseteq> set (ei_findings b)"
  shows "Severity (d_action (Evaluate p a)) \<le> Severity (d_action (Evaluate p b))
    \<and> (d_taint_session (Evaluate p a) \<longrightarrow> d_taint_session (Evaluate p b))"
  using rule_hit_mono [OF assms] by (auto simp: Evaluate_simps intro!: MostSevere_mono)

definition finding_at :: "string \<Rightarrow> string \<Rightarrow> rat \<Rightarrow> finding" where
  "finding_at d t x = \<lparr>f_detector = d, f_type = t, f_span = \<lparr>span_part = 0, span_start = 0, span_end = 4\<rparr>, f_score = x\<rparr>"

definition any_condition :: condition where
  "any_condition = \<lparr>c_detector = [], c_score_gte = None, c_type_in = [], c_tool = [], c_session_tainted = None,
     c_pin_changed = None\<rparr>"

definition redact_rule :: rule where
  "redact_rule = \<lparr>ru_surface = [SurfaceInput], ru_when = any_condition\<lparr>c_type_in := [''card'']\<rparr>,
     ru_action = ActionRedact, ru_taint_session = False\<rparr>"

definition block_rule :: rule where
  "block_rule = \<lparr>ru_surface = [], ru_when = any_condition\<lparr>c_detector := [''injection_ml''], c_score_gte := Some (Finite (9 / 10))\<rparr>,
     ru_action = ActionBlock, ru_taint_session = True\<rparr>"

definition sample_policy :: "rule list \<Rightarrow> policy" where
  "sample_policy rs = \<lparr>pol_tenant = ''acme'', pol_on_error = FailClosed, pol_rules = rs, pol_version = ''v1''\<rparr>"

definition sample_input :: "finding list \<Rightarrow> eval_input" where
  "sample_input fs = \<lparr>ei_request = zero_request\<lparr>r_surface := SurfaceInput\<rparr>, ei_findings = fs,
     ei_session_tainted = False, ei_pin_changed = False\<rparr>"

lemmas sample_defs = sample_input_def sample_policy_def redact_rule_def block_rule_def any_condition_def
  finding_at_def zero_request_def

lemmas matching_defs = rule_hit_def rule_match_def matchesSurface_def matchesRequest_def matchesFinding_def
  selectsFindings_def rule_findings_def

theorem evaluate_monotone_witness:
  "Severity (d_action (Evaluate (sample_policy [redact_rule, block_rule]) (sample_input [finding_at ''pii'' ''card'' 1])))
     \<le> Severity (d_action (Evaluate (sample_policy [redact_rule, block_rule])
          (sample_input [finding_at ''pii'' ''card'' 1, finding_at ''injection_ml'' ''jailbreak'' (19 / 20)])))
   \<and> d_action (Evaluate (sample_policy [redact_rule, block_rule]) (sample_input [finding_at ''pii'' ''card'' 1])) = ActionRedact
   \<and> d_action (Evaluate (sample_policy [redact_rule, block_rule])
          (sample_input [finding_at ''pii'' ''card'' 1, finding_at ''injection_ml'' ''jailbreak'' (19 / 20)])) = ActionBlock"
  using evaluate_monotone [of "sample_input [finding_at ''pii'' ''card'' 1]"
      "sample_input [finding_at ''pii'' ''card'' 1, finding_at ''injection_ml'' ''jailbreak'' (19 / 20)]"
      "sample_policy [redact_rule, block_rule]"]
  by (simp add: Evaluate_simps sample_defs matching_defs MostSevere_def)

text \<open>The order of the rules does not matter: a permuted rule table gives the same action, the
  same taint and the same merged redactions.\<close>

theorem evaluate_rule_order:
  assumes "mset (pol_rules p) = mset (pol_rules q)"
  shows "d_action (Evaluate p inp) = d_action (Evaluate q inp)
    \<and> d_taint_session (Evaluate p inp) = d_taint_session (Evaluate q inp)
    \<and> MergeSpans (d_redactions (Evaluate p inp)) = MergeSpans (d_redactions (Evaluate q inp))"
proof -
  have st: "set (pol_rules p) = set (pol_rules q)" using assms by (metis set_mset_mset)
  have "Severity (d_action (Evaluate p inp)) = Severity (d_action (Evaluate q inp))"
    by (simp add: Evaluate_action MostSevere_Severity st)
  then have act: "d_action (Evaluate p inp) = d_action (Evaluate q inp)"
    unfolding Evaluate_action by (rule MostSevere_eqI)
  have mc: "mset (concat (map g (filter P xs))) = (\<Sum>x \<in># filter_mset P (mset xs). mset (g x))"
    for g :: "rule \<Rightarrow> span list" and P xs
    by (induction xs) auto
  have "mset (d_redactions (Evaluate p inp)) = mset (d_redactions (Evaluate q inp))"
    unfolding Evaluate_redactions mc assms ..
  then have "MergeSpans (d_redactions (Evaluate p inp)) = MergeSpans (d_redactions (Evaluate q inp))"
    by (rule MergeSpans_permutation)
  with act show ?thesis by (simp add: Evaluate_taint st)
qed

theorem evaluate_rule_order_witness:
  "d_action (Evaluate (sample_policy [redact_rule, block_rule]) (sample_input [finding_at ''pii'' ''card'' 1]))
     = d_action (Evaluate (sample_policy [block_rule, redact_rule]) (sample_input [finding_at ''pii'' ''card'' 1]))
   \<and> redact_rule \<noteq> block_rule"
proof -
  have "mset (pol_rules (sample_policy [redact_rule, block_rule])) = mset (pol_rules (sample_policy [block_rule, redact_rule]))"
    by (simp add: sample_policy_def)
  from evaluate_rule_order [OF this, of "sample_input [finding_at ''pii'' ''card'' 1]"]
  show ?thesis by (simp add: redact_rule_def block_rule_def go_consts)
qed

text \<open>A rule whose action is not one of the four known ones never changes the action the hop gets,
  whatever it matches: a misspelled \<open>block\<close> silently lets the hop through.\<close>

theorem evaluate_unknown_action:
  assumes "ru_action r \<notin> {ActionAllow, ActionFlag, ActionRedact, ActionBlock}"
  shows "d_action (Evaluate (p\<lparr>pol_rules := rs @ r # rs'\<rparr>) inp) = d_action (Evaluate (p\<lparr>pol_rules := rs @ rs'\<rparr>) inp)"
proof -
  have neg: "Severity (ru_action r) = -1" using assms by (simp add: Severity_def)
  have "Max (insert 0 (Severity ` set (as @ ru_action r # bs))) = Max (insert 0 (Severity ` set (as @ bs)))" for as bs
  proof -
    let ?S = "Severity ` set (as @ bs)"
    have "Max (insert 0 (Severity ` set (as @ ru_action r # bs))) = Max (insert (-1) (insert 0 ?S))"
      using neg by (simp add: insert_commute)
    also have "\<dots> = max (-1) (Max (insert 0 ?S))" by (subst Max_insert) auto
    also have "\<dots> = Max (insert 0 ?S)"
    proof -
      have "(0 :: int) \<le> Max (insert 0 ?S)" by (rule Max_ge) auto
      then show ?thesis by linarith
    qed
    finally show ?thesis .
  qed
  then show ?thesis
    by (auto simp: Evaluate_action intro!: MostSevere_eqI simp del: set_append list.set
        simp: MostSevere_Severity)
qed

theorem evaluate_unknown_action_witness:
  "d_action (Evaluate (sample_policy [redact_rule\<lparr>ru_action := ''blok''\<rparr>]) (sample_input [finding_at ''pii'' ''card'' 1])) = ActionAllow
   \<and> rule_hit (sample_input [finding_at ''pii'' ''card'' 1]) (redact_rule\<lparr>ru_action := ''blok''\<rparr>)"
proof -
  have "ru_action (redact_rule\<lparr>ru_action := ''blok''\<rparr>) \<notin> {ActionAllow, ActionFlag, ActionRedact, ActionBlock}"
    by (simp add: go_consts)
  from evaluate_unknown_action [OF this, of "[]" "[]" "sample_policy []" "sample_input [finding_at ''pii'' ''card'' 1]"]
  show ?thesis by (simp add: Evaluate_simps sample_defs matching_defs MostSevere_def)
qed

text \<open>A policy that loads fails closed unless its bundle says \<open>fail_open\<close> literally: a missing or
  misspelled \<open>on_error\<close> blocks, and so does the default policy.\<close>

theorem loaded_policy_fails_closed:
  assumes "LoadFile read_file decode sha256 path = Inr p"
  shows "(d_action (Policy_OnError p) = ActionAllow
      \<longleftrightarrow> (\<exists>data q. read_file path = Inr data \<and> decode data = Inr q \<and> pol_on_error q = FailOpen))
    \<and> d_action (Policy_OnError p) \<in> {ActionAllow, ActionBlock}
    \<and> \<not> d_taint_session (Policy_OnError p) \<and> d_redactions (Policy_OnError p) = []
    \<and> d_action (Policy_OnError (NewEvaluator None)) = ActionBlock"
  using assms
  by (auto simp: LoadFile_def Parse_def Policy_OnError_def OnError_Action_def NewEvaluator_def Default_policy_def
      go_consts Let_def split: sum.splits if_splits)

theorem loaded_policy_fails_closed_witness:
  "d_action (Policy_OnError ((sample_policy [])\<lparr>pol_on_error := ''fail-open'', pol_version := ''e3b0c44298fc''\<rparr>)) = ActionBlock"
proof -
  let ?decode = "\<lambda>_. Inr ((sample_policy [])\<lparr>pol_on_error := ''fail-open''\<rparr>) :: policy result"
  have "LoadFile (\<lambda>_. Inr ''on_error: fail-open'') ?decode (\<lambda>_. ''e3b0c44298fc1c149afb'') ''policy.yaml''
      = Inr ((sample_policy [])\<lparr>pol_on_error := ''fail-open'', pol_version := ''e3b0c44298fc''\<rparr>)"
    by (simp add: LoadFile_def Parse_def sample_policy_def Let_def)
  from loaded_policy_fails_closed [OF this] show ?thesis by (auto simp: go_consts sample_policy_def)
qed

end
