(* ===== verification/Detect_Names.thy ===== *)
theory Detect_Names
  imports Core_Types
begin

text \<open>
  \<open>internal/detect/names.go\<close>: the names of the detectors and the types of their findings, which
  the policy rules refer to.
\<close>

section \<open>Detectors\<close>

definition DetectorPII :: string where [go_consts]: "DetectorPII = ''pii''"
definition DetectorSecrets :: string where [go_consts]: "DetectorSecrets = ''secrets''"
definition DetectorCustomDict :: string where [go_consts]: "DetectorCustomDict = ''custom_dict''"
definition DetectorInjectionHeuristic :: string where
  [go_consts]: "DetectorInjectionHeuristic = ''injection_heuristic''"
definition DetectorInjectionML :: string where [go_consts]: "DetectorInjectionML = ''injection_ml''"
definition DetectorExfilURL :: string where [go_consts]: "DetectorExfilURL = ''exfil_url''"

section \<open>Finding types\<close>

definition TypeAadhaar :: string where [go_consts]: "TypeAadhaar = ''aadhaar''"
definition TypePAN :: string where [go_consts]: "TypePAN = ''pan''"
definition TypeUPIVPA :: string where [go_consts]: "TypeUPIVPA = ''upi_vpa''"
definition TypeIFSC :: string where [go_consts]: "TypeIFSC = ''ifsc''"
definition TypeBankAccount :: string where [go_consts]: "TypeBankAccount = ''bank_account''"
definition TypeIndianMobile :: string where [go_consts]: "TypeIndianMobile = ''indian_mobile''"
definition TypeIndianPassport :: string where [go_consts]: "TypeIndianPassport = ''indian_passport''"
definition TypeGSTIN :: string where [go_consts]: "TypeGSTIN = ''gstin''"
definition TypeCard :: string where [go_consts]: "TypeCard = ''card''"
definition TypeEmail :: string where [go_consts]: "TypeEmail = ''email''"
definition TypeAWSKey :: string where [go_consts]: "TypeAWSKey = ''aws_key''"
definition TypeGitHubToken :: string where [go_consts]: "TypeGitHubToken = ''github_token''"
definition TypeSlackToken :: string where [go_consts]: "TypeSlackToken = ''slack_token''"
definition TypeOpenAIKey :: string where [go_consts]: "TypeOpenAIKey = ''openai_key''"
definition TypeHighEntropy :: string where [go_consts]: "TypeHighEntropy = ''high_entropy''"
definition TypeInstructionOverride :: string where [go_consts]: "TypeInstructionOverride = ''instruction_override''"
definition TypeRoleSpoof :: string where [go_consts]: "TypeRoleSpoof = ''role_spoof''"
definition TypeHiddenText :: string where [go_consts]: "TypeHiddenText = ''hidden_text''"
definition TypeEncodedPayload :: string where [go_consts]: "TypeEncodedPayload = ''encoded_payload''"
definition TypeDataBearingURL :: string where [go_consts]: "TypeDataBearingURL = ''data_bearing_url''"
definition TypeMarkdownImage :: string where [go_consts]: "TypeMarkdownImage = ''markdown_image''"
definition TypeDisallowedDomain :: string where [go_consts]: "TypeDisallowedDomain = ''disallowed_domain''"
definition TypeCustomTerm :: string where [go_consts]: "TypeCustomTerm = ''custom_term''"

end
