(* ===== verification/Detect.thy ===== *)
theory Detect
  imports Spans Detect_Names
begin

text \<open>
  \<open>internal/detect\<close>: the detector contract and the registry (\<open>detect.go\<close>), the no-op detector (\<open>noop.go\<close>) and the suppression of contained findings
  (\<open>pii.go\<close>). A Go call that returns findings and an error returns both here, as a pair.
\<close>

section \<open>The registry\<close>

record detector =
  det_Name :: string
  det_Detect :: "request \<Rightarrow> finding list \<times> go_error option"

definition Noop :: detector where
  "Noop = \<lparr>det_Name = ''noop'', det_Detect = (\<lambda>_. ([], None))\<rparr>"

record registry =
  reg_byName :: "string \<rightharpoonup> detector"
  reg_order :: "detector list"

definition empty_registry :: registry where
  "empty_registry = \<lparr>reg_byName = Map.empty, reg_order = []\<rparr>"

definition Register :: "registry \<Rightarrow> detector \<Rightarrow> registry result" where
  "Register r d =
     (let name = det_Name d in
      if reg_byName r name \<noteq> None then
        Inl (ErrorText (''detect: duplicate detector '' @ go_quote name))
      else Inr (r\<lparr>reg_byName := (reg_byName r)(name \<mapsto> d), reg_order := reg_order r @ [d]\<rparr>))"

fun register_all :: "registry \<Rightarrow> detector list \<Rightarrow> registry result" where
  "register_all r [] = Inr r"
| "register_all r (d # ds) = (case Register r d of Inl err \<Rightarrow> Inl err | Inr r \<Rightarrow> register_all r ds)"

definition NewRegistry :: "detector list \<Rightarrow> registry result" where
  "NewRegistry ds = register_all empty_registry ds"

definition Names :: "registry \<Rightarrow> string list" where
  "Names r = map det_Name (reg_order r)"

definition Registry_one :: "detector \<Rightarrow> request \<Rightarrow> finding list \<times> go_error option" where
  "Registry_one d req =
     (case det_Detect d req of
        (got, Some err) \<Rightarrow> ([], Some (Wrap (''detect '' @ det_Name d) err))
      | (got, None) \<Rightarrow> (map (\<lambda>f. if f_detector f = [] then f\<lparr>f_detector := det_Name d\<rparr> else f) got, None))"

text \<open>
  One goroutine per detector: goroutine \<open>i\<close> writes slot \<open>i\<close> of \<open>results\<close> and \<open>errs\<close> when it finishes.
  A schedule lists the indices in the order the goroutines finish; \<open>wg.Wait\<close> returns when each
  has run once.
\<close>

fun run_goroutines ::
  "detector list \<Rightarrow> request \<Rightarrow> nat list \<Rightarrow> (finding list \<times> go_error option) list \<Rightarrow> (finding list \<times> go_error option) list" where
  "run_goroutines ds req [] slots = slots"
| "run_goroutines ds req (i # sched) slots =
     run_goroutines ds req sched (slots[i := Registry_one (ds ! i) req])"

fun collect_results :: "(finding list \<times> go_error option) list \<Rightarrow> finding list \<Rightarrow> finding list \<times> go_error option" where
  "collect_results [] findings = (findings, None)"
| "collect_results ((got, err) # slots) findings =
     (if err \<noteq> None then ([], err) else collect_results slots (findings @ got))"

definition Registry_Detect_scheduled :: "nat list \<Rightarrow> registry \<Rightarrow> request \<Rightarrow> finding list \<times> go_error option" where
  "Registry_Detect_scheduled sched r req =
     (if length (reg_order r) = 0 then ([], None)
      else if length (reg_order r) = 1 then Registry_one (reg_order r ! 0) req
      else
        collect_results
          (run_goroutines (reg_order r) req sched (replicate (length (reg_order r)) ([], None))) [])"

text \<open>The detector set the pipeline gets: by \<open>registry_schedule_independent\<close> any schedule will do.\<close>

definition Registry_Detect :: "registry \<Rightarrow> request \<Rightarrow> finding list \<times> go_error option" where
  "Registry_Detect r req = Registry_Detect_scheduled [0..<length (reg_order r)] r req"

section \<open>Suppressing contained findings\<close>

definition suppress_key :: "finding \<Rightarrow> int \<times> int \<times> int \<times> rat" where
  "suppress_key f =
     (span_part (f_span f), span_start (f_span f), - span_end (f_span f), - f_score f)"

definition span_within :: "span \<Rightarrow> span \<Rightarrow> bool" where
  "span_within s k = (span_part k = span_part s \<and> span_start k \<le> span_start s \<and> span_end s \<le> span_end k)"

fun suppress_loop :: "finding list \<Rightarrow> finding list \<Rightarrow> finding list" where
  "suppress_loop kept [] = kept"
| "suppress_loop kept (f # fs) =
     (let contained = list_ex (\<lambda>k. span_within (f_span f) (f_span k)) kept in
      if \<not> contained then suppress_loop (kept @ [f]) fs else suppress_loop kept fs)"

definition suppressContained :: "finding list \<Rightarrow> finding list" where
  "suppressContained findings =
     (if length findings < 2 then findings else suppress_loop [] (sort_key suppress_key findings))"

section \<open>Facts on the registry\<close>

definition registry_inv :: "registry \<Rightarrow> bool" where
  "registry_inv r =
     ((\<forall>n. reg_byName r n = None \<longleftrightarrow> n \<notin> det_Name ` set (reg_order r)) \<and> distinct (map det_Name (reg_order r)))"

lemma registry_inv_empty: "registry_inv empty_registry"
  by (simp add: registry_inv_def empty_registry_def)

lemma Register_spec:
  assumes "registry_inv r"
  shows "(case Register r d of
      Inl err \<Rightarrow> det_Name d \<in> det_Name ` set (reg_order r)
    | Inr r' \<Rightarrow> det_Name d \<notin> det_Name ` set (reg_order r) \<and> registry_inv r' \<and> reg_order r' = reg_order r @ [d])"
proof (cases "reg_byName r (det_Name d)")
  case None
  then have "det_Name d \<notin> det_Name ` set (reg_order r)" using assms by (simp add: registry_inv_def)
  with None assms show ?thesis by (auto simp: Register_def registry_inv_def)
next
  case (Some x)
  then have "det_Name d \<in> det_Name ` set (reg_order r)" using assms unfolding registry_inv_def by (metis option.distinct(1))
  with Some show ?thesis by (simp add: Register_def)
qed

lemma register_all_spec:
  assumes "registry_inv r"
  shows "(case register_all r ds of
      Inl err \<Rightarrow> \<not> distinct (map det_Name (reg_order r @ ds))
    | Inr r' \<Rightarrow> registry_inv r' \<and> reg_order r' = reg_order r @ ds)"
  using assms
proof (induction ds arbitrary: r)
  case (Cons d ds)
  note reg = Register_spec [OF Cons.prems, of d]
  show ?case
  proof (cases "Register r d")
    case Inl
    with reg show ?thesis by (auto simp: image_iff)
  next
    case (Inr r')
    with reg have "registry_inv r'" "reg_order r' = reg_order r @ [d]" by simp_all
    with Cons.IH [of r'] Inr show ?thesis by (simp split: sum.splits)
  qed
qed simp

lemma run_goroutines_length: "length (run_goroutines ds req sched slots) = length slots"
  by (induction ds req sched slots rule: run_goroutines.induct) auto

lemma run_goroutines_nth:
  assumes "distinct sched" "set sched \<subseteq> {..<length slots}" "i < length slots"
  shows "run_goroutines ds req sched slots ! i = (if i \<in> set sched then Registry_one (ds ! i) req else slots ! i)"
  using assms
proof (induction ds req sched slots rule: run_goroutines.induct)
  case (2 ds req j sched slots)
  then show ?case by (auto simp: nth_list_update)
qed simp

lemma run_goroutines_all:
  assumes "distinct sched" "set sched = {..<length ds}" "length slots = length ds"
  shows "run_goroutines ds req sched slots = map (\<lambda>d. Registry_one d req) ds"
  by (rule nth_equalityI) (use assms in \<open>simp_all add: run_goroutines_length run_goroutines_nth\<close>)

text \<open>What the detectors report when they are run one after the other.\<close>

definition first_error :: "detector list \<Rightarrow> request \<Rightarrow> go_error option" where
  "first_error ds req = List.find (\<lambda>_. True) (List.map_filter (\<lambda>d. snd (Registry_one d req)) ds)"

definition sequential_detect :: "detector list \<Rightarrow> request \<Rightarrow> finding list \<times> go_error option" where
  "sequential_detect ds req =
     (case first_error ds req of
        Some err \<Rightarrow> ([], Some err)
      | None \<Rightarrow> (concat (map (\<lambda>d. fst (Registry_one d req)) ds), None))"

lemma first_error_Nil [simp]: "first_error [] req = None"
  by (simp add: first_error_def map_filter_simps)

lemma collect_results_eq:
  "collect_results (map (\<lambda>d. Registry_one d req) ds) acc =
     (case first_error ds req of
        Some err \<Rightarrow> ([], Some err)
      | None \<Rightarrow> (acc @ concat (map (\<lambda>d. fst (Registry_one d req)) ds), None))"
proof (induction ds arbitrary: acc)
  case (Cons d ds)
  obtain got err where "Registry_one d req = (got, err)" by fastforce
  then show ?case by (cases err) (auto simp: Cons.IH first_error_def map_filter_simps split: option.splits)
qed (simp add: first_error_def map_filter_simps)

lemma Registry_one_error: "snd (Registry_one d req) \<noteq> None \<Longrightarrow> fst (Registry_one d req) = []"
  by (auto simp: Registry_one_def split: prod.splits option.splits)

lemma Registry_Detect_scheduled_eq:
  assumes "distinct sched" "set sched = {..<length (reg_order r)}"
  shows "Registry_Detect_scheduled sched r req = sequential_detect (reg_order r) req"
proof -
  consider "reg_order r = []" | d where "reg_order r = [d]" | "length (reg_order r) \<ge> 2"
    by (cases "reg_order r"; cases "tl (reg_order r)") auto
  then show ?thesis
  proof cases
    case 1
    then show ?thesis
      by (simp add: Registry_Detect_scheduled_def sequential_detect_def first_error_def map_filter_simps)
  next
    case 2
    then show ?thesis
      using Registry_one_error [of d req]
      by (cases "Registry_one d req")
        (auto simp: Registry_Detect_scheduled_def sequential_detect_def first_error_def map_filter_simps split: option.splits)
  next
    case 3
    then show ?thesis
      using run_goroutines_all [of sched "reg_order r" "replicate (length (reg_order r)) ([], None)" req] assms
      by (simp add: Registry_Detect_scheduled_def collect_results_eq sequential_detect_def split: option.splits)
  qed
qed

lemma Registry_Detect_eq: "Registry_Detect r req = sequential_detect (reg_order r) req"
  unfolding Registry_Detect_def by (rule Registry_Detect_scheduled_eq) (auto simp: atLeast_upt)

lemma Registry_one_spans: "f_span ` set (fst (Registry_one d req)) \<subseteq> f_span ` set (fst (det_Detect d req))"
  by (auto simp: Registry_one_def image_iff split: prod.splits option.splits)

lemma Registry_Detect_spans:
  "f_span ` set (fst (Registry_Detect r req)) \<subseteq> (\<Union>d \<in> set (reg_order r). f_span ` set (fst (det_Detect d req)))"
  using Registry_one_spans
  by (fastforce simp: Registry_Detect_eq sequential_detect_def split: option.splits)

section \<open>Detectors that stay inside the text\<close>

text \<open>
  What the pipeline relies on to map findings back: a detector's spans lie inside the parts it was
  given. Most detectors scan the parts one by one.
\<close>

locale bounded_detector =
  fixes d :: detector
  assumes in_bounds: "f \<in> set (fst (det_Detect d req)) \<Longrightarrow> span_in_parts (r_parts req) (f_span f)"

interpretation noop: bounded_detector Noop
  by unfold_locales (simp add: Noop_def)

lemma registry_bounded:
  "\<forall>d \<in> set (reg_order r). bounded_detector d \<Longrightarrow> f \<in> set (fst (Registry_Detect r req)) \<Longrightarrow>
     span_in_parts (r_parts req) (f_span f)"
  using Registry_Detect_spans [of r req] bounded_detector.in_bounds by fastforce

fun scan_parts :: "(int \<Rightarrow> string \<Rightarrow> finding list) \<Rightarrow> nat \<Rightarrow> part list \<Rightarrow> finding list" where
  "scan_parts scan i [] = []"
| "scan_parts scan i (p # ps) = scan (int i) (p_text p) @ scan_parts scan (i + 1) ps"

definition scan_within :: "(int \<Rightarrow> string \<Rightarrow> finding list) \<Rightarrow> bool" where
  "scan_within scan =
     (\<forall>part body. \<forall>f \<in> set (scan part body). span_part (f_span f) = part \<and> finding_within (int (length body)) f)"

lemma scan_parts_mem:
  "f \<in> set (scan_parts scan i ps) \<Longrightarrow> \<exists>j < length ps. f \<in> set (scan (int (i + j)) (p_text (ps ! j)))"
proof (induction ps arbitrary: i)
  case (Cons p ps)
  show ?case
  proof (cases "f \<in> set (scan (int i) (p_text p))")
    case True
    then show ?thesis by (intro exI [of _ 0]) simp
  next
    case False
    with Cons.prems have "f \<in> set (scan_parts scan (i + 1) ps)" by simp
    from Cons.IH [OF this] obtain j where "j < length ps" "f \<in> set (scan (int (i + 1 + j)) (p_text (ps ! j)))" by blast
    then show ?thesis by (intro exI [of _ "Suc j"]) (simp add: add.assoc)
  qed
qed simp

lemma scan_parts_in_bounds:
  assumes "scan_within scan" "f \<in> set (scan_parts scan 0 ps)"
  shows "span_in_parts ps (f_span f)"
proof -
  obtain j where "j < length ps" "f \<in> set (scan (int j) (p_text (ps ! j)))"
    using scan_parts_mem [OF assms(2)] by auto
  with assms(1) show ?thesis by (auto simp: scan_within_def span_in_parts_def finding_within_def)
qed

section \<open>Facts on suppression\<close>

lemma span_within_refl [simp]: "span_within s s"
  by (simp add: span_within_def)

lemma span_within_trans: "span_within a b \<Longrightarrow> span_within b c \<Longrightarrow> span_within a c"
  by (auto simp: span_within_def)

lemma suppress_loop_Cons:
  "suppress_loop kept (f # fs) =
     suppress_loop (if \<exists>k \<in> set kept. span_within (f_span f) (f_span k) then kept else kept @ [f]) fs"
  by (simp add: Let_def list_ex_iff)

declare suppress_loop.simps(2) [simp del]

lemma suppress_loop_split:
  "\<exists>new. suppress_loop kept fs = kept @ new \<and> set new \<subseteq> set fs"
proof (induction fs arbitrary: kept)
  case (Cons f fs)
  let ?kept = "if \<exists>k \<in> set kept. span_within (f_span f) (f_span k) then kept else kept @ [f]"
  obtain new where new: "suppress_loop ?kept fs = ?kept @ new" "set new \<subseteq> set fs" using Cons.IH by blast
  then show ?case by (cases "?kept = kept") (auto simp: suppress_loop_Cons split: if_splits)
qed simp

lemma suppress_loop_kept: "set kept \<subseteq> set (suppress_loop kept fs)"
  using suppress_loop_split [of kept fs] by auto

lemma suppress_loop_subset: "set (suppress_loop kept fs) \<subseteq> set kept \<union> set fs"
  using suppress_loop_split [of kept fs] by auto

lemma suppress_loop_covers:
  "sorted (map suppress_key (kept @ fs)) \<Longrightarrow> f \<in> set kept \<union> set fs \<Longrightarrow>
     \<exists>k \<in> set (suppress_loop kept fs). span_within (f_span f) (f_span k) \<and> suppress_key k \<le> suppress_key f"
proof (induction fs arbitrary: kept)
  case Nil
  then show ?case by (auto intro!: bexI [of _ f])
next
  case (Cons g fs)
  define kept' where "kept' = (if \<exists>k \<in> set kept. span_within (f_span g) (f_span k) then kept else kept @ [g])"
  have loop: "suppress_loop kept (g # fs) = suppress_loop kept' fs" by (simp add: suppress_loop_Cons kept'_def)
  show ?case
  proof (cases "f \<in> set kept' \<union> set fs")
    case True
    moreover have "sorted (map suppress_key (kept' @ fs))"
      using Cons.prems(1) by (auto simp: kept'_def sorted_append)
    ultimately show ?thesis unfolding loop by (intro Cons.IH)
  next
    case False
    then have "f = g" using Cons.prems(2) by (auto simp: kept'_def split: if_splits)
    with False obtain k where k: "k \<in> set kept" "span_within (f_span f) (f_span k)"
      by (auto simp: kept'_def split: if_splits)
    then have "k \<in> set (suppress_loop kept' fs)"
      using suppress_loop_kept [of kept' fs] by (auto simp: kept'_def split: if_splits)
    moreover have "suppress_key k \<le> suppress_key f"
      using Cons.prems(1) k(1) \<open>f = g\<close> by (simp add: sorted_append)
    ultimately show ?thesis unfolding loop using k(2) by blast
  qed
qed

text \<open>
  On sorted findings whatever contains a finding comes before it, so a kept finding is contained
  in no earlier one and contains no later one that is kept.
\<close>

lemma container_first:
  "span_within (f_span f) (f_span k) \<Longrightarrow> f_span f \<noteq> f_span k \<Longrightarrow> suppress_key k < suppress_key f"
  by (cases "f_span f"; cases "f_span k") (auto simp: span_within_def suppress_key_def less_prod_def)

definition earlier_not_within :: "finding list \<Rightarrow> bool" where
  "earlier_not_within fs = sorted_wrt (\<lambda>k f. \<not> span_within (f_span f) (f_span k)) fs"

lemma suppress_loop_earlier: "earlier_not_within kept \<Longrightarrow> earlier_not_within (suppress_loop kept fs)"
proof (induction fs arbitrary: kept)
  case (Cons f fs)
  then show ?case by (auto simp: suppress_loop_Cons earlier_not_within_def sorted_wrt_append)
qed simp

lemma suppress_loop_sorted:
  "sorted (map suppress_key (kept @ fs)) \<Longrightarrow> sorted (map suppress_key (suppress_loop kept fs))"
proof (induction fs arbitrary: kept)
  case (Cons f fs)
  then show ?case by (auto simp: suppress_loop_Cons sorted_append)
qed simp

definition suppressed :: "finding list \<Rightarrow> finding list" where
  "suppressed fs = suppress_loop [] (sort_key suppress_key fs)"

lemma suppressContained_eq: "suppressContained fs = suppressed fs"
proof (cases "length fs < 2")
  case True
  then consider "fs = []" | f where "fs = [f]" by (cases fs; cases "tl fs") auto
  then show ?thesis by cases (auto simp: suppressContained_def suppressed_def suppress_loop_Cons)
qed (simp add: suppressContained_def suppressed_def)

lemma suppressed_subset: "set (suppressed fs) \<subseteq> set fs"
  using suppress_loop_subset [of "[]" "sort_key suppress_key fs"] by (simp add: suppressed_def)

lemma suppressed_covers:
  "f \<in> set fs \<Longrightarrow>
     \<exists>k \<in> set (suppressed fs). span_within (f_span f) (f_span k) \<and> suppress_key k \<le> suppress_key f"
  using suppress_loop_covers [of "[]" "sort_key suppress_key fs" f] by (simp add: suppressed_def)

lemma suppressed_sorted: "sorted (map suppress_key (suppressed fs))"
  unfolding suppressed_def by (rule suppress_loop_sorted) simp

lemma suppressed_earlier: "earlier_not_within (suppressed fs)"
  unfolding suppressed_def by (rule suppress_loop_earlier) (simp add: earlier_not_within_def)

lemma suppressed_apart:
  assumes "i < length (suppressed fs)" "j < length (suppressed fs)" "i \<noteq> j"
  shows "\<not> span_within (f_span (suppressed fs ! j)) (f_span (suppressed fs ! i))"
proof (cases "i < j")
  case True
  then show ?thesis using suppressed_earlier assms by (simp add: earlier_not_within_def sorted_wrt_iff_nth_less)
next
  case False
  then have ji: "j < i" using assms(3) by simp
  have not: "\<not> span_within (f_span (suppressed fs ! i)) (f_span (suppressed fs ! j))"
    using suppressed_earlier assms ji by (simp add: earlier_not_within_def sorted_wrt_iff_nth_less)
  show ?thesis
  proof
    assume w: "span_within (f_span (suppressed fs ! j)) (f_span (suppressed fs ! i))"
    with not have "f_span (suppressed fs ! j) \<noteq> f_span (suppressed fs ! i)" by auto
    then have "suppress_key (suppressed fs ! i) < suppress_key (suppressed fs ! j)" by (rule container_first [OF w])
    moreover have "suppress_key (suppressed fs ! j) \<le> suppress_key (suppressed fs ! i)"
      using suppressed_sorted [of fs] ji assms(1) by (simp add: sorted_iff_nth_mono)
    ultimately show False by simp
  qed
qed

lemma suppressed_unique:
  assumes "f \<in> set (suppressed fs)" "k \<in> set (suppressed fs)" "span_within (f_span f) (f_span k)"
  shows "f = k"
proof -
  obtain i j where "i < length (suppressed fs)" "f = suppressed fs ! i"
    "j < length (suppressed fs)" "k = suppressed fs ! j"
    using assms(1,2) by (auto simp: in_set_conv_nth)
  with suppressed_apart [of j fs i] assms(3) show ?thesis by (cases "i = j") auto
qed

lemma suppressed_distinct: "distinct (map f_span (suppressed fs))"
  using suppressed_apart [of _ fs] by (auto simp: distinct_conv_nth) (metis span_within_refl)

section \<open>Properties\<close>

text \<open>C33: what the registry reports does not depend on the order in which its goroutines finish: any
  schedule gives the findings of the detectors in registration order, or the error of the first
  detector, in registration order, that failed.\<close>

theorem registry_schedule_independent:
  assumes "distinct sched" "set sched = {..<length (reg_order r)}"
  shows "Registry_Detect_scheduled sched r req =
     (case filter (\<lambda>d. snd (Registry_one d req) \<noteq> None) (reg_order r) of
        d # _ \<Rightarrow> ([], snd (Registry_one d req))
      | [] \<Rightarrow> (concat (map (\<lambda>d. fst (Registry_one d req)) (reg_order r)), None))"
proof -
  have "first_error ds req = (case filter (\<lambda>d. snd (Registry_one d req) \<noteq> None) ds of
      d # _ \<Rightarrow> snd (Registry_one d req) | [] \<Rightarrow> None)" for ds
    by (induction ds) (auto simp: first_error_def map_filter_simps split: option.splits)
  then show ?thesis
    unfolding Registry_Detect_scheduled_eq [OF assms] sequential_detect_def
    by (auto split: option.splits list.splits dest!: filter_eq_ConsD)
qed

definition sample_detector :: "string \<Rightarrow> finding list \<Rightarrow> go_error option \<Rightarrow> detector" where
  "sample_detector n fs err = \<lparr>det_Name = n, det_Detect = (\<lambda>_. (fs, err))\<rparr>"

theorem registry_schedule_independent_witness:
  "Registry_Detect_scheduled [2, 0, 1]
     \<lparr>reg_byName = Map.empty, reg_order = [Noop, sample_detector ''b'' [] (Some (ErrorText ''down'')),
        sample_detector ''c'' [] (Some (ErrorText ''late''))]\<rparr> zero_request
   = ([], Some (Wrap ''detect b'' (ErrorText ''down'')))"
proof -
  let ?r = "\<lparr>reg_byName = Map.empty, reg_order = [Noop, sample_detector ''b'' [] (Some (ErrorText ''down'')),
        sample_detector ''c'' [] (Some (ErrorText ''late''))]\<rparr>"
  have "set [2, 0, 1] = {..<length (reg_order ?r)}" by auto
  from registry_schedule_independent [OF _ this, of zero_request] show ?thesis
    by (simp add: Registry_one_def sample_detector_def Noop_def)
qed

text \<open>A registry is built exactly when the detectors' names are distinct, and then lists them in
  the order given; every finding it reports names a detector when every detector has a name.\<close>

theorem new_registry_names:
  "(case NewRegistry ds of
      Inl err \<Rightarrow> \<not> distinct (map det_Name ds)
    | Inr r \<Rightarrow> distinct (map det_Name ds) \<and> Names r = map det_Name ds
        \<and> ((\<forall>d \<in> set ds. det_Name d \<noteq> []) \<longrightarrow>
            (\<forall>f \<in> set (fst (Registry_Detect r req)). f_detector f \<noteq> [])))"
proof -
  have named: "det_Name d \<noteq> [] \<Longrightarrow> f \<in> set (fst (Registry_one d req)) \<Longrightarrow> f_detector f \<noteq> []" for d f
    by (auto simp: Registry_one_def split: prod.splits option.splits if_splits)
  have "reg_order r = ds \<Longrightarrow> \<forall>d \<in> set ds. det_Name d \<noteq> [] \<Longrightarrow> \<forall>f \<in> set (fst (Registry_Detect r req)). f_detector f \<noteq> []" for r
    using named by (auto simp: Registry_Detect_eq sequential_detect_def split: option.splits)
  then show ?thesis
    using register_all_spec [OF registry_inv_empty, of ds]
    by (auto simp: NewRegistry_def Names_def registry_inv_def empty_registry_def split: sum.splits)
qed

theorem new_registry_names_witness:
  "\<exists>r. NewRegistry [Noop, sample_detector ''b'' [zero_finding] None] = Inr r \<and> Names r = [''noop'', ''b'']
     \<and> (\<forall>f \<in> set (fst (Registry_Detect r zero_request)). f_detector f \<noteq> [])"
  using new_registry_names [of "[Noop, sample_detector ''b'' [zero_finding] None]" zero_request]
  by (auto simp: Noop_def sample_detector_def split: sum.splits)

text \<open>Suppressing contained findings invents nothing, leaves no byte a finding covered uncovered,
  keeps no finding inside another kept one, and, of findings on the same span, keeps one with the
  highest score.\<close>

theorem suppress_contained_correct:
  "set (suppressContained fs) \<subseteq> set fs
   \<and> (\<forall>f \<in> set fs. \<exists>k \<in> set (suppressContained fs). span_within (f_span f) (f_span k)
        \<and> (f_span k = f_span f \<longrightarrow> f_score f \<le> f_score k))
   \<and> distinct (map f_span (suppressContained fs))
   \<and> (\<forall>f \<in> set (suppressContained fs). \<forall>k \<in> set (suppressContained fs).
        span_within (f_span f) (f_span k) \<longrightarrow> f = k)"
proof (intro conjI ballI impI)
  fix f assume "f \<in> set fs"
  from suppressed_covers [OF this] obtain k where k: "k \<in> set (suppressed fs)"
    "span_within (f_span f) (f_span k)" "suppress_key k \<le> suppress_key f" by blast
  then have "f_span k = f_span f \<longrightarrow> f_score f \<le> f_score k" by (auto simp: suppress_key_def)
  with k show "\<exists>k \<in> set (suppressContained fs). span_within (f_span f) (f_span k)
      \<and> (f_span k = f_span f \<longrightarrow> f_score f \<le> f_score k)"
    unfolding suppressContained_eq by blast
qed (auto simp: suppressContained_eq suppressed_distinct suppressed_unique dest: subsetD [OF suppressed_subset])

definition sample_finding :: "int \<Rightarrow> int \<Rightarrow> rat \<Rightarrow> finding" where
  "sample_finding i j sc = zero_finding\<lparr>f_span := \<lparr>span_part = 0, span_start = i, span_end = j\<rparr>, f_score := sc\<rparr>"

theorem suppress_contained_correct_witness:
  "\<exists>k \<in> set (suppressContained [sample_finding 2 5 1, sample_finding 0 9 1, sample_finding 7 12 1]).
     span_within (f_span (sample_finding 2 5 1)) (f_span k)"
  using suppress_contained_correct [of "[sample_finding 2 5 1, sample_finding 0 9 1, sample_finding 7 12 1]"]
  by auto

end
