(* ===== verification/Session.thy ===== *)
theory Session
  imports Core_Types
begin

text \<open>
  \<open>internal/session\<close>: the store of per-session taint, tool pins and blocked tools. \<open>Memory\<close>
  (\<open>session.go\<close>) is the in-process store; its clock function is the field \<open>m_now\<close>, the reading
  that the environment moves between operations (\<open>mem_advance\<close>). \<open>Redis\<close> (\<open>redis.go\<close>) is written
  over the operations of a Redis client, a record of functions. A time is a count of nanoseconds;
  the zero \<open>time.Time\<close>, which the code reads as "no expiry", is \<^const>\<open>None\<close>.
\<close>

section \<open>The interface\<close>

type_synonym time = int

text \<open>The Go interface \<open>Store\<close>: every operation may change the store's state, also when it fails.\<close>

record 's store =
  st_Tainted :: "string \<Rightarrow> 's \<Rightarrow> bool result \<times> 's"
  st_Taint :: "string \<Rightarrow> int \<Rightarrow> 's \<Rightarrow> unit result \<times> 's"
  st_ToolPin :: "string \<Rightarrow> string \<Rightarrow> 's \<Rightarrow> string option result \<times> 's"
  st_PinTool :: "string \<Rightarrow> string \<Rightarrow> string \<Rightarrow> int \<Rightarrow> 's \<Rightarrow> unit result \<times> 's"
  st_ToolBlocked :: "string \<Rightarrow> string \<Rightarrow> 's \<Rightarrow> bool result \<times> 's"
  st_BlockTool :: "string \<Rightarrow> string \<Rightarrow> int \<Rightarrow> 's \<Rightarrow> unit result \<times> 's"

text \<open>
  What a client may rely on. \<open>taint\<close>, \<open>pin\<close> and \<open>blocked\<close> are what the store holds at the
  present moment; an operation that succeeds answers from them or changes exactly its own entry.
  \<open>separate\<close> says of a session name that its keys cannot collide with another session's.
\<close>

locale session_store =
  fixes S :: "'s store"
    and taint :: "'s \<Rightarrow> string \<Rightarrow> bool"
    and pin :: "'s \<Rightarrow> string \<Rightarrow> string \<Rightarrow> string option"
    and blocked :: "'s \<Rightarrow> string \<Rightarrow> string \<Rightarrow> bool"
    and separate :: "string \<Rightarrow> bool"
  assumes Tainted_law: "st_Tainted S s \<sigma> = (Inr b, \<sigma>') \<Longrightarrow>
      b = taint \<sigma> s \<and> taint \<sigma>' = taint \<sigma> \<and> pin \<sigma>' = pin \<sigma> \<and> blocked \<sigma>' = blocked \<sigma>"
    and Taint_law: "st_Taint S s ttl \<sigma> = (Inr u, \<sigma>') \<Longrightarrow>
      taint \<sigma>' = (taint \<sigma>)(s := True) \<and> pin \<sigma>' = pin \<sigma> \<and> blocked \<sigma>' = blocked \<sigma>"
    and ToolPin_law: "st_ToolPin S s t \<sigma> = (Inr h, \<sigma>') \<Longrightarrow>
      h = pin \<sigma> s t \<and> taint \<sigma>' = taint \<sigma> \<and> pin \<sigma>' = pin \<sigma> \<and> blocked \<sigma>' = blocked \<sigma>"
    and PinTool_law: "st_PinTool S s t v ttl \<sigma> = (Inr u, \<sigma>') \<Longrightarrow>
      pin \<sigma>' s t = Some v \<and> taint \<sigma>' = taint \<sigma> \<and> blocked \<sigma>' = blocked \<sigma>
      \<and> (separate s \<and> separate s' \<and> (s', t') \<noteq> (s, t) \<longrightarrow> pin \<sigma>' s' t' = pin \<sigma> s' t')"
    and ToolBlocked_law: "st_ToolBlocked S s t \<sigma> = (Inr b, \<sigma>') \<Longrightarrow>
      b = blocked \<sigma> s t \<and> taint \<sigma>' = taint \<sigma> \<and> pin \<sigma>' = pin \<sigma> \<and> blocked \<sigma>' = blocked \<sigma>"
    and BlockTool_law: "st_BlockTool S s t ttl \<sigma> = (Inr u, \<sigma>') \<Longrightarrow>
      blocked \<sigma>' s t \<and> taint \<sigma>' = taint \<sigma> \<and> pin \<sigma>' = pin \<sigma>
      \<and> (blocked \<sigma> s' t' \<longrightarrow> blocked \<sigma>' s' t')
      \<and> (separate s \<and> separate s' \<and> (s', t') \<noteq> (s, t) \<longrightarrow> blocked \<sigma>' s' t' = blocked \<sigma> s' t')"

section \<open>The in-memory store\<close>

record entry =
  e_value :: string
  e_expires_at :: "time option"

definition entry_live :: "entry \<Rightarrow> time \<Rightarrow> bool" where
  "entry_live e now = (case e_expires_at e of None \<Rightarrow> True | Some t \<Rightarrow> t > now)"

record memory =
  m_now :: time
  m_taint :: "string \<rightharpoonup> entry"
  m_pins :: "string \<rightharpoonup> entry"
  m_blocked :: "string \<rightharpoonup> entry"

definition NewMemory :: "time \<Rightarrow> memory" where
  "NewMemory now = \<lparr>m_now = now, m_taint = Map.empty, m_pins = Map.empty, m_blocked = Map.empty\<rparr>"

definition expiry :: "time \<Rightarrow> int \<Rightarrow> time option" where
  "expiry now ttl = (if ttl \<le> 0 then None else Some (now + ttl))"

definition tool_key :: "string \<Rightarrow> string \<Rightarrow> string" where
  "tool_key session tool = session @ [CHR 0x00] @ tool"

definition Mem_Tainted :: "string \<Rightarrow> memory \<Rightarrow> bool result \<times> memory" where
  "Mem_Tainted session m =
     (case m_taint m session of
        None \<Rightarrow> (Inr False, m)
      | Some e \<Rightarrow>
          if \<not> entry_live e (m_now m) then (Inr False, m\<lparr>m_taint := (m_taint m)(session := None)\<rparr>)
          else (Inr True, m))"

definition Mem_Taint :: "string \<Rightarrow> int \<Rightarrow> memory \<Rightarrow> unit result \<times> memory" where
  "Mem_Taint session ttl m =
     (Inr (), m\<lparr>m_taint := (m_taint m)(session \<mapsto> \<lparr>e_value = [], e_expires_at = expiry (m_now m) ttl\<rparr>)\<rparr>)"

definition Mem_ToolPin :: "string \<Rightarrow> string \<Rightarrow> memory \<Rightarrow> string option result \<times> memory" where
  "Mem_ToolPin session tool m =
     (let k = tool_key session tool in
      case m_pins m k of
        None \<Rightarrow> (Inr None, m)
      | Some e \<Rightarrow>
          if \<not> entry_live e (m_now m) then (Inr None, m\<lparr>m_pins := (m_pins m)(k := None)\<rparr>)
          else (Inr (Some (e_value e)), m))"

definition Mem_PinTool :: "string \<Rightarrow> string \<Rightarrow> string \<Rightarrow> int \<Rightarrow> memory \<Rightarrow> unit result \<times> memory" where
  "Mem_PinTool session tool hash ttl m =
     (Inr (), m\<lparr>m_pins := (m_pins m)(tool_key session tool \<mapsto> \<lparr>e_value = hash, e_expires_at = expiry (m_now m) ttl\<rparr>)\<rparr>)"

definition Mem_ToolBlocked :: "string \<Rightarrow> string \<Rightarrow> memory \<Rightarrow> bool result \<times> memory" where
  "Mem_ToolBlocked session tool m =
     (let k = tool_key session tool in
      case m_blocked m k of
        None \<Rightarrow> (Inr False, m)
      | Some e \<Rightarrow>
          if \<not> entry_live e (m_now m) then (Inr False, m\<lparr>m_blocked := (m_blocked m)(k := None)\<rparr>)
          else (Inr True, m))"

definition Mem_BlockTool :: "string \<Rightarrow> string \<Rightarrow> int \<Rightarrow> memory \<Rightarrow> unit result \<times> memory" where
  "Mem_BlockTool session tool ttl m =
     (Inr (), m\<lparr>m_blocked := (m_blocked m)(tool_key session tool \<mapsto> \<lparr>e_value = [], e_expires_at = expiry (m_now m) ttl\<rparr>)\<rparr>)"

definition mem_store :: "memory store" where
  "mem_store = \<lparr>st_Tainted = Mem_Tainted, st_Taint = Mem_Taint, st_ToolPin = Mem_ToolPin,
     st_PinTool = Mem_PinTool, st_ToolBlocked = Mem_ToolBlocked, st_BlockTool = Mem_BlockTool\<rparr>"

definition mem_advance :: "nat \<Rightarrow> memory \<Rightarrow> memory" where
  "mem_advance d m = m\<lparr>m_now := m_now m + int d\<rparr>"

section \<open>What the memory store holds\<close>

definition live_entry :: "(string \<rightharpoonup> entry) \<Rightarrow> time \<Rightarrow> string \<Rightarrow> entry option" where
  "live_entry mp now k = (case mp k of None \<Rightarrow> None | Some e \<Rightarrow> if entry_live e now then Some e else None)"

definition mem_taint :: "memory \<Rightarrow> string \<Rightarrow> bool" where
  "mem_taint m s = (live_entry (m_taint m) (m_now m) s \<noteq> None)"

definition mem_pin :: "memory \<Rightarrow> string \<Rightarrow> string \<Rightarrow> string option" where
  "mem_pin m s t = map_option e_value (live_entry (m_pins m) (m_now m) (tool_key s t))"

definition mem_blocked :: "memory \<Rightarrow> string \<Rightarrow> string \<Rightarrow> bool" where
  "mem_blocked m s t = (live_entry (m_blocked m) (m_now m) (tool_key s t) \<noteq> None)"

definition nul_free :: "string \<Rightarrow> bool" where
  "nul_free s = (CHR 0x00 \<notin> set s)"

lemma tool_key_inj: "nul_free s \<Longrightarrow> nul_free s' \<Longrightarrow> tool_key s t = tool_key s' t' \<longleftrightarrow> s = s' \<and> t = t'"
proof (induction s arbitrary: s')
  case Nil
  then show ?case by (cases s') (auto simp: tool_key_def nul_free_def)
next
  case (Cons c s)
  show ?case
  proof (cases s')
    case Nil
    with Cons.prems show ?thesis by (auto simp: tool_key_def nul_free_def)
  next
    case (Cons c' s'')
    with Cons.prems Cons.IH [of s''] show ?thesis by (auto simp: tool_key_def nul_free_def)
  qed
qed

lemma live_entry_drop: "\<not> entry_live e now \<Longrightarrow> mp k = Some e \<Longrightarrow> live_entry (mp(k := None)) now = live_entry mp now"
  by (auto simp: live_entry_def fun_eq_iff)

lemma live_entry_put:
  "live_entry (mp(k \<mapsto> \<lparr>e_value = v, e_expires_at = expiry now ttl\<rparr>)) now
     = (live_entry mp now)(k \<mapsto> \<lparr>e_value = v, e_expires_at = expiry now ttl\<rparr>)"
  by (auto simp: live_entry_def fun_eq_iff entry_live_def expiry_def)

lemmas mem_op_defs = Mem_Tainted_def Mem_Taint_def Mem_ToolPin_def Mem_PinTool_def Mem_ToolBlocked_def
  Mem_BlockTool_def

lemmas mem_view_defs = mem_taint_def mem_pin_def mem_blocked_def

lemma Mem_Tainted_spec:
  "fst (Mem_Tainted s m) = Inr (mem_taint m s)
   \<and> mem_taint (snd (Mem_Tainted s m)) = mem_taint m \<and> mem_pin (snd (Mem_Tainted s m)) = mem_pin m
   \<and> mem_blocked (snd (Mem_Tainted s m)) = mem_blocked m \<and> m_now (snd (Mem_Tainted s m)) = m_now m"
  by (cases "m_taint m s")
    (auto simp: Mem_Tainted_def mem_view_defs fun_eq_iff live_entry_drop, auto simp: live_entry_def)

lemma Mem_ToolPin_spec:
  "fst (Mem_ToolPin s t m) = Inr (mem_pin m s t)
   \<and> mem_taint (snd (Mem_ToolPin s t m)) = mem_taint m \<and> mem_pin (snd (Mem_ToolPin s t m)) = mem_pin m
   \<and> mem_blocked (snd (Mem_ToolPin s t m)) = mem_blocked m \<and> m_now (snd (Mem_ToolPin s t m)) = m_now m"
  by (cases "m_pins m (tool_key s t)")
    (auto simp: Mem_ToolPin_def mem_view_defs fun_eq_iff live_entry_drop Let_def, auto simp: live_entry_def)

lemma Mem_ToolBlocked_spec:
  "fst (Mem_ToolBlocked s t m) = Inr (mem_blocked m s t)
   \<and> mem_taint (snd (Mem_ToolBlocked s t m)) = mem_taint m \<and> mem_pin (snd (Mem_ToolBlocked s t m)) = mem_pin m
   \<and> mem_blocked (snd (Mem_ToolBlocked s t m)) = mem_blocked m \<and> m_now (snd (Mem_ToolBlocked s t m)) = m_now m"
  by (cases "m_blocked m (tool_key s t)")
    (auto simp: Mem_ToolBlocked_def mem_view_defs fun_eq_iff live_entry_drop Let_def, auto simp: live_entry_def)

lemma Mem_Taint_spec:
  "fst (Mem_Taint s ttl m) = Inr () \<and> mem_taint (snd (Mem_Taint s ttl m)) = (mem_taint m)(s := True)
   \<and> mem_pin (snd (Mem_Taint s ttl m)) = mem_pin m \<and> mem_blocked (snd (Mem_Taint s ttl m)) = mem_blocked m
   \<and> m_now (snd (Mem_Taint s ttl m)) = m_now m"
  by (auto simp: Mem_Taint_def mem_view_defs fun_eq_iff live_entry_put)

lemma Mem_PinTool_spec:
  "fst (Mem_PinTool s t v ttl m) = Inr () \<and> mem_taint (snd (Mem_PinTool s t v ttl m)) = mem_taint m
   \<and> mem_pin (snd (Mem_PinTool s t v ttl m)) s' t' = (if tool_key s' t' = tool_key s t then Some v else mem_pin m s' t')
   \<and> mem_blocked (snd (Mem_PinTool s t v ttl m)) = mem_blocked m \<and> m_now (snd (Mem_PinTool s t v ttl m)) = m_now m"
  by (auto simp: Mem_PinTool_def mem_view_defs fun_eq_iff live_entry_put)

lemma Mem_BlockTool_spec:
  "fst (Mem_BlockTool s t ttl m) = Inr () \<and> mem_taint (snd (Mem_BlockTool s t ttl m)) = mem_taint m
   \<and> mem_blocked (snd (Mem_BlockTool s t ttl m)) s' t' = (tool_key s' t' = tool_key s t \<or> mem_blocked m s' t')
   \<and> mem_pin (snd (Mem_BlockTool s t ttl m)) = mem_pin m \<and> m_now (snd (Mem_BlockTool s t ttl m)) = m_now m"
  by (auto simp: Mem_BlockTool_def mem_view_defs fun_eq_iff live_entry_put)

lemmas mem_specs = Mem_Tainted_spec Mem_ToolPin_spec Mem_ToolBlocked_spec Mem_Taint_spec Mem_PinTool_spec
  Mem_BlockTool_spec

text \<open>\<open>Memory\<close> implements the interface.\<close>

interpretation mem: session_store mem_store mem_taint mem_pin mem_blocked nul_free
proof unfold_locales
  fix s t v :: string and ttl :: int and m m' :: memory and b :: bool and h :: "string option" and u :: unit
    and s' t' :: string
  show "st_Tainted mem_store s m = (Inr b, m') \<Longrightarrow>
      b = mem_taint m s \<and> mem_taint m' = mem_taint m \<and> mem_pin m' = mem_pin m \<and> mem_blocked m' = mem_blocked m"
    using Mem_Tainted_spec [of s m] by (simp add: mem_store_def)
  show "st_Taint mem_store s ttl m = (Inr u, m') \<Longrightarrow>
      mem_taint m' = (mem_taint m)(s := True) \<and> mem_pin m' = mem_pin m \<and> mem_blocked m' = mem_blocked m"
    using Mem_Taint_spec [of s ttl m] by (simp add: mem_store_def)
  show "st_ToolPin mem_store s t m = (Inr h, m') \<Longrightarrow>
      h = mem_pin m s t \<and> mem_taint m' = mem_taint m \<and> mem_pin m' = mem_pin m \<and> mem_blocked m' = mem_blocked m"
    using Mem_ToolPin_spec [of s t m] by (simp add: mem_store_def)
  show "st_PinTool mem_store s t v ttl m = (Inr u, m') \<Longrightarrow>
      mem_pin m' s t = Some v \<and> mem_taint m' = mem_taint m \<and> mem_blocked m' = mem_blocked m
      \<and> (nul_free s \<and> nul_free s' \<and> (s', t') \<noteq> (s, t) \<longrightarrow> mem_pin m' s' t' = mem_pin m s' t')"
    using Mem_PinTool_spec [of s t v ttl m] by (auto simp: mem_store_def tool_key_inj)
  show "st_ToolBlocked mem_store s t m = (Inr b, m') \<Longrightarrow>
      b = mem_blocked m s t \<and> mem_taint m' = mem_taint m \<and> mem_pin m' = mem_pin m \<and> mem_blocked m' = mem_blocked m"
    using Mem_ToolBlocked_spec [of s t m] by (simp add: mem_store_def)
  show "st_BlockTool mem_store s t ttl m = (Inr u, m') \<Longrightarrow>
      mem_blocked m' s t \<and> mem_taint m' = mem_taint m \<and> mem_pin m' = mem_pin m
      \<and> (mem_blocked m s' t' \<longrightarrow> mem_blocked m' s' t')
      \<and> (nul_free s \<and> nul_free s' \<and> (s', t') \<noteq> (s, t) \<longrightarrow> mem_blocked m' s' t' = mem_blocked m s' t')"
    using Mem_BlockTool_spec [of s t ttl m] by (auto simp: mem_store_def tool_key_inj)
qed


section \<open>Sequences of operations\<close>

text \<open>
  A history of the store: calls in the order they take the mutex, and the clock moving on between
  them. Only the state matters here.
\<close>

datatype mem_op =
    DoTainted string
  | DoTaint string int
  | DoToolPin string string
  | DoPinTool string string string int
  | DoToolBlocked string string
  | DoBlockTool string string int
  | Advance nat

fun mem_step :: "mem_op \<Rightarrow> memory \<Rightarrow> memory" where
  "mem_step (DoTainted s) m = snd (Mem_Tainted s m)"
| "mem_step (DoTaint s ttl) m = snd (Mem_Taint s ttl m)"
| "mem_step (DoToolPin s t) m = snd (Mem_ToolPin s t m)"
| "mem_step (DoPinTool s t v ttl) m = snd (Mem_PinTool s t v ttl m)"
| "mem_step (DoToolBlocked s t) m = snd (Mem_ToolBlocked s t m)"
| "mem_step (DoBlockTool s t ttl) m = snd (Mem_BlockTool s t ttl m)"
| "mem_step (Advance d) m = mem_advance d m"

fun mem_run :: "mem_op list \<Rightarrow> memory \<Rightarrow> memory" where
  "mem_run [] m = m"
| "mem_run (x # xs) m = mem_run xs (mem_step x m)"

fun elapsed :: "mem_op list \<Rightarrow> int" where
  "elapsed [] = 0"
| "elapsed (Advance d # xs) = int d + elapsed xs"
| "elapsed (x # xs) = elapsed xs"

lemma elapsed_nonneg: "0 \<le> elapsed xs"
  by (induction xs rule: elapsed.induct) auto

lemma mem_step_now: "m_now (mem_step x m) = m_now m + elapsed [x]"
  by (cases x) (auto simp: mem_op_defs mem_advance_def Let_def split: option.splits)

lemma mem_run_now: "m_now (mem_run xs m) = m_now m + elapsed xs"
proof (induction xs arbitrary: m)
  case (Cons x xs)
  have "elapsed (x # xs) = elapsed [x] + elapsed xs" by (cases x) auto
  then show ?case by (simp add: Cons.IH mem_step_now)
qed simp

text \<open>
  What can become of one entry while nobody writes its key: it stays as it was, or it has expired
  and a read has deleted it.
\<close>

definition fate :: "entry \<Rightarrow> time \<Rightarrow> entry option \<Rightarrow> bool" where
  "fate e now x = (x = Some e \<or> (x = None \<and> \<not> entry_live e now))"

lemma entry_live_mono: "\<not> entry_live e now \<Longrightarrow> now \<le> now' \<Longrightarrow> \<not> entry_live e now'"
  by (auto simp: entry_live_def split: option.splits)

lemma fate_later: "fate e now x \<Longrightarrow> now \<le> now' \<Longrightarrow> fate e now' x"
  by (auto simp: fate_def dest: entry_live_mono)

lemma fate_live_entry: "fate e now (mp k) \<Longrightarrow> live_entry mp now k = (if entry_live e now then Some e else None)"
  by (auto simp: fate_def live_entry_def)

definition leaves_taint :: "string \<Rightarrow> mem_op \<Rightarrow> bool" where
  "leaves_taint s x = (\<forall>ttl. x \<noteq> DoTaint s ttl)"

definition leaves_pin :: "string \<Rightarrow> string \<Rightarrow> mem_op \<Rightarrow> bool" where
  "leaves_pin s t x = (\<forall>s' t' v ttl. x = DoPinTool s' t' v ttl \<longrightarrow> nul_free s' \<and> (s', t') \<noteq> (s, t))"

definition leaves_block :: "string \<Rightarrow> string \<Rightarrow> mem_op \<Rightarrow> bool" where
  "leaves_block s t x = (\<forall>s' t' ttl. x = DoBlockTool s' t' ttl \<longrightarrow> nul_free s' \<and> (s', t') \<noteq> (s, t))"

lemma step_fate_taint:
  assumes "fate e (m_now m) (m_taint m s)" "leaves_taint s x"
  shows "fate e (m_now (mem_step x m)) (m_taint (mem_step x m) s)"
  using assms
  by (cases x) (auto simp: mem_op_defs mem_advance_def leaves_taint_def Let_def fate_def
      dest: entry_live_mono [where now' = "m_now m + int _"] split: option.splits)

lemma step_fate_pin:
  assumes "fate e (m_now m) (m_pins m (tool_key s t))" "leaves_pin s t x" "nul_free s"
  shows "fate e (m_now (mem_step x m)) (m_pins (mem_step x m) (tool_key s t))"
  using assms
  by (cases x) (auto simp: mem_op_defs mem_advance_def leaves_pin_def Let_def fate_def tool_key_inj
      dest: entry_live_mono [where now' = "m_now m + int _"] split: option.splits)

lemma step_fate_block:
  assumes "fate e (m_now m) (m_blocked m (tool_key s t))" "leaves_block s t x" "nul_free s"
  shows "fate e (m_now (mem_step x m)) (m_blocked (mem_step x m) (tool_key s t))"
  using assms
  by (cases x) (auto simp: mem_op_defs mem_advance_def leaves_block_def Let_def fate_def tool_key_inj
      dest: entry_live_mono [where now' = "m_now m + int _"] split: option.splits)

lemma run_fate:
  assumes step: "\<And>m x. fate e (m_now m) (f m) \<Longrightarrow> P x \<Longrightarrow> fate e (m_now (mem_step x m)) (f (mem_step x m))"
    and "fate e (m_now m) (f m)" "list_all P xs"
  shows "fate e (m_now (mem_run xs m)) (f (mem_run xs m))"
  using assms(2,3) by (induction xs arbitrary: m) (auto intro: step)

lemma entry_live_after:
  "entry_live \<lparr>e_value = v, e_expires_at = expiry now ttl\<rparr> (now + d) \<longleftrightarrow> ttl \<le> 0 \<or> d < ttl"
  by (auto simp: entry_live_def expiry_def)

section \<open>Redis\<close>

text \<open>
  The client's operations as the source calls them. \<open>Get\<close> on a missing key returns the error
  \<open>redis.Nil\<close>, which \<open>errors.Is\<close> finds through any wrapping.
\<close>

record 'r redis_client =
  rc_Exists :: "string \<Rightarrow> 'r \<Rightarrow> int result \<times> 'r"
  rc_Set :: "string \<Rightarrow> string \<Rightarrow> int \<Rightarrow> 'r \<Rightarrow> unit result \<times> 'r"
  rc_Get :: "string \<Rightarrow> 'r \<Rightarrow> string result \<times> 'r"

definition redis_Nil :: go_error where
  "redis_Nil = ErrorText ''redis: nil''"

fun errors_Is :: "go_error \<Rightarrow> go_error \<Rightarrow> bool" where
  "errors_Is (ErrorText s) target = (ErrorText s = target)"
| "errors_Is (Wrap p e) target = (Wrap p e = target \<or> errors_Is e target)"

definition redis_prefix :: "string \<Rightarrow> string" where
  "redis_prefix prefix = (if prefix = [] then ''ai_security'' else prefix)"

definition taintKey :: "string \<Rightarrow> string \<Rightarrow> string" where
  "taintKey prefix session = prefix @ '':taint:{'' @ session @ ''}''"

definition pinKey :: "string \<Rightarrow> string \<Rightarrow> string \<Rightarrow> string" where
  "pinKey prefix session tool = prefix @ '':pin:{'' @ session @ ''}:'' @ tool"

definition blockedKey :: "string \<Rightarrow> string \<Rightarrow> string \<Rightarrow> string" where
  "blockedKey prefix session tool = prefix @ '':blocked:{'' @ session @ ''}:'' @ tool"

definition Redis_Tainted :: "'r redis_client \<Rightarrow> string \<Rightarrow> string \<Rightarrow> 'r \<Rightarrow> bool result \<times> 'r" where
  "Redis_Tainted c prefix session \<sigma> =
     (case rc_Exists c (taintKey prefix session) \<sigma> of
        (Inl err, \<sigma>) \<Rightarrow> (Inl (Wrap ''session: tainted'' err), \<sigma>)
      | (Inr n, \<sigma>) \<Rightarrow> (Inr (n > 0), \<sigma>))"

definition Redis_Taint :: "'r redis_client \<Rightarrow> string \<Rightarrow> string \<Rightarrow> int \<Rightarrow> 'r \<Rightarrow> unit result \<times> 'r" where
  "Redis_Taint c prefix session ttl \<sigma> =
     (let ttl = (if ttl < 0 then 0 else ttl) in
      case rc_Set c (taintKey prefix session) ''1'' ttl \<sigma> of
        (Inl err, \<sigma>) \<Rightarrow> (Inl (Wrap ''session: taint'' err), \<sigma>)
      | (Inr _, \<sigma>) \<Rightarrow> (Inr (), \<sigma>))"

definition Redis_ToolPin :: "'r redis_client \<Rightarrow> string \<Rightarrow> string \<Rightarrow> string \<Rightarrow> 'r \<Rightarrow> string option result \<times> 'r" where
  "Redis_ToolPin c prefix session tool \<sigma> =
     (case rc_Get c (pinKey prefix session tool) \<sigma> of
        (Inl err, \<sigma>) \<Rightarrow>
          if errors_Is err redis_Nil then (Inr None, \<sigma>) else (Inl (Wrap ''session: tool pin'' err), \<sigma>)
      | (Inr hash, \<sigma>) \<Rightarrow> (Inr (Some hash), \<sigma>))"

definition Redis_PinTool ::
  "'r redis_client \<Rightarrow> string \<Rightarrow> string \<Rightarrow> string \<Rightarrow> string \<Rightarrow> int \<Rightarrow> 'r \<Rightarrow> unit result \<times> 'r" where
  "Redis_PinTool c prefix session tool hash ttl \<sigma> =
     (let ttl = (if ttl < 0 then 0 else ttl) in
      case rc_Set c (pinKey prefix session tool) hash ttl \<sigma> of
        (Inl err, \<sigma>) \<Rightarrow> (Inl (Wrap ''session: pin tool'' err), \<sigma>)
      | (Inr _, \<sigma>) \<Rightarrow> (Inr (), \<sigma>))"

definition Redis_ToolBlocked :: "'r redis_client \<Rightarrow> string \<Rightarrow> string \<Rightarrow> string \<Rightarrow> 'r \<Rightarrow> bool result \<times> 'r" where
  "Redis_ToolBlocked c prefix session tool \<sigma> =
     (case rc_Exists c (blockedKey prefix session tool) \<sigma> of
        (Inl err, \<sigma>) \<Rightarrow> (Inl (Wrap ''session: tool blocked'' err), \<sigma>)
      | (Inr n, \<sigma>) \<Rightarrow> (Inr (n > 0), \<sigma>))"

definition Redis_BlockTool ::
  "'r redis_client \<Rightarrow> string \<Rightarrow> string \<Rightarrow> string \<Rightarrow> int \<Rightarrow> 'r \<Rightarrow> unit result \<times> 'r" where
  "Redis_BlockTool c prefix session tool ttl \<sigma> =
     (let ttl = (if ttl < 0 then 0 else ttl) in
      case rc_Set c (blockedKey prefix session tool) ''1'' ttl \<sigma> of
        (Inl err, \<sigma>) \<Rightarrow> (Inl (Wrap ''session: block tool'' err), \<sigma>)
      | (Inr _, \<sigma>) \<Rightarrow> (Inr (), \<sigma>))"

definition redis_store :: "'r redis_client \<Rightarrow> string \<Rightarrow> 'r store" where
  "redis_store c prefix = \<lparr>st_Tainted = Redis_Tainted c prefix, st_Taint = Redis_Taint c prefix,
     st_ToolPin = Redis_ToolPin c prefix, st_PinTool = Redis_PinTool c prefix,
     st_ToolBlocked = Redis_ToolBlocked c prefix, st_BlockTool = Redis_BlockTool c prefix\<rparr>"

lemmas redis_op_defs = Redis_Tainted_def Redis_Taint_def Redis_ToolPin_def Redis_PinTool_def
  Redis_ToolBlocked_def Redis_BlockTool_def


text \<open>
  What Redis documents of these three commands, for a server whose live keys are \<open>held\<close>: a
  successful \<open>EXISTS\<close> or \<open>GET\<close> answers from them and changes nothing, \<open>redis.Nil\<close> means no such
  key, a successful \<open>SET\<close> writes its key and no other.
\<close>

definition documented_server :: "'r redis_client \<Rightarrow> ('r \<Rightarrow> string \<Rightarrow> string option) \<Rightarrow> bool" where
  "documented_server c held =
     ((\<forall>k \<sigma> n \<sigma>'. rc_Exists c k \<sigma> = (Inr n, \<sigma>') \<longrightarrow> (n > 0) = (held \<sigma> k \<noteq> None) \<and> held \<sigma>' = held \<sigma>)
      \<and> (\<forall>k v ttl \<sigma> u \<sigma>'. rc_Set c k v ttl \<sigma> = (Inr u, \<sigma>') \<longrightarrow> held \<sigma>' = (held \<sigma>)(k \<mapsto> v))
      \<and> (\<forall>k \<sigma> h \<sigma>'. rc_Get c k \<sigma> = (Inr h, \<sigma>') \<longrightarrow> held \<sigma> k = Some h \<and> held \<sigma>' = held \<sigma>)
      \<and> (\<forall>k \<sigma> err \<sigma>'. rc_Get c k \<sigma> = (Inl err, \<sigma>') \<and> errors_Is err redis_Nil \<longrightarrow> held \<sigma> k = None \<and> held \<sigma>' = held \<sigma>))"

definition brace_free :: "string \<Rightarrow> bool" where
  "brace_free s = (CHR ''}'' \<notin> set s)"

lemma append_brace_inj:
  "brace_free s \<Longrightarrow> brace_free s' \<Longrightarrow> s @ CHR ''}'' # x = s' @ CHR ''}'' # x' \<longleftrightarrow> s = s' \<and> x = x'"
proof (induction s arbitrary: s')
  case Nil
  then show ?case by (cases s') (auto simp: brace_free_def)
next
  case (Cons c s)
  show ?case
  proof (cases s')
    case Nil
    with Cons.prems show ?thesis by (auto simp: brace_free_def)
  next
    case (Cons c' s'')
    with Cons.prems Cons.IH [of s''] show ?thesis by (auto simp: brace_free_def)
  qed
qed

lemma redis_keys_inj:
  "taintKey p s = taintKey p s' \<longleftrightarrow> s = s'"
  "brace_free s \<Longrightarrow> brace_free s' \<Longrightarrow> pinKey p s t = pinKey p s' t' \<longleftrightarrow> s = s' \<and> t = t'"
  "brace_free s \<Longrightarrow> brace_free s' \<Longrightarrow> blockedKey p s t = blockedKey p s' t' \<longleftrightarrow> s = s' \<and> t = t'"
  by (auto simp: taintKey_def pinKey_def blockedKey_def append_brace_inj)

lemma redis_keys_apart:
  "taintKey p s \<noteq> pinKey p s' t'" "taintKey p s \<noteq> blockedKey p s' t'" "pinKey p s t \<noteq> blockedKey p s' t'"
  "pinKey p s' t' \<noteq> taintKey p s" "blockedKey p s' t' \<noteq> taintKey p s" "blockedKey p s' t' \<noteq> pinKey p s t"
  by (auto simp: taintKey_def pinKey_def blockedKey_def)

lemma documented_serverD:
  assumes "documented_server c held"
  shows "rc_Exists c k \<sigma> = (Inr n, \<sigma>') \<Longrightarrow> (n > 0) = (held \<sigma> k \<noteq> None) \<and> held \<sigma>' = held \<sigma>"
    and "rc_Set c k v ttl \<sigma> = (Inr u, \<sigma>') \<Longrightarrow> held \<sigma>' = (held \<sigma>)(k \<mapsto> v)"
    and "rc_Get c k \<sigma> = (Inr h, \<sigma>') \<Longrightarrow> held \<sigma> k = Some h \<and> held \<sigma>' = held \<sigma>"
    and "rc_Get c k \<sigma> = (Inl err, \<sigma>') \<Longrightarrow> errors_Is err redis_Nil \<Longrightarrow> held \<sigma> k = None \<and> held \<sigma>' = held \<sigma>"
  using assms unfolding documented_server_def by metis+

section \<open>Properties\<close>

text \<open>C29: a taint lasts exactly its ttl: whatever the store is asked afterwards, and however often the
  lookups delete expired entries, the session reads as tainted while less than \<open>ttl\<close> has elapsed
  and not after, unless someone taints it again; with a ttl of zero or less it never ends.\<close>

theorem taint_lifetime:
  assumes "list_all (leaves_taint s) ops"
  shows "fst (Mem_Tainted s (mem_run ops (snd (Mem_Taint s ttl m)))) = Inr (ttl \<le> 0 \<or> elapsed ops < ttl)"
proof -
  define m1 where "m1 = snd (Mem_Taint s ttl m)"
  define e where "e = \<lparr>e_value = [], e_expires_at = expiry (m_now m) ttl\<rparr>"
  have now: "m_now m1 = m_now m" by (simp add: m1_def Mem_Taint_def)
  have "fate e (m_now m1) (m_taint m1 s)" by (simp add: fate_def m1_def e_def Mem_Taint_def)
  then have "fate e (m_now (mem_run ops m1)) (m_taint (mem_run ops m1) s)"
    by (rule run_fate [of e "\<lambda>m. m_taint m s" "leaves_taint s", rotated]) (auto intro: step_fate_taint assms)
  then have "mem_taint (mem_run ops m1) s = entry_live e (m_now m + elapsed ops)"
    by (auto simp: mem_taint_def fate_live_entry mem_run_now now)
  then show ?thesis
    using Mem_Tainted_spec [of s "mem_run ops m1"] by (simp add: e_def entry_live_after m1_def)
qed

theorem taint_lifetime_witness:
  "fst (Mem_Tainted ''s1'' (mem_run [Advance 40, DoTainted ''s1'', DoTaint ''s2'' 5, Advance 70]
      (snd (Mem_Taint ''s1'' 100 (NewMemory 0))))) = Inr False
   \<and> fst (Mem_Tainted ''s1'' (mem_run [Advance 40, DoTainted ''s1'', DoTaint ''s2'' 5]
      (snd (Mem_Taint ''s1'' 100 (NewMemory 0))))) = Inr True"
  using taint_lifetime [of "''s1''" "[Advance 40, DoTainted ''s1'', DoTaint ''s2'' 5, Advance 70]" 100 "NewMemory 0"]
    taint_lifetime [of "''s1''" "[Advance 40, DoTainted ''s1'', DoTaint ''s2'' 5]" 100 "NewMemory 0"]
  by (simp add: leaves_taint_def)

text \<open>C30: a tool pin and a tool block last exactly their ttl as well, and no operation on another
  session or another tool touches them, as long as session names hold no NUL byte.\<close>

theorem pin_and_block_lifetime:
  assumes "nul_free s" "list_all (leaves_pin s t) ops" "list_all (leaves_block s t) ops"
  shows "fst (Mem_ToolPin s t (mem_run ops (snd (Mem_PinTool s t h ttl m))))
      = Inr (if ttl \<le> 0 \<or> elapsed ops < ttl then Some h else None)
    \<and> fst (Mem_ToolBlocked s t (mem_run ops (snd (Mem_BlockTool s t ttl m))))
      = Inr (ttl \<le> 0 \<or> elapsed ops < ttl)"
proof (rule conjI)
  define m1 where "m1 = snd (Mem_PinTool s t h ttl m)"
  define e where "e = \<lparr>e_value = h, e_expires_at = expiry (m_now m) ttl\<rparr>"
  have now: "m_now m1 = m_now m" by (simp add: m1_def Mem_PinTool_def)
  have "fate e (m_now m1) (m_pins m1 (tool_key s t))" by (simp add: fate_def m1_def e_def Mem_PinTool_def)
  then have "fate e (m_now (mem_run ops m1)) (m_pins (mem_run ops m1) (tool_key s t))"
    by (rule run_fate [of e "\<lambda>m. m_pins m (tool_key s t)" "leaves_pin s t", rotated])
      (auto intro: step_fate_pin assms)
  then have "mem_pin (mem_run ops m1) s t = (if entry_live e (m_now m + elapsed ops) then Some h else None)"
    by (auto simp: mem_pin_def fate_live_entry mem_run_now now e_def)
  then show "fst (Mem_ToolPin s t (mem_run ops (snd (Mem_PinTool s t h ttl m))))
      = Inr (if ttl \<le> 0 \<or> elapsed ops < ttl then Some h else None)"
    using Mem_ToolPin_spec [of s t "mem_run ops m1"] by (simp add: e_def entry_live_after m1_def)
next
  define m1 where "m1 = snd (Mem_BlockTool s t ttl m)"
  define e where "e = \<lparr>e_value = [], e_expires_at = expiry (m_now m) ttl\<rparr>"
  have now: "m_now m1 = m_now m" by (simp add: m1_def Mem_BlockTool_def)
  have "fate e (m_now m1) (m_blocked m1 (tool_key s t))" by (simp add: fate_def m1_def e_def Mem_BlockTool_def)
  then have "fate e (m_now (mem_run ops m1)) (m_blocked (mem_run ops m1) (tool_key s t))"
    by (rule run_fate [of e "\<lambda>m. m_blocked m (tool_key s t)" "leaves_block s t", rotated])
      (auto intro: step_fate_block assms)
  then have "mem_blocked (mem_run ops m1) s t = entry_live e (m_now m + elapsed ops)"
    by (auto simp: mem_blocked_def fate_live_entry mem_run_now now)
  then show "fst (Mem_ToolBlocked s t (mem_run ops (snd (Mem_BlockTool s t ttl m))))
      = Inr (ttl \<le> 0 \<or> elapsed ops < ttl)"
    using Mem_ToolBlocked_spec [of s t "mem_run ops m1"] by (simp add: e_def entry_live_after m1_def)
qed

theorem pin_and_block_lifetime_witness:
  "fst (Mem_ToolPin ''s'' ''mail'' (mem_run [DoPinTool ''s'' ''web'' ''h2'' 9, Advance 3, DoToolPin ''s'' ''mail'']
      (snd (Mem_PinTool ''s'' ''mail'' ''h1'' 5 (NewMemory 0))))) = Inr (Some ''h1'')
   \<and> fst (Mem_ToolBlocked ''s'' ''mail'' (mem_run [DoBlockTool ''r'' ''mail'' 9, Advance 5]
      (snd (Mem_BlockTool ''s'' ''mail'' 5 (NewMemory 0))))) = Inr False"
  using pin_and_block_lifetime [of "''s''" "''mail''" "[DoPinTool ''s'' ''web'' ''h2'' 9, Advance 3, DoToolPin ''s'' ''mail'']" "''h1''" 5 "NewMemory 0"]
    pin_and_block_lifetime [of "''s''" "''mail''" "[DoBlockTool ''r'' ''mail'' 9, Advance 5]" "''h1''" 5 "NewMemory 0"]
  by (simp add: leaves_pin_def leaves_block_def nul_free_def)

text \<open>C31: over a Redis server that keeps to its documentation, the Redis store implements the same
  interface as the in-memory one, for session names without a closing brace.\<close>

theorem redis_implements_store:
  assumes "documented_server c held"
  shows "session_store (redis_store c p) (\<lambda>\<sigma> s. held \<sigma> (taintKey p s) \<noteq> None)
     (\<lambda>\<sigma> s t. held \<sigma> (pinKey p s t)) (\<lambda>\<sigma> s t. held \<sigma> (blockedKey p s t) \<noteq> None) brace_free"
proof -
  note laws = documented_serverD [OF assms]
  show ?thesis
    by unfold_locales
      (auto simp: redis_store_def redis_op_defs fun_eq_iff redis_keys_inj redis_keys_apart Let_def
        dest!: laws split: prod.splits sum.splits if_splits)
qed

definition kv_client :: "(string \<rightharpoonup> string) redis_client" where
  "kv_client = \<lparr>rc_Exists = (\<lambda>k \<sigma>. (Inr (if \<sigma> k = None then 0 else 1), \<sigma>)),
     rc_Set = (\<lambda>k v ttl \<sigma>. (Inr (), \<sigma>(k \<mapsto> v))),
     rc_Get = (\<lambda>k \<sigma>. (case \<sigma> k of None \<Rightarrow> Inl redis_Nil | Some v \<Rightarrow> Inr v, \<sigma>))\<rparr>"

theorem redis_implements_store_witness:
  "session_store (redis_store kv_client ''ai_security'') (\<lambda>\<sigma> s. \<sigma> (taintKey ''ai_security'' s) \<noteq> None)
     (\<lambda>\<sigma> s t. \<sigma> (pinKey ''ai_security'' s t)) (\<lambda>\<sigma> s t. \<sigma> (blockedKey ''ai_security'' s t) \<noteq> None) brace_free
   \<and> Redis_ToolPin kv_client ''ai_security'' ''s'' ''mail'' Map.empty = (Inr None, Map.empty)"
proof -
  have "documented_server kv_client (\<lambda>\<sigma>. \<sigma>)"
    by (auto simp: documented_server_def kv_client_def split: option.splits)
  from redis_implements_store [OF this] show ?thesis
    by (simp add: Redis_ToolPin_def kv_client_def redis_Nil_def)
qed

text \<open>Without those restrictions on session names, two sessions share tool state: both stores build
  the key by concatenation, so a NUL byte (memory) or a closing brace and colon (Redis) in the
  session name moves the boundary between session and tool.\<close>

theorem tool_keys_collide:
  "mem_blocked (snd (Mem_BlockTool ''a'' (''b'' @ [CHR 0x00] @ ''mail'') ttl m)) (''a'' @ [CHR 0x00] @ ''b'') ''mail''
   \<and> pinKey p ''a'' ''b}:mail'' = pinKey p ''a}:b'' ''mail''
   \<and> blockedKey p ''a'' ''b}:mail'' = blockedKey p ''a}:b'' ''mail''"
  by (simp add: Mem_BlockTool_spec tool_key_def pinKey_def blockedKey_def)

end
