(* ===== verification/Audit_Log.thy ===== *)
theory Audit_Log
  imports Session "HOL-Library.Sublist"
begin

text \<open>
  \<open>internal/audit\<close>: the event of one inspected hop (\<open>audit.go\<close>) and the sink that writes one JSON
  line per event (\<open>jsonl.go\<close>). \<open>encode\<close>, the \<open>json.Encoder\<close> over the sink's writer, is a parameter that
  may fail: of an event and the lines written so far it returns the line it writes, or an error, as
  when the event does not marshal or the writer refuses the line, now or from some write on. What it
  writes for one event is one element of the output; a line that a failing writer cut short is not
  counted. A time is kept as the instant whose RFC 3339 text the code stores.
\<close>

record audit_finding =
  af_detector :: string
  af_type :: string
  af_score :: rat
  af_part :: int
  af_start :: int
  af_end :: int

record event =
  ev_time :: time
  ev_trace_id :: string
  ev_session_id :: string
  ev_surface :: string
  ev_caller :: string
  ev_source :: string
  ev_action :: string
  ev_policy_version :: string
  ev_taint_session :: bool
  ev_findings :: "audit_finding list"
  ev_content_hash :: string
  ev_latency_ms :: rat
  ev_error :: string

text \<open>The mutex makes a write atomic, so a sink's state is what has been written so far.\<close>

definition JSONLSink_Write :: "(event \<Rightarrow> string list \<Rightarrow> string result) \<Rightarrow> event \<Rightarrow> string list \<Rightarrow> unit result \<times> string list" where
  "JSONLSink_Write encode e out =
     (case encode e out of Inl err \<Rightarrow> (Inl err, out) | Inr line \<Rightarrow> (Inr (), out @ [line]))"

text \<open>What one write leaves in the output, a sink that accepts every event, and the output of a sequence of writes.\<close>

definition written :: "(event \<Rightarrow> string list \<Rightarrow> string result) \<Rightarrow> event \<Rightarrow> string list \<Rightarrow> string list" where
  "written encode e out = snd (JSONLSink_Write encode e out)"

definition accepts_all :: "(event \<Rightarrow> string list \<Rightarrow> string result) \<Rightarrow> bool" where
  "accepts_all encode = (\<forall>e out. \<exists>line. encode e out = Inr line)"

lemma written_cases:
  "written encode e out = out \<and> (\<exists>err. encode e out = Inl err)
   \<or> (\<exists>line. encode e out = Inr line \<and> written encode e out = out @ [line])"
  by (cases "encode e out") (simp_all add: written_def JSONLSink_Write_def)

lemma written_accepted: "accepts_all encode \<Longrightarrow> length (written encode e out) = Suc (length out)"
  using written_cases [of encode e out] unfolding accepts_all_def by (metis Inl_Inr_False length_append_singleton)

text \<open>
  What a sequence of writes leaves: the lines of some of the events, one each and in their order; of
  all of them when the sink accepts every event.
\<close>

definition trail_of ::
  "(event \<Rightarrow> string list \<Rightarrow> string result) \<Rightarrow> event list \<Rightarrow> string list \<Rightarrow> string list \<Rightarrow> bool" where
  "trail_of encode evs before after =
     (after = fold (written encode) evs before
      \<and> (\<exists>taken ls. subseq taken evs \<and> after = before @ ls \<and> list_all2 (\<lambda>ev l. \<exists>out. encode ev out = Inr l) taken ls
           \<and> (accepts_all encode \<longrightarrow> taken = evs)))"

lemma written_trail: "trail_of encode evs out (fold (written encode) evs out)"
proof (induction evs arbitrary: out)
  case (Cons ev evs)
  from Cons.IH [of "written encode ev out"] obtain taken ls where IH: "subseq taken evs"
    "fold (written encode) evs (written encode ev out) = written encode ev out @ ls"
    "list_all2 (\<lambda>ev l. \<exists>o'. encode ev o' = Inr l) taken ls" "accepts_all encode \<longrightarrow> taken = evs"
    unfolding trail_of_def by blast
  from written_cases [of encode ev out]
  have "\<exists>taken ls. subseq taken (ev # evs) \<and> fold (written encode) (ev # evs) out = out @ ls
      \<and> list_all2 (\<lambda>ev l. \<exists>o'. encode ev o' = Inr l) taken ls \<and> (accepts_all encode \<longrightarrow> taken = ev # evs)"
  proof (elim disjE exE conjE)
    fix err
    assume "written encode ev out = out" "encode ev out = Inl err"
    moreover from this have "\<not> accepts_all encode" unfolding accepts_all_def by (metis Inl_Inr_False)
    ultimately show ?thesis using IH by (intro exI [of _ taken] exI [of _ ls]) auto
  next
    fix l
    assume "encode ev out = Inr l" "written encode ev out = out @ [l]"
    then show ?thesis using IH by (intro exI [of _ "ev # taken"] exI [of _ "l # ls"]) auto
  qed
  then show ?case by (simp add: trail_of_def)
qed (simp add: trail_of_def)

end
