(* ===== verification/Offsets.thy ===== *)
theory Offsets
  imports Core_Types
begin

text \<open>
  \<open>internal/core/offset.go\<close>, the part on offset maps: segments that say which original bytes
  a run of normalized bytes came from, the mapping of a normalized span back to the original,
  and the composition of the maps of two passes. An \<open>OffsetMap\<close> is its list of segments; the
  empty list is the identity map.
\<close>

section \<open>The map\<close>

record offset_segment =
  norm_start :: int
  norm_end :: int
  orig_start :: int
  orig_end :: int

type_synonym offset_map = "offset_segment list"

definition positional :: "offset_segment \<Rightarrow> bool" where
  "positional s = (norm_end s - norm_start s = orig_end s - orig_start s)"

definition NewOffsetMap :: "offset_segment list \<Rightarrow> offset_map" where
  "NewOffsetMap segs = (if length segs = 0 then [] else segs)"

definition Identity :: "offset_map \<Rightarrow> bool" where
  "Identity m = (length m = 0)"

definition seg_search :: "offset_map \<Rightarrow> int \<Rightarrow> nat" where
  "seg_search m p =
     (let i = sort_Search (length m) (\<lambda>i. norm_end (m ! i) > p) in
      if i = length m then length m - 1 else i)"

definition map_start :: "offset_map \<Rightarrow> int \<Rightarrow> int" where
  "map_start m p =
     (if p \<le> norm_start (m ! 0) then orig_start (m ! 0)
      else let lst = m ! (length m - 1) in
        if p \<ge> norm_end lst then orig_end lst
        else let seg = m ! seg_search m p in
          if positional seg then orig_start seg + (p - norm_start seg) else orig_start seg)"

definition map_end :: "offset_map \<Rightarrow> int \<Rightarrow> int" where
  "map_end m p =
     (if p \<le> norm_start (m ! 0) then orig_start (m ! 0)
      else let lst = m ! (length m - 1) in
        if p \<ge> norm_end lst then orig_end lst
        else let seg = m ! seg_search m (p - 1) in
          if positional seg then orig_start seg + (p - norm_start seg) else orig_end seg)"

definition map_Span :: "offset_map \<Rightarrow> int \<Rightarrow> int \<Rightarrow> int \<times> int" where
  "map_Span m norm_s norm_e =
     (if Identity m then (norm_s, norm_e)
      else let start = map_start m norm_s; end' = map_end m norm_e in
        (start, if end' < start then start else end'))"

section \<open>Composition\<close>

text \<open>The loop that splits one positional run of the outer map at the inner map's boundaries.\<close>

definition split_cut :: "offset_map \<Rightarrow> offset_segment \<Rightarrow> int \<Rightarrow> int" where
  "split_cut inner s mid =
     (let seg = inner ! seg_search inner mid in
      if norm_end seg < orig_end s \<and> norm_end seg > mid then norm_end seg else orig_end s)"

lemma split_cut_progress: "mid < orig_end s \<Longrightarrow> mid < split_cut inner s mid"
  by (simp add: split_cut_def Let_def)

lemma split_cut_le: "split_cut inner s mid \<le> orig_end s"
  by (simp add: split_cut_def Let_def)

function split_run :: "offset_map \<Rightarrow> offset_segment \<Rightarrow> int \<Rightarrow> offset_segment list" where
  "split_run inner s mid =
     (if mid < orig_end s then
        let cut = split_cut inner s mid; orig = map_Span inner mid cut in
        \<lparr>norm_start = norm_start s + (mid - orig_start s),
         norm_end = norm_start s + (cut - orig_start s),
         orig_start = fst orig, orig_end = snd orig\<rparr> # split_run inner s cut
      else [])"
  by pat_completeness auto
termination
  by (relation "measure (\<lambda>(inner, s, mid). nat (orig_end s - mid))")
    (auto dest: split_cut_progress)

declare split_run.simps [simp del]

definition compose_segment :: "offset_map \<Rightarrow> offset_segment \<Rightarrow> offset_segment list" where
  "compose_segment inner s =
     (let inner_end = norm_end (inner ! (length inner - 1)) in
      if \<not> positional s \<or> orig_start s \<ge> inner_end then
        let orig = map_Span inner (orig_start s) (orig_end s) in
        [\<lparr>norm_start = norm_start s, norm_end = norm_end s, orig_start = fst orig, orig_end = snd orig\<rparr>]
      else split_run inner s (orig_start s))"

definition ComposeOffsets :: "offset_map \<Rightarrow> offset_map \<Rightarrow> offset_map" where
  "ComposeOffsets outer inner =
     (if Identity outer then inner
      else if Identity inner then outer
      else NewOffsetMap (concat (map (compose_segment inner) outer)))"

section \<open>Well-formed maps\<close>

text \<open>
  \<open>NewOffsetMap\<close> asks for contiguous, ascending segments. \<open>wf_map n l m\<close>: the map serves a
  normalized text of \<open>n\<close> bytes and maps into an original text of \<open>l\<close> bytes.
\<close>

fun contiguous :: "int \<Rightarrow> offset_map \<Rightarrow> bool" where
  "contiguous n [] = True"
| "contiguous n (s # ss) = (norm_start s = n \<and> n < norm_end s \<and> contiguous (norm_end s) ss)"

definition orig_within :: "int \<Rightarrow> offset_segment \<Rightarrow> bool" where
  "orig_within l s = (0 \<le> orig_start s \<and> orig_start s \<le> orig_end s \<and> orig_end s \<le> l)"

definition wf_map :: "int \<Rightarrow> int \<Rightarrow> offset_map \<Rightarrow> bool" where
  "wf_map n l m =
     (0 \<le> n \<and> contiguous 0 m \<and> (\<forall>s \<in> set m. orig_within l s)
      \<and> (if m = [] then n \<le> l else n \<le> norm_end (last m)))"

lemma contiguous_append:
  "contiguous n (xs @ ys) =
     (contiguous n xs \<and> contiguous (if xs = [] then n else norm_end (last xs)) ys)"
  by (induction xs arbitrary: n) auto

lemma contiguous_last: "contiguous n m \<Longrightarrow> m \<noteq> [] \<Longrightarrow> n < norm_end (last m)"
proof (induction m arbitrary: n)
  case (Cons s m)
  then show ?case by (cases "m = []") (auto dest: less_trans)
qed simp

lemma contiguous_mem_bounds:
  "contiguous n m \<Longrightarrow> s \<in> set m \<Longrightarrow> n \<le> norm_start s \<and> norm_start s < norm_end s \<and> norm_end s \<le> norm_end (last m)"
proof (induction m arbitrary: n)
  case (Cons t m)
  show ?case
  proof (cases "m = []")
    case True
    with Cons.prems show ?thesis by simp
  next
    case False
    have m: "contiguous (norm_end t) m" "n < norm_end t" "norm_start t = n" using Cons.prems by auto
    have "norm_end t < norm_end (last m)" by (rule contiguous_last [OF m(1) False])
    moreover have "s \<in> set m \<Longrightarrow> norm_end t \<le> norm_start s \<and> norm_start s < norm_end s \<and> norm_end s \<le> norm_end (last m)"
      by (rule Cons.IH [OF m(1)])
    ultimately show ?thesis using Cons.prems(2) m False by auto
  qed
qed simp

lemma contiguous_adjacent:
  "contiguous n m \<Longrightarrow> Suc i < length m \<Longrightarrow> norm_start (m ! Suc i) = norm_end (m ! i)"
proof (induction m arbitrary: n i)
  case (Cons t m)
  then show ?case by (cases i; cases m) auto
qed simp

lemma contiguous_nth_mono:
  "contiguous n m \<Longrightarrow> i < j \<Longrightarrow> j < length m \<Longrightarrow> norm_end (m ! i) \<le> norm_start (m ! j)"
proof (induction m arbitrary: n i j)
  case (Cons t m)
  show ?case
  proof (cases i)
    case 0
    with Cons.prems contiguous_mem_bounds [of "norm_end t" m "m ! (j - 1)"] show ?thesis
      by (auto simp: nth_Cons')
  next
    case (Suc i')
    with Cons.prems Cons.IH [of "norm_end t" i' "j - 1"] show ?thesis by (auto simp: nth_Cons')
  qed
qed simp

lemma contiguous_hd: "contiguous n m \<Longrightarrow> m \<noteq> [] \<Longrightarrow> norm_start (m ! 0) = n"
  by (cases m) auto

text \<open>
  \<open>search\<close> returns the segment that holds the offset: the binary search meets its contract on
  contiguous segments.
\<close>

lemma seg_search_correct:
  assumes "contiguous n m" "m \<noteq> []" "n \<le> p" "p < norm_end (last m)"
  shows "seg_search m p < length m" "norm_start (m ! seg_search m p) \<le> p"
    "p < norm_end (m ! seg_search m p)"
proof -
  let ?f = "\<lambda>i. norm_end (m ! i) > p"
  let ?i = "sort_Search (length m) ?f"
  have mono: "?f b" if "a \<le> b" "b < length m" "?f a" for a b
  proof (cases "a = b")
    case False
    then show ?thesis
      using that contiguous_nth_mono [OF assms(1), of a b] contiguous_mem_bounds [OF assms(1), of "m ! b"]
      by force
  qed (use that in simp)
  have spec: "?i \<le> length m \<and> (\<forall>k < ?i. \<not> ?f k) \<and> (?i < length m \<longrightarrow> ?f ?i)"
    by (rule sort_Search_spec) (rule mono)
  have last: "?f (length m - 1)" using assms by (simp add: last_conv_nth)
  have lt: "?i < length m"
    using spec last assms(2) by (metis diff_less le_neq_implies_less length_greater_0_conv zero_less_one)
  then have eq: "seg_search m p = ?i" by (simp add: seg_search_def Let_def)
  show "seg_search m p < length m" "p < norm_end (m ! seg_search m p)" using lt spec by (simp_all add: eq)
  show "norm_start (m ! seg_search m p) \<le> p"
  proof (cases "?i = 0")
    case True
    with assms contiguous_hd show ?thesis by (simp add: eq)
  next
    case False
    then have "\<not> ?f (?i - 1)" using spec by simp
    moreover have "norm_start (m ! ?i) = norm_end (m ! (?i - 1))"
      using contiguous_adjacent [OF assms(1), of "?i - 1"] lt False by simp
    ultimately show ?thesis by (simp add: eq)
  qed
qed

lemma seg_search_unique:
  assumes "contiguous n m" "i < length m" "norm_start (m ! i) \<le> p" "p < norm_end (m ! i)"
  shows "seg_search m p = i"
proof -
  have ne: "m \<noteq> []" using assms(2) by auto
  have b: "n \<le> norm_start (m ! i)" "norm_end (m ! i) \<le> norm_end (last m)"
    using contiguous_mem_bounds [OF assms(1), of "m ! i"] assms(2) by auto
  note sc = seg_search_correct [OF assms(1) ne, of p]
  show ?thesis
  proof (rule linorder_cases [of "seg_search m p" i])
    assume "seg_search m p < i"
    then show ?thesis using contiguous_nth_mono [OF assms(1) _ assms(2)] sc b assms by force
  next
    assume "i < seg_search m p"
    then show ?thesis using contiguous_nth_mono [OF assms(1), of i "seg_search m p"] sc b assms by force
  qed
qed


section \<open>Bounds\<close>

lemma wf_map_seg:
  assumes "wf_map n l m" "m \<noteq> []" "0 < p" "p < norm_end (last m)"
  obtains s where "s \<in> set m" "s = m ! seg_search m p" "norm_start s \<le> p" "p < norm_end s" "orig_within l s"
proof -
  have c: "contiguous 0 m" using assms(1) by (simp add: wf_map_def)
  have p: "0 \<le> p" using assms(3) by simp
  note sc = seg_search_correct [OF c assms(2) p assms(4)]
  show thesis
    by (rule that [of "m ! seg_search m p"]) (use sc assms(1) in \<open>auto simp: wf_map_def\<close>)
qed

lemma wf_map_hd_last:
  assumes "wf_map n l m" "m \<noteq> []"
  shows "orig_within l (m ! 0)" "orig_within l (last m)" "norm_start (m ! 0) = 0"
    "m ! (length m - 1) = last m"
  using assms contiguous_hd [of 0 m] by (auto simp: wf_map_def last_conv_nth)

lemma map_start_bounds:
  assumes "wf_map n l m" "m \<noteq> []"
  shows "0 \<le> map_start m p \<and> map_start m p \<le> l"
proof -
  note hl = wf_map_hd_last [OF assms]
  show ?thesis
  proof (cases "0 < p \<and> p < norm_end (last m)")
    case True
    then obtain s where "s = m ! seg_search m p" "norm_start s \<le> p" "p < norm_end s" "orig_within l s"
      using wf_map_seg [OF assms] by metis
    with True hl show ?thesis by (auto simp: map_start_def orig_within_def positional_def Let_def)
  next
    case False
    with hl show ?thesis by (auto simp: map_start_def orig_within_def Let_def)
  qed
qed

lemma map_end_bounds:
  assumes "wf_map n l m" "m \<noteq> []"
  shows "0 \<le> map_end m p \<and> map_end m p \<le> l"
proof -
  note hl = wf_map_hd_last [OF assms]
  consider "p \<le> 0" | "p \<ge> norm_end (last m)" "0 < p" | "0 < p" "p < norm_end (last m)" by linarith
  then show ?thesis
  proof cases
    case 3
    have c: "contiguous 0 m" using assms by (simp add: wf_map_def)
    define s where "s = m ! seg_search m (p - 1)"
    have "norm_start s \<le> p - 1" "p - 1 < norm_end s" "seg_search m (p - 1) < length m"
      using seg_search_correct [OF c assms(2), of "p - 1"] 3 by (auto simp: s_def)
    moreover have "orig_within l s" using calculation(3) assms by (auto simp: s_def wf_map_def)
    ultimately show ?thesis using 3 hl
      by (auto simp: map_end_def orig_within_def positional_def Let_def s_def [symmetric])
  qed (use hl in \<open>auto simp: map_end_def orig_within_def Let_def\<close>)
qed

lemma map_Span_bounds:
  assumes "wf_map n l m" "0 \<le> a" "a \<le> b" "b \<le> n"
  shows "0 \<le> fst (map_Span m a b) \<and> fst (map_Span m a b) \<le> snd (map_Span m a b) \<and> snd (map_Span m a b) \<le> l"
proof (cases "m = []")
  case True
  with assms show ?thesis by (simp add: map_Span_def Identity_def wf_map_def)
next
  case False
  with map_start_bounds [OF assms(1), of a] map_end_bounds [OF assms(1), of b]
  show ?thesis by (simp add: map_Span_def Identity_def Let_def)
qed

lemma map_Span_ordered: "a \<le> b \<Longrightarrow> fst (map_Span m a b) \<le> snd (map_Span m a b)"
  by (simp add: map_Span_def Let_def)

section \<open>Composition keeps maps well-formed\<close>

lemma split_run_nonempty: "mid < orig_end s \<Longrightarrow> split_run inner s mid \<noteq> []"
  by (simp add: split_run.simps Let_def)

lemma split_run_contiguous:
  assumes "orig_start s \<le> mid"
  shows "contiguous (norm_start s + (mid - orig_start s)) (split_run inner s mid)
    \<and> (mid < orig_end s \<longrightarrow> norm_end (last (split_run inner s mid)) = norm_start s + (orig_end s - orig_start s))"
  using assms
proof (induction inner s mid rule: split_run.induct)
  case (1 inner s mid)
  show ?case
  proof (cases "mid < orig_end s")
    case True
    define cut where "cut = split_cut inner s mid"
    have cut: "mid < cut" "cut \<le> orig_end s"
      using split_cut_progress [OF True] split_cut_le by (auto simp: cut_def)
    have rest: "contiguous (norm_start s + (cut - orig_start s)) (split_run inner s cut)
      \<and> (cut < orig_end s \<longrightarrow> norm_end (last (split_run inner s cut)) = norm_start s + (orig_end s - orig_start s))"
      by (rule "1.IH" [OF True]) (use cut "1.prems" in \<open>auto simp: cut_def\<close>)
    have nil: "split_run inner s cut = [] \<longleftrightarrow> cut = orig_end s"
      using cut split_run_nonempty [of cut s inner]
      by (cases "cut < orig_end s") (auto simp: split_run.simps)
    from rest nil cut True show ?thesis
      by (simp add: split_run.simps [of inner s mid] Let_def cut_def [symmetric])
  qed (simp add: split_run.simps)
qed

lemma split_run_within:
  assumes "wf_map k l inner" "0 \<le> mid" "orig_end s \<le> k"
  shows "\<forall>t \<in> set (split_run inner s mid). orig_within l t"
  using assms
proof (induction inner s mid rule: split_run.induct)
  case (1 inner s mid)
  show ?case
  proof (cases "mid < orig_end s")
    case True
    define cut where "cut = split_cut inner s mid"
    have cut: "mid < cut" "cut \<le> orig_end s"
      using split_cut_progress [OF True] split_cut_le by (auto simp: cut_def)
    have rest: "\<forall>t \<in> set (split_run inner s cut). orig_within l t"
      by (rule "1.IH" [OF True]) (use cut "1.prems" in \<open>auto simp: cut_def\<close>)
    have "0 \<le> fst (map_Span inner mid cut) \<and> fst (map_Span inner mid cut) \<le> snd (map_Span inner mid cut)
        \<and> snd (map_Span inner mid cut) \<le> l"
      by (rule map_Span_bounds [OF "1.prems"(1)]) (use cut "1.prems" in auto)
    with rest True show ?thesis
      by (simp add: split_run.simps [of inner s mid] Let_def orig_within_def cut_def [symmetric])
  qed (simp add: split_run.simps)
qed

lemma compose_segment_wf:
  assumes "wf_map k l inner" "orig_within k s" "norm_start s < norm_end s"
  shows "contiguous (norm_start s) (compose_segment inner s) \<and> compose_segment inner s \<noteq> []
    \<and> norm_end (last (compose_segment inner s)) = norm_end s
    \<and> (\<forall>t \<in> set (compose_segment inner s). orig_within l t)"
proof (cases "\<not> positional s \<or> orig_start s \<ge> norm_end (inner ! (length inner - 1))")
  case True
  have "0 \<le> fst (map_Span inner (orig_start s) (orig_end s))
      \<and> fst (map_Span inner (orig_start s) (orig_end s)) \<le> snd (map_Span inner (orig_start s) (orig_end s))
      \<and> snd (map_Span inner (orig_start s) (orig_end s)) \<le> l"
    by (rule map_Span_bounds [OF assms(1)]) (use assms(2) in \<open>auto simp: orig_within_def\<close>)
  with True assms(3) show ?thesis by (auto simp: compose_segment_def Let_def orig_within_def)
next
  case False
  then have eq: "compose_segment inner s = split_run inner s (orig_start s)"
    by (simp add: compose_segment_def Let_def)
  have lt: "orig_start s < orig_end s" "norm_end s = norm_start s + (orig_end s - orig_start s)"
    using False assms(3) by (auto simp: positional_def)
  have bounds: "0 \<le> orig_start s" "orig_end s \<le> k" using assms(2) by (auto simp: orig_within_def)
  show ?thesis
    using split_run_contiguous [of s "orig_start s" inner] split_run_nonempty [OF lt(1), of inner]
      split_run_within [OF assms(1) bounds] lt
    by (auto simp: eq)
qed

lemma concat_compose_wf:
  assumes "wf_map k l inner" "contiguous n outer" "\<forall>s \<in> set outer. orig_within k s"
  shows "contiguous n (concat (map (compose_segment inner) outer))
    \<and> (outer \<noteq> [] \<longrightarrow> concat (map (compose_segment inner) outer) \<noteq> []
        \<and> norm_end (last (concat (map (compose_segment inner) outer))) = norm_end (last outer))
    \<and> (\<forall>t \<in> set (concat (map (compose_segment inner) outer)). orig_within l t)"
  using assms(2,3)
proof (induction outer arbitrary: n)
  case (Cons s outer)
  have s: "norm_start s = n" "n < norm_end s" "contiguous (norm_end s) outer" "orig_within k s"
    using Cons.prems by auto
  note here = compose_segment_wf [OF assms(1) s(4)]
  note rest = Cons.IH [OF s(3)]
  show ?case
    using here rest s Cons.prems(2)
    by (cases "outer = []") (auto simp: contiguous_append last_append)
qed simp

lemma ComposeOffsets_wf:
  assumes "wf_map n k outer" "wf_map k l inner"
  shows "wf_map n l (ComposeOffsets outer inner)"
proof (cases "outer = [] \<or> inner = []")
  case True
  moreover have "orig_within k s \<Longrightarrow> k \<le> l \<Longrightarrow> orig_within l s" for s by (simp add: orig_within_def)
  ultimately show ?thesis using assms
    by (auto simp: ComposeOffsets_def Identity_def wf_map_def split: if_splits)
next
  case False
  then have "ComposeOffsets outer inner = concat (map (compose_segment inner) outer)"
    by (simp add: ComposeOffsets_def Identity_def NewOffsetMap_def)
  moreover have "contiguous 0 outer" "\<forall>s \<in> set outer. orig_within k s"
    using assms(1) by (auto simp: wf_map_def)
  ultimately show ?thesis
    using concat_compose_wf [OF assms(2), of 0 outer] False assms(1)
    by (auto simp: wf_map_def)
qed


section \<open>Single bytes\<close>

text \<open>
  \<open>byte_image m p\<close> is the original range the map gives for the one normalized byte \<open>p\<close>: one byte
  inside a positional segment, the whole run inside any other.
\<close>

definition byte_image :: "offset_map \<Rightarrow> int \<Rightarrow> int \<times> int" where
  "byte_image m p = map_Span m p (p + 1)"

lemma map_start_in_segment:
  assumes "contiguous 0 m" "s \<in> set m" "norm_start s \<le> p" "p < norm_end s"
  shows "map_start m p = (if positional s then orig_start s + (p - norm_start s) else orig_start s)"
proof -
  obtain i where i: "i < length m" "m ! i = s" using assms(2) by (auto simp: in_set_conv_nth)
  have ne: "m \<noteq> []" using i by auto
  have eq: "seg_search m p = i" using seg_search_unique [OF assms(1) i(1), of p] i assms by simp
  have last: "p < norm_end (m ! (length m - 1))"
    using contiguous_mem_bounds [OF assms(1,2)] assms(4) ne by (simp add: last_conv_nth)
  show ?thesis
  proof (cases "p \<le> norm_start (m ! 0)")
    case True
    have "norm_start (m ! 0) \<le> norm_start s"
      using contiguous_hd [OF assms(1) ne] contiguous_mem_bounds [OF assms(1,2)] by simp
    then have p: "p = norm_start (m ! 0)" "norm_start s = p" using True assms(3) by auto
    have "seg_search m p = 0"
      by (rule seg_search_unique [OF assms(1)])
        (use ne p contiguous_mem_bounds [OF assms(1), of "m ! 0"] in auto)
    with eq i have "s = m ! 0" by simp
    with p show ?thesis by (simp add: map_start_def)
  qed (use eq i last in \<open>simp add: map_start_def Let_def\<close>)
qed

lemma map_end_in_segment:
  assumes "contiguous 0 m" "s \<in> set m" "norm_start s < p" "p \<le> norm_end s"
  shows "map_end m p = (if positional s then orig_start s + (p - norm_start s) else orig_end s)"
proof -
  obtain i where i: "i < length m" "m ! i = s" using assms(2) by (auto simp: in_set_conv_nth)
  have ne: "m \<noteq> []" using i by auto
  have eq: "seg_search m (p - 1) = i" using seg_search_unique [OF assms(1) i(1), of "p - 1"] i assms by simp
  have b: "0 \<le> norm_start s" "norm_end s \<le> norm_end (m ! (length m - 1))"
    using contiguous_mem_bounds [OF assms(1,2)] ne by (simp_all add: last_conv_nth)
  have hd: "norm_start (m ! 0) = 0" by (rule contiguous_hd [OF assms(1) ne])
  show ?thesis
  proof (cases "p \<ge> norm_end (m ! (length m - 1))")
    case True
    then have p: "p = norm_end s" "norm_end s = norm_end (m ! (length m - 1))" using b assms(4) by auto
    have "seg_search m (p - 1) = length m - 1"
      by (rule seg_search_unique [OF assms(1)])
        (use ne p contiguous_mem_bounds [OF assms(1), of "m ! (length m - 1)"] in auto)
    with eq i have "s = m ! (length m - 1)" by simp
    with p b hd assms(3) show ?thesis by (simp add: map_end_def Let_def positional_def)
  qed (use eq i b hd assms(3) in \<open>simp add: map_end_def Let_def\<close>)
qed

lemma map_Span_in_segment:
  assumes "contiguous 0 m" "s \<in> set m" "norm_start s \<le> a" "a < b" "b \<le> norm_end s" "orig_start s \<le> orig_end s"
  shows "map_Span m a b =
     (if positional s then (orig_start s + (a - norm_start s), orig_start s + (b - norm_start s))
      else (orig_start s, orig_end s))"
proof -
  have "m \<noteq> []" using assms(2) by auto
  then show ?thesis
    using map_start_in_segment [OF assms(1,2), of a] map_end_in_segment [OF assms(1,2), of b] assms
    by (simp add: map_Span_def Identity_def Let_def)
qed

lemma byte_image_in_segment:
  assumes "contiguous 0 m" "s \<in> set m" "norm_start s \<le> p" "p < norm_end s" "orig_start s \<le> orig_end s"
  shows "byte_image m p =
     (if positional s then (orig_start s + (p - norm_start s), orig_start s + (p - norm_start s) + 1)
      else (orig_start s, orig_end s))"
  using map_Span_in_segment [OF assms(1-3), of "p + 1"] assms by (simp add: byte_image_def)

lemma segment_at:
  assumes "contiguous n m" "n \<le> p" "p < norm_end (last m)" "m \<noteq> []"
  obtains s where "s \<in> set m" "norm_start s \<le> p" "p < norm_end s"
  using seg_search_correct [OF assms(1,4,2,3)] that nth_mem by blast

section \<open>A redaction covers what it found\<close>

text \<open>
  Passes that rewrite text in place give maps whose original ranges ascend as well. On such a map
  the span of a normalized range covers the image of every byte of the range.
\<close>

definition ascending :: "offset_map \<Rightarrow> bool" where
  "ascending m = sorted_wrt (\<lambda>s t. orig_end s \<le> orig_start t) m"

lemma segments_apart:
  assumes "contiguous n m" "s \<in> set m" "t \<in> set m"
  shows "s = t \<or> norm_end s \<le> norm_start t \<or> norm_end t \<le> norm_start s"
proof -
  obtain i j where ij: "i < length m" "m ! i = s" "j < length m" "m ! j = t"
    using assms(2,3) by (auto simp: in_set_conv_nth)
  then show ?thesis
    using contiguous_nth_mono [OF assms(1), of i j] contiguous_nth_mono [OF assms(1), of j i]
    by (cases i j rule: linorder_cases) auto
qed

lemma ascending_segments:
  assumes "contiguous n m" "ascending m" "s \<in> set m" "t \<in> set m" "norm_start s < norm_start t"
  shows "orig_end s \<le> orig_start t"
proof -
  obtain i j where ij: "i < length m" "m ! i = s" "j < length m" "m ! j = t"
    using assms(3,4) by (auto simp: in_set_conv_nth)
  have "i < j"
  proof (rule ccontr)
    assume "\<not> i < j"
    then consider "i = j" | "j < i" by linarith
    then show False
      using contiguous_nth_mono [OF assms(1), of j i] contiguous_mem_bounds [OF assms(1,4)] ij assms(5)
      by cases auto
  qed
  then show ?thesis using assms(2) ij by (auto simp: ascending_def sorted_wrt_iff_nth_less)
qed

lemma map_Span_covers:
  assumes wf: "wf_map n l m" and asc: "ascending m"
    and range: "0 \<le> a" "a \<le> p" "p < b" "b \<le> n"
  shows "fst (map_Span m a b) \<le> fst (byte_image m p) \<and> snd (byte_image m p) \<le> snd (map_Span m a b)"
proof (cases "m = []")
  case True
  with range show ?thesis by (simp add: byte_image_def map_Span_def Identity_def)
next
  case False
  have c: "contiguous 0 m" and n: "n \<le> norm_end (last m)" and w: "\<And>s. s \<in> set m \<Longrightarrow> orig_within l s"
    using wf False by (auto simp: wf_map_def)
  obtain s where s: "s \<in> set m" "norm_start s \<le> a" "a < norm_end s"
    using segment_at [OF c, of a] range n False by auto
  obtain t where t: "t \<in> set m" "norm_start t \<le> p" "p < norm_end t"
    using segment_at [OF c, of p] range n False by auto
  obtain u where u: "u \<in> set m" "norm_start u \<le> b - 1" "b - 1 < norm_end u"
    using segment_at [OF c, of "b - 1"] range n False by auto
  have o: "orig_start x \<le> orig_end x" if "x \<in> set m" for x using w [OF that] by (simp add: orig_within_def)
  have len: "norm_start x < norm_end x" if "x \<in> set m" for x
    using contiguous_mem_bounds [OF c that] by simp
  have same: "x = y" if "x \<in> set m" "y \<in> set m" "norm_start x = norm_start y" for x y
    using segments_apart [OF c that(1,2)] len [OF that(1)] len [OF that(2)] that(3) by linarith
  have below: "norm_start x \<le> norm_start y"
    if "x \<in> set m" "y \<in> set m" "norm_start x \<le> i" "i \<le> j" "j < norm_end y" for x y i j
    using segments_apart [OF c that(1,2)] len [OF that(1)] that(3-5) by auto
  have st: "norm_start s \<le> norm_start t" using below [of s t a p] s t range by simp
  have tu: "norm_start t \<le> norm_start u" using below [of t u p "b - 1"] t u range by simp
  have ms: "map_start m a = (if positional s then orig_start s + (a - norm_start s) else orig_start s)"
    by (rule map_start_in_segment [OF c s])
  have me: "map_end m b = (if positional u then orig_start u + (b - norm_start u) else orig_end u)"
    by (rule map_end_in_segment [OF c u(1)]) (use u in auto)
  note bi = byte_image_in_segment [OF c t o [OF t(1)]]
  have lo: "map_start m a \<le> fst (byte_image m p)"
  proof (cases "s = t")
    case True
    then show ?thesis using ms bi range by simp
  next
    case False
    then have "orig_end s \<le> orig_start t"
      using ascending_segments [OF c asc s(1) t(1)] st same [OF s(1) t(1)] by linarith
    with ms bi s t o [OF s(1)] show ?thesis by (auto simp: positional_def)
  qed
  have hi: "snd (byte_image m p) \<le> map_end m b"
  proof (cases "t = u")
    case True
    then show ?thesis using me bi range by simp
  next
    case False
    then have "orig_end t \<le> orig_start u"
      using ascending_segments [OF c asc t(1) u(1)] tu same [OF t(1) u(1)] by linarith
    with me bi t u o [OF u(1)] show ?thesis by (auto simp: positional_def)
  qed
  have "fst (byte_image m p) \<le> snd (byte_image m p)" using bi o [OF t(1)] by simp
  with lo hi False show ?thesis by (auto simp: map_Span_def Identity_def Let_def)
qed


text \<open>
  The original bytes that a byte of a segment came from, as the comment on \<open>OffsetSegment\<close> says: one
  byte, as far into the original run as it is into its own, when the runs have the same length, and the whole
  original run otherwise.
\<close>

definition byte_origin :: "offset_segment \<Rightarrow> int \<Rightarrow> int \<times> int" where
  "byte_origin s p =
     (if norm_end s - norm_start s = orig_end s - orig_start s
      then (orig_start s + (p - norm_start s), orig_start s + (p - norm_start s) + 1)
      else (orig_start s, orig_end s))"

lemma byte_image_origin:
  "contiguous 0 m \<Longrightarrow> s \<in> set m \<Longrightarrow> norm_start s \<le> p \<Longrightarrow> p < norm_end s \<Longrightarrow> orig_start s \<le> orig_end s \<Longrightarrow>
     byte_image m p = byte_origin s p"
  by (simp add: byte_image_in_segment byte_origin_def positional_def)

lemma map_Span_hull:
  assumes wf: "wf_map n l m" and asc: "ascending m" and ne: "m \<noteq> []"
    and range: "0 \<le> a" "a < b" "b \<le> n"
  shows "s \<in> set m \<Longrightarrow> a \<le> p \<Longrightarrow> p < b \<Longrightarrow> norm_start s \<le> p \<Longrightarrow> p < norm_end s \<Longrightarrow>
      fst (map_Span m a b) \<le> fst (byte_origin s p) \<and> snd (byte_origin s p) \<le> snd (map_Span m a b)"
    "\<exists>s \<in> set m. norm_start s \<le> a \<and> a < norm_end s \<and> fst (map_Span m a b) = fst (byte_origin s a)"
    "\<exists>u \<in> set m. norm_start u < b \<and> b \<le> norm_end u \<and> snd (map_Span m a b) = snd (byte_origin u (b - 1))"
proof -
  have c: "contiguous 0 m" and n: "n \<le> norm_end (last m)" and w: "\<And>s. s \<in> set m \<Longrightarrow> orig_start s \<le> orig_end s"
    using wf ne by (auto simp: wf_map_def orig_within_def)
  show cover: "fst (map_Span m a b) \<le> fst (byte_origin s p) \<and> snd (byte_origin s p) \<le> snd (map_Span m a b)"
    if "s \<in> set m" "a \<le> p" "p < b" "norm_start s \<le> p" "p < norm_end s" for s p
    using map_Span_covers [OF wf asc range(1) that(2,3) range(3)] byte_image_origin [OF c that(1,4,5) w [OF that(1)]] by simp
  obtain s where s: "s \<in> set m" "norm_start s \<le> a" "a < norm_end s"
    using segment_at [OF c, of a] range n ne by auto
  have "fst (map_Span m a b) = map_start m a" using ne by (simp add: map_Span_def Identity_def Let_def)
  then have "fst (map_Span m a b) = fst (byte_origin s a)"
    using map_start_in_segment [OF c s] by (simp add: byte_origin_def positional_def)
  with s show "\<exists>s \<in> set m. norm_start s \<le> a \<and> a < norm_end s \<and> fst (map_Span m a b) = fst (byte_origin s a)" by blast
  obtain u where u: "u \<in> set m" "norm_start u \<le> b - 1" "b - 1 < norm_end u"
    using segment_at [OF c, of "b - 1"] range n ne by auto
  have me: "map_end m b = snd (byte_origin u (b - 1))"
    using map_end_in_segment [OF c u(1), of b] u by (simp add: byte_origin_def positional_def)
  have "fst (byte_origin u (b - 1)) \<le> snd (byte_origin u (b - 1))" using w [OF u(1)] by (simp add: byte_origin_def)
  then have "map_start m a \<le> map_end m b"
    using cover [OF u(1) _ _ u(2,3)] range me ne by (auto simp: map_Span_def Identity_def Let_def split: if_splits)
  then have "snd (map_Span m a b) = snd (byte_origin u (b - 1))"
    using me ne by (simp add: map_Span_def Identity_def Let_def)
  with u show "\<exists>u \<in> set m. norm_start u < b \<and> b \<le> norm_end u \<and> snd (map_Span m a b) = snd (byte_origin u (b - 1))"
    by (intro bexI [of _ u]) auto
qed

section \<open>Composition, byte by byte\<close>

text \<open>
  \<open>maps_run inner a b t\<close>: the composed segment \<open>t\<close> carries what the inner map says of one of its
  own segments \<open>u\<close>, restricted to the offsets from \<open>a\<close> to \<open>b\<close>.
\<close>

definition maps_run :: "offset_map \<Rightarrow> int \<Rightarrow> int \<Rightarrow> offset_segment \<Rightarrow> offset_segment \<Rightarrow> bool" where
  "maps_run inner a b u t =
     (u \<in> set inner \<and> norm_start u \<le> a \<and> a < b \<and> b \<le> norm_end u
      \<and> norm_end t - norm_start t = b - a
      \<and> (if positional u
         then orig_start t = orig_start u + (a - norm_start u) \<and> orig_end t = orig_start u + (b - norm_start u)
         else orig_start t = orig_start u \<and> orig_end t = orig_end u))"

lemma split_cut_in_segment:
  assumes "contiguous 0 inner" "inner \<noteq> []" "0 \<le> mid" "mid < orig_end s" "orig_end s \<le> norm_end (last inner)"
  obtains u where "u \<in> set inner" "norm_start u \<le> mid" "split_cut inner s mid \<le> norm_end u"
proof -
  let ?u = "inner ! seg_search inner mid"
  have m: "mid < norm_end (last inner)" using assms(4,5) by simp
  note sc = seg_search_correct [OF assms(1,2,3) m]
  show thesis
    by (rule that [of ?u]) (use sc assms(4) in \<open>auto simp: split_cut_def Let_def\<close>)
qed

lemma split_run_piece:
  assumes "wf_map k l inner" "inner \<noteq> []" "0 \<le> mid" "orig_end s \<le> k" "mid \<le> q" "q < orig_end s"
  shows "\<exists>t \<in> set (split_run inner s mid). \<exists>a b u. maps_run inner a b u t \<and> a \<le> q \<and> q < b
    \<and> norm_start t = norm_start s + (a - orig_start s)"
  using assms
proof (induction inner s mid rule: split_run.induct)
  case (1 inner s mid)
  have lt: "mid < orig_end s" using "1.prems" by simp
  have c: "contiguous 0 inner" "orig_end s \<le> norm_end (last inner)"
    and o: "\<And>u. u \<in> set inner \<Longrightarrow> orig_start u \<le> orig_end u"
    using "1.prems"(1,2,4) by (auto simp: wf_map_def orig_within_def)
  define cut where "cut = split_cut inner s mid"
  have cut: "mid < cut" "cut \<le> orig_end s"
    using split_cut_progress [OF lt] split_cut_le by (auto simp: cut_def)
  define t where "t = \<lparr>norm_start = norm_start s + (mid - orig_start s), norm_end = norm_start s + (cut - orig_start s),
     orig_start = fst (map_Span inner mid cut), orig_end = snd (map_Span inner mid cut)\<rparr>"
  have run: "split_run inner s mid = t # split_run inner s cut"
    using lt by (simp add: split_run.simps [of inner s mid] Let_def cut_def t_def)
  show ?case
  proof (cases "q < cut")
    case True
    obtain u where u: "u \<in> set inner" "norm_start u \<le> mid" "cut \<le> norm_end u"
      using split_cut_in_segment [OF c(1) "1.prems"(2,3) lt c(2)] by (auto simp: cut_def)
    have "maps_run inner mid cut u t"
      using map_Span_in_segment [OF c(1) u(1,2) cut(1) u(3) o [OF u(1)]] u cut(1)
      by (simp add: maps_run_def t_def)
    moreover have "norm_start t = norm_start s + (mid - orig_start s)" by (simp add: t_def)
    ultimately have "\<exists>a b u. maps_run inner a b u t \<and> a \<le> q \<and> q < b \<and> norm_start t = norm_start s + (a - orig_start s)"
      using True "1.prems"(5) by blast
    then show ?thesis by (simp add: run)
  next
    case False
    then have "\<exists>t \<in> set (split_run inner s cut). \<exists>a b u. maps_run inner a b u t \<and> a \<le> q \<and> q < b
        \<and> norm_start t = norm_start s + (a - orig_start s)"
      using "1.IH" [OF lt cut_def _ "1.prems"(1,2)] "1.prems" cut by auto
    then show ?thesis by (auto simp: run)
  qed
qed

lemma compose_positional:
  assumes wf: "wf_map n k outer" "wf_map k l inner" "inner \<noteq> []"
    and s: "s \<in> set outer" "positional s" "norm_start s \<le> p" "p < norm_end s"
    and q: "q = orig_start s + (p - norm_start s)"
  obtains t a b u where "t \<in> set (ComposeOffsets outer inner)" "maps_run inner a b u t" "a \<le> q" "q < b"
    "norm_start t = p - (q - a)"
proof -
  have os: "0 \<le> orig_start s" "orig_end s \<le> k" "q < orig_end s" "orig_start s \<le> q"
    using wf(1) s q by (auto simp: wf_map_def orig_within_def positional_def)
  have "k \<le> norm_end (inner ! (length inner - 1))" using wf(2,3) by (simp add: wf_map_def last_conv_nth)
  then have cs: "compose_segment inner s = split_run inner s (orig_start s)"
    using s os by (simp add: compose_segment_def Let_def)
  obtain t a b u where t: "t \<in> set (split_run inner s (orig_start s))" "maps_run inner a b u t" "a \<le> q" "q < b"
    "norm_start t = norm_start s + (a - orig_start s)"
    using split_run_piece [OF wf(2,3) os(1,2,4,3)] by blast
  have "t \<in> set (ComposeOffsets outer inner)"
    using t(1) s(1) wf(3) cs by (auto simp: ComposeOffsets_def Identity_def NewOffsetMap_def intro!: bexI [of _ s])
  with t q show thesis by (intro that [of t a b u]) auto
qed

lemma compose_positional_image:
  assumes wf: "wf_map n k outer" "wf_map k l inner" "inner \<noteq> []"
    and s: "s \<in> set outer" "positional s" "norm_start s \<le> p" "p < norm_end s"
    and q: "q = orig_start s + (p - norm_start s)"
  shows "fst (byte_image inner q) \<le> fst (byte_image (ComposeOffsets outer inner) p)
    \<and> snd (byte_image (ComposeOffsets outer inner) p) \<le> snd (byte_image inner q)
    \<and> ((\<forall>u \<in> set inner. positional u \<or> orig_end u = orig_start u \<or> norm_end u - norm_start u < orig_end u - orig_start u)
       \<longrightarrow> byte_image (ComposeOffsets outer inner) p = byte_image inner q)"
proof -
  obtain t a b u where t: "t \<in> set (ComposeOffsets outer inner)" "maps_run inner a b u t" "a \<le> q" "q < b"
    "norm_start t = p - (q - a)"
    by (rule compose_positional [OF assms])
  have c: "contiguous 0 inner" "contiguous 0 (ComposeOffsets outer inner)"
    using wf ComposeOffsets_wf [OF wf(1,2)] by (auto simp: wf_map_def)
  have u: "u \<in> set inner" "norm_start u \<le> q" "q < norm_end u" using t by (auto simp: maps_run_def)
  have ou: "orig_start u \<le> orig_end u" using u(1) wf(2) by (auto simp: wf_map_def orig_within_def)
  have ot: "orig_start t \<le> orig_end t" using t(2) ou by (auto simp: maps_run_def split: if_splits)
  have tp: "norm_start t \<le> p" "p < norm_end t" using t by (auto simp: maps_run_def)
  note bu = byte_image_in_segment [OF c(1) u ou]
  note bt = byte_image_in_segment [OF c(2) t(1) tp ot]
  show ?thesis
    using t(2-5) bu bt ou u(1)
    by (cases "positional u") (auto simp: maps_run_def positional_def [of t] split: if_splits)
qed

text \<open>
  A byte of the composed map never maps wider than the two maps applied one after the other, and
  it maps exactly as they do where the outer pass kept the byte and no inner run is as long as
  what it came from by accident.
\<close>

lemma compose_widens_not:
  assumes wf: "wf_map n k outer" "wf_map k l inner" and p: "0 \<le> p" "p < n"
  shows "(let (a, b) = byte_image outer p; (c, d) = map_Span inner a b; (e, f) = byte_image (ComposeOffsets outer inner) p
    in c \<le> e \<and> f \<le> d)"
proof (cases "outer = [] \<or> inner = []")
  case True
  then show ?thesis
    by (auto simp: ComposeOffsets_def Identity_def byte_image_def map_Span_def Let_def)
next
  case False
  have c: "contiguous 0 outer" "p < norm_end (last outer)" using wf(1) False p by (auto simp: wf_map_def)
  obtain s where s: "s \<in> set outer" "norm_start s \<le> p" "p < norm_end s"
    using segment_at [OF c(1) p(1) c(2)] False by auto
  have os: "orig_within k s" "orig_start s \<le> orig_end s"
    using wf(1) s(1) by (auto simp: wf_map_def orig_within_def)
  note bo = byte_image_in_segment [OF c(1) s os(2)]
  show ?thesis
  proof (cases "positional s")
    case True
    with compose_positional_image [OF wf _ s(1) _ s(2,3) refl] bo False
    show ?thesis by (simp add: byte_image_def [of inner] split_beta algebra_simps)
  next
    case np: False
    define t where "t = \<lparr>norm_start = norm_start s, norm_end = norm_end s,
      orig_start = fst (map_Span inner (orig_start s) (orig_end s)),
      orig_end = snd (map_Span inner (orig_start s) (orig_end s))\<rparr>"
    have t: "t \<in> set (ComposeOffsets outer inner)"
      using s(1) np False
      by (auto simp: ComposeOffsets_def Identity_def NewOffsetMap_def compose_segment_def Let_def t_def intro!: bexI [of _ s])
    have cc: "contiguous 0 (ComposeOffsets outer inner)"
      using ComposeOffsets_wf [OF wf] by (simp add: wf_map_def)
    have ot: "orig_start t \<le> orig_end t" using map_Span_ordered [OF os(2)] by (simp add: t_def)
    have "norm_start t \<le> p" "p < norm_end t" using s by (simp_all add: t_def)
    note bt = byte_image_in_segment [OF cc t this ot]
    show ?thesis using bt bo np ot s by (auto simp: t_def positional_def split_beta)
  qed
qed

section \<open>Properties\<close>

text \<open>C24: composing the maps of two passes gives a well-formed map again, and a span of the normalized
  text maps through it to an ordered span that lies inside the original text: remapping a finding
  can never point outside the payload.\<close>

theorem composed_span_in_bounds:
  assumes "wf_map n k outer" "wf_map k l inner" "0 \<le> a" "a \<le> b" "b \<le> n"
  shows "wf_map n l (ComposeOffsets outer inner)
    \<and> (case map_Span (ComposeOffsets outer inner) a b of (i, j) \<Rightarrow> 0 \<le> i \<and> i \<le> j \<and> j \<le> l)"
  using ComposeOffsets_wf [OF assms(1,2)] map_Span_bounds [OF ComposeOffsets_wf [OF assms(1,2)] assms(3-5)]
  by (simp add: split_beta)

text \<open>The map of decoding \<open>a%41b\<close> to \<open>aAb\<close>, and of a later pass that drops the last byte.\<close>

definition sample_inner :: offset_map where
  "sample_inner = [\<lparr>norm_start = 0, norm_end = 1, orig_start = 0, orig_end = 1\<rparr>,
     \<lparr>norm_start = 1, norm_end = 2, orig_start = 1, orig_end = 4\<rparr>,
     \<lparr>norm_start = 2, norm_end = 3, orig_start = 4, orig_end = 5\<rparr>]"

definition sample_outer :: offset_map where
  "sample_outer = [\<lparr>norm_start = 0, norm_end = 2, orig_start = 0, orig_end = 2\<rparr>]"

lemma sample_maps_wf: "wf_map 2 3 sample_outer" "wf_map 3 5 sample_inner"
  by (simp_all add: wf_map_def sample_outer_def sample_inner_def orig_within_def)

theorem composed_span_in_bounds_witness:
  "wf_map 2 5 (ComposeOffsets sample_outer sample_inner)
   \<and> (case map_Span (ComposeOffsets sample_outer sample_inner) 0 2 of (i, j) \<Rightarrow> 0 \<le> i \<and> i \<le> j \<and> j \<le> 5)"
  using composed_span_in_bounds [OF sample_maps_wf, of 0 2] by simp

text \<open>C25: when a map's runs ascend in the original, as those of every substituting or dropping pass
  do, the span of a normalized range is exactly what the range came from: it covers the original bytes of
  each of its bytes, so that nothing a detector flagged is left outside the redaction, it starts with those of the first
  byte and ends with those of the last, so that nothing around them is taken along. The empty map changes nothing.\<close>

theorem span_covers_every_byte:
  assumes "wf_map n l m" "ascending m" "0 \<le> a" "a < b" "b \<le> n"
  shows "if m = [] then map_Span m a b = (a, b)
    else (\<forall>s \<in> set m. \<forall>p. a \<le> p \<and> p < b \<and> norm_start s \<le> p \<and> p < norm_end s \<longrightarrow>
            fst (map_Span m a b) \<le> fst (byte_origin s p) \<and> snd (byte_origin s p) \<le> snd (map_Span m a b))
      \<and> (\<exists>s \<in> set m. norm_start s \<le> a \<and> a < norm_end s \<and> fst (map_Span m a b) = fst (byte_origin s a))
      \<and> (\<exists>u \<in> set m. norm_start u < b \<and> b \<le> norm_end u \<and> snd (map_Span m a b) = snd (byte_origin u (b - 1)))"
proof (cases "m = []")
  case True
  then show ?thesis by (simp add: map_Span_def Identity_def)
next
  case False
  then show ?thesis using map_Span_hull [OF assms(1,2) False assms(3-5)] by auto
qed

text \<open>The decoded byte of \<open>a%41b\<close> comes from the three bytes of its escape.\<close>

theorem span_covers_every_byte_witness:
  "ascending sample_inner \<and> map_Span sample_inner 1 2 = (1, 4)
   \<and> fst (map_Span sample_inner 0 3) \<le> 1 \<and> 4 \<le> snd (map_Span sample_inner 0 3)"
proof -
  have asc: "ascending sample_inner" by (simp add: ascending_def sample_inner_def)
  have mem: "\<lparr>norm_start = 1, norm_end = 2, orig_start = 1, orig_end = 4\<rparr> \<in> set sample_inner" by (simp add: sample_inner_def)
  have ne: "sample_inner \<noteq> []" by (simp add: sample_inner_def)
  have only: "s \<in> set sample_inner \<Longrightarrow> norm_start s \<le> 1 \<Longrightarrow> 1 < norm_end s \<Longrightarrow> byte_origin s 1 = (1, 4)" for s
    by (auto simp: sample_inner_def byte_origin_def)
  have "map_Span sample_inner 1 2 = (1, 4)"
    using span_covers_every_byte [OF sample_maps_wf(2) asc, of 1 2] ne only by (auto simp: prod_eq_iff)
  moreover have "\<forall>s \<in> set sample_inner. \<forall>p. 0 \<le> p \<and> p < 3 \<and> norm_start s \<le> p \<and> p < norm_end s \<longrightarrow>
      fst (map_Span sample_inner 0 3) \<le> fst (byte_origin s p) \<and> snd (byte_origin s p) \<le> snd (map_Span sample_inner 0 3)"
    using span_covers_every_byte [OF sample_maps_wf(2) asc, of 0 3] ne by (simp only: if_False) simp
  from this [rule_format, OF mem, of 1] have "fst (map_Span sample_inner 0 3) \<le> 1 \<and> 4 \<le> snd (map_Span sample_inner 0 3)"
    using only [OF mem] by simp
  ultimately show ?thesis using asc by blast
qed

text \<open>A byte of the composed map never maps wider than the two maps applied one after the other,
  and maps exactly as they do where the outer pass kept the byte and no inner run is as long as what
  it came from by accident.\<close>

theorem compose_never_widens:
  assumes "wf_map n k outer" "wf_map k l inner" "inner \<noteq> []" "s \<in> set outer" "norm_start s \<le> p" "p < norm_end s"
    "0 \<le> p" "p < n"
  shows "(let (a, b) = byte_image outer p; (c, d) = map_Span inner a b;
              (e, f) = byte_image (ComposeOffsets outer inner) p
          in c \<le> e \<and> f \<le> d)
    \<and> (positional s \<and> (\<forall>u \<in> set inner. positional u \<or> orig_end u = orig_start u
            \<or> norm_end u - norm_start u < orig_end u - orig_start u) \<longrightarrow>
         byte_image (ComposeOffsets outer inner) p = byte_image inner (orig_start s + (p - norm_start s)))"
  using compose_widens_not [OF assms(1,2,7,8)] compose_positional_image [OF assms(1-4) _ assms(5,6) refl] by blast

theorem compose_never_widens_witness:
  "byte_image (ComposeOffsets sample_outer sample_inner) 1 = byte_image sample_inner 1"
  using compose_never_widens [OF sample_maps_wf, of "sample_outer ! 0" 1]
  by (simp add: sample_outer_def sample_inner_def positional_def)

end
