(* ===== verification/Float64.thy ===== *)
theory Float64
  imports Prelude "HOL-Library.Log_Nat"
begin

text \<open>
  Go's \<open>float64\<close> arithmetic: an operation gives the exact result rounded to the nearest number of 53 significant bits,
  ties to even, subnormal numbers included. Overflow is left out: nothing here comes near \<open>2\<^sup>1\<^sup>0\<^sup>2\<^sup>4\<close>. A part
  of the language, it maps to no line of the repository.
\<close>

section \<open>Rounding to an integer\<close>

definition half_even :: "rat \<Rightarrow> int" where
  "half_even x =
     (let n = \<lfloor>x\<rfloor>; r = x - of_int n
      in if r < 1 / 2 then n else if r > 1 / 2 then n + 1 else if even n then n else n + 1)"

lemma half_even_of_int [simp]: "half_even (of_int n) = n"
  by (simp add: half_even_def)

lemma half_even_near: "\<bar>of_int (half_even x) - x\<bar> \<le> 1 / 2"
proof -
  have "of_int \<lfloor>x\<rfloor> \<le> x" "x < of_int \<lfloor>x\<rfloor> + 1" by linarith+
  then show ?thesis by (auto simp: half_even_def Let_def abs_le_iff)
qed

lemma half_even_mono:
  assumes "x \<le> y"
  shows "half_even x \<le> half_even y"
proof (cases "\<lfloor>x\<rfloor> = \<lfloor>y\<rfloor>")
  case True
  then show ?thesis using assms unfolding half_even_def Let_def by auto
next
  case False
  then have "\<lfloor>x\<rfloor> + 1 \<le> \<lfloor>y\<rfloor>" using floor_mono [OF assms] by simp
  then show ?thesis unfolding half_even_def Let_def by auto
qed

section \<open>Binades\<close>

text \<open>The power of two at or below a positive number.\<close>

definition binade :: "rat \<Rightarrow> int" where
  "binade x = (let (n, d) = quotient_of x; k = bitlen n - bitlen d in if 2 powi k \<le> x then k else k - 1)"

lemma powi_two_mono: "a \<le> b \<Longrightarrow> (2 :: rat) powi a \<le> 2 powi b"
  by (simp add: power_int_increasing)

lemma powi_two_add: "(2 :: rat) powi (a + b) = 2 powi a * 2 powi b"
  by (simp add: power_int_add)

lemma bitlen_powi:
  assumes "0 < n"
  shows "(2 :: rat) powi (bitlen n - 1) \<le> of_int n \<and> (of_int n :: rat) < 2 powi (bitlen n)"
proof -
  have pos: "1 \<le> bitlen n" using assms bitlen_nonneg [of n] bitlen_eq_zero_iff [of n] by simp
  have b: "2 ^ nat (bitlen n - 1) \<le> n" "n < 2 ^ nat (bitlen n)" using bitlen_bounds [OF assms] by auto
  have "(2 :: rat) powi (bitlen n - 1) = of_int (2 ^ nat (bitlen n - 1))" "(2 :: rat) powi bitlen n = of_int (2 ^ nat (bitlen n))"
    using pos by (simp_all add: power_int_def)
  then show ?thesis using b by (metis of_int_le_iff of_int_less_iff)
qed

lemma binade:
  assumes "0 < x"
  shows "2 powi binade x \<le> x" "x < 2 powi (binade x + 1)"
proof -
  obtain n d where q: "quotient_of x = (n, d)" by fastforce
  define k where "k = bitlen n - bitlen d"
  have d: "0 < d" and x: "x = of_int n / of_int d" using quotient_of_denom_pos [OF q] quotient_of_div [OF q] by simp_all
  then have n: "0 < n" using assms by (simp add: zero_less_divide_iff)
  have N: "(2 :: rat) powi (bitlen n - 1) \<le> of_int n" "(of_int n :: rat) < 2 powi bitlen n"
    and D: "(2 :: rat) powi (bitlen d - 1) \<le> of_int d" "(of_int d :: rat) < 2 powi bitlen d"
    using bitlen_powi [OF n] bitlen_powi [OF d] by auto
  have "x < 2 powi bitlen n / 2 powi (bitlen d - 1)"
    unfolding x using N(2) D(1) n by (intro frac_less) simp_all
  also have "\<dots> = 2 powi (k + 1)" by (simp add: k_def power_int_diff [symmetric] algebra_simps)
  finally have hi: "x < 2 powi (k + 1)" .
  have "2 powi (bitlen n - 1) / 2 powi bitlen d \<le> x"
    unfolding x using N(1) D(2) d n by (intro frac_le) simp_all
  moreover have "(2 :: rat) powi (bitlen n - 1) / 2 powi bitlen d = 2 powi (k - 1)"
    by (simp add: k_def power_int_diff [symmetric] algebra_simps)
  ultimately have lo: "2 powi (k - 1) \<le> x" by simp
  have "binade x = (if 2 powi k \<le> x then k else k - 1)" by (simp add: binade_def q k_def)
  then show "2 powi binade x \<le> x" "x < 2 powi (binade x + 1)" using lo hi by (auto split: if_splits)
qed

lemma binade_mono: "0 < x \<Longrightarrow> x \<le> y \<Longrightarrow> binade x \<le> binade y"
proof (rule ccontr)
  assume a: "0 < x" "x \<le> y" "\<not> binade x \<le> binade y"
  then have "(2 :: rat) powi (binade y + 1) \<le> 2 powi binade x" by (intro powi_two_mono) simp
  then show False using a binade [of x] binade [of y] by simp
qed

section \<open>Rounding\<close>

text \<open>The exponent of the last bit.\<close>

definition f64_exp :: "rat \<Rightarrow> int" where
  "f64_exp x = (if x = 0 then -1074 else max (binade \<bar>x\<bar> - 52) (-1074))"

definition f64 :: "rat \<Rightarrow> rat" where
  "f64 x = of_int (half_even (x / 2 powi f64_exp x)) * 2 powi f64_exp x"

lemma f64_exp_bound: "\<bar>x\<bar> < 2 powi (f64_exp x + 53)"
proof (cases "x = 0")
  case False
  then have "\<bar>x\<bar> < 2 powi (binade \<bar>x\<bar> + 1)" using binade(2) [of "\<bar>x\<bar>"] by simp
  also have "\<dots> \<le> 2 powi (f64_exp x + 53)" using False by (intro powi_two_mono) (simp add: f64_exp_def)
  finally show ?thesis .
qed simp

lemma f64_exp_mono: "\<bar>x\<bar> \<le> \<bar>y\<bar> \<Longrightarrow> f64_exp x \<le> f64_exp y"
  using binade_mono [of "\<bar>x\<bar>" "\<bar>y\<bar>"] by (auto simp: f64_exp_def)

lemma f64_exp_normal: "-1074 < f64_exp x \<Longrightarrow> 2 powi (f64_exp x + 52) \<le> \<bar>x\<bar>"
  using binade(1) [of "\<bar>x\<bar>"] by (auto simp: f64_exp_def max_def split: if_splits)

text \<open>The numbers that need no rounding.\<close>

lemma f64_exact:
  assumes "x = of_int k * 2 powi e" "\<bar>k\<bar> \<le> 2 ^ 53" "-1074 \<le> e"
  shows "f64 x = x"
proof -
  have "\<exists>j. x / 2 powi f64_exp x = of_int j"
  proof (cases "f64_exp x \<le> e")
    case True
    then have "(2 :: rat) powi (e - f64_exp x) = of_int (2 ^ nat (e - f64_exp x))" by (simp add: power_int_def)
    moreover have "x / 2 powi f64_exp x = of_int k * 2 powi (e - f64_exp x)" by (simp add: assms(1) power_int_diff)
    ultimately have "x / 2 powi f64_exp x = of_int (k * 2 ^ nat (e - f64_exp x))" by simp
    then show ?thesis by blast
  next
    case False
    then have "2 powi (f64_exp x + 52) \<le> \<bar>x\<bar>" using assms(3) by (intro f64_exp_normal) simp
    moreover have "\<bar>x\<bar> \<le> 2 powi (e + 53)"
    proof -
      have "\<bar>x\<bar> = of_int \<bar>k\<bar> * 2 powi e" by (simp add: assms(1) abs_mult)
      also have "\<dots> \<le> 2 ^ 53 * 2 powi e" using assms(2) by (intro mult_right_mono) (metis of_int_le_iff of_int_power of_int_numeral, simp)
      also have "\<dots> = 2 powi (e + 53)" by (simp add: powi_two_add)
      finally show ?thesis .
    qed
    ultimately have "(2 :: rat) powi (f64_exp x + 52) \<le> 2 powi (e + 53)" "\<bar>x\<bar> \<le> 2 powi (e + 53)" by simp_all
    then have e: "f64_exp x = e + 1" using False power_int_strict_increasing [of "e + 53" "f64_exp x + 52" "2 :: rat"] by linarith
    then have "\<bar>x\<bar> = 2 powi (e + 53)" using \<open>2 powi (f64_exp x + 52) \<le> \<bar>x\<bar>\<close> \<open>\<bar>x\<bar> \<le> 2 powi (e + 53)\<close> by (simp add: add.commute)
    then have "\<bar>x\<bar> / 2 powi f64_exp x = 2 ^ 52" by (simp add: e powi_two_add [of e] power_int_add)
    then have "x / 2 powi f64_exp x = of_int (2 ^ 52) \<or> x / 2 powi f64_exp x = of_int (- (2 ^ 52))" by (auto simp: abs_if split: if_splits)
    then show ?thesis by blast
  qed
  then obtain j where j: "x / 2 powi f64_exp x = of_int j" ..
  then have "f64 x = of_int j * 2 powi f64_exp x" by (simp add: f64_def)
  also have "\<dots> = x" by (simp flip: j)
  finally show ?thesis .
qed

text \<open>A number as the code holds it.\<close>

definition is_f64 :: "rat \<Rightarrow> bool" where
  "is_f64 x = (\<exists>k e. x = of_int k * 2 powi e \<and> \<bar>k\<bar> \<le> 2 ^ 53 \<and> -1074 \<le> e)"

lemma f64_fixed: "is_f64 x \<Longrightarrow> f64 x = x"
  by (auto simp: is_f64_def intro: f64_exact)

lemma f64_significand: "\<bar>half_even (x / 2 powi f64_exp x)\<bar> \<le> 2 ^ 53"
proof -
  have "\<bar>x\<bar> < 2 powi f64_exp x * 2 ^ 53" using f64_exp_bound [of x] by (simp add: powi_two_add)
  then have "\<bar>x\<bar> / 2 powi f64_exp x < 2 ^ 53" by (simp add: pos_divide_less_eq mult.commute)
  then have "\<bar>x / 2 powi f64_exp x\<bar> < 2 ^ 53" by (simp add: abs_divide)
  then have "of_int (- (2 ^ 53)) \<le> x / 2 powi f64_exp x" "x / 2 powi f64_exp x \<le> of_int (2 ^ 53)"
    unfolding of_int_minus of_int_power of_int_numeral by linarith+
  from this [THEN half_even_mono] show ?thesis unfolding half_even_of_int by linarith
qed

lemma f64_is [simp]: "is_f64 (f64 x)"
  unfolding is_f64_def
proof (intro exI conjI)
  show "f64 x = of_int (half_even (x / 2 powi f64_exp x)) * 2 powi f64_exp x" by (rule f64_def)
qed (rule f64_significand, simp add: f64_exp_def)

lemma f64_idem [simp]: "f64 (f64 x) = f64 x"
  by (rule f64_fixed) simp

lemma f64_mono_pos:
  assumes "0 \<le> x" "x \<le> y"
  shows "f64 x \<le> f64 y"
proof (cases "f64_exp x = f64_exp y")
  case True
  have "half_even (x / 2 powi f64_exp y) \<le> half_even (y / 2 powi f64_exp y)"
    using assms(2) by (intro half_even_mono divide_right_mono) simp_all
  then show ?thesis unfolding f64_def True by (intro mult_right_mono) simp_all
next
  case False
  then have less: "f64_exp x + 1 \<le> f64_exp y" using f64_exp_mono [of x y] assms by simp
  have "(of_int (half_even (x / 2 powi f64_exp x)) :: rat) \<le> 2 ^ 53"
    using f64_significand [of x] by (metis abs_le_D1 of_int_le_iff of_int_numeral of_int_power)
  then have "f64 x \<le> 2 ^ 53 * 2 powi f64_exp x" unfolding f64_def by (intro mult_right_mono) simp_all
  also have "\<dots> = 2 powi (f64_exp x + 1 + 52)" by (simp add: powi_two_add)
  also have "\<dots> \<le> 2 powi (f64_exp y + 52)" using less by (intro powi_two_mono) simp
  also have "\<dots> = of_int (2 ^ 52) * 2 powi f64_exp y" by (simp add: powi_two_add)
  also have "\<dots> \<le> f64 y"
  proof -
    have "-1074 \<le> f64_exp x" by (simp add: f64_exp_def)
    then have "2 powi (f64_exp y + 52) \<le> \<bar>y\<bar>" using less by (intro f64_exp_normal) simp
    then have "of_int (2 ^ 52) \<le> y / 2 powi f64_exp y" using assms by (simp add: powi_two_add pos_le_divide_eq mult.commute)
    from half_even_mono [OF this] show ?thesis unfolding f64_def half_even_of_int
      by (intro mult_right_mono) (metis of_int_le_iff, simp)
  qed
  finally show ?thesis .
qed

lemma f64_0 [simp]: "f64 0 = 0"
  by (simp add: f64_def half_even_def)

lemma f64_of_int: "\<bar>k\<bar> \<le> 2 ^ 53 \<Longrightarrow> f64 (of_int k) = of_int k"
  by (rule f64_exact [of _ k 0]) simp_all

lemma f64_numerals [simp]: "f64 1 = 1" "f64 (1 / 2) = 1 / 2" "f64 10000 = 10000"
  using f64_of_int [of 1] f64_of_int [of 10000] f64_exact [of "1 / 2" 1 "-1"] by simp_all

lemma f64_nonneg: "0 \<le> x \<Longrightarrow> 0 \<le> f64 x"
  using f64_mono_pos [of 0 x] by simp

lemma f64_double: "is_f64 x \<Longrightarrow> is_f64 (2 * x)"
proof -
  assume "is_f64 x"
  then obtain k e where "x = of_int k * 2 powi e" "\<bar>k\<bar> \<le> 2 ^ 53" "-1074 \<le> e" unfolding is_f64_def by blast
  then show ?thesis unfolding is_f64_def by (intro exI [of _ k] exI [of _ "e + 1"]) (simp add: powi_two_add)
qed

text \<open>The rounded value of a number, from its binade and the nearest multiple of the last bit.\<close>

lemma binade_unique:
  assumes "0 < x" "2 powi b \<le> x" "x < 2 powi (b + 1)"
  shows "binade x = b"
proof (rule ccontr)
  assume "binade x \<noteq> b"
  then have "binade x + 1 \<le> b \<or> b + 1 \<le> binade x" by linarith
  then have "(2 :: rat) powi (binade x + 1) \<le> 2 powi b \<or> (2 :: rat) powi (b + 1) \<le> 2 powi binade x"
    using powi_two_mono by blast
  then show False using binade [OF assms(1)] assms(2,3) by linarith
qed

lemma half_even_nearest: "\<bar>x - of_int k\<bar> < 1 / 2 \<Longrightarrow> half_even x = k"
proof -
  assume k: "\<bar>x - of_int k\<bar> < 1 / 2"
  have "\<bar>of_int (half_even x) - of_int k :: rat\<bar> < 1" using half_even_near [of x] k by linarith
  then show ?thesis by linarith
qed

lemma f64_value:
  assumes "2 powi (e + 52) \<le> x" "x < 2 powi (e + 53)" "-1074 \<le> e" "\<bar>x / 2 powi e - of_int k\<bar> < 1 / 2"
  shows "f64 x = of_int k * 2 powi e"
proof -
  have x: "0 < x" using assms(1) zero_less_power_int [of "2 :: rat" "e + 52"] by linarith
  then have "binade x = e + 52" using binade_unique [of x "e + 52"] assms(1,2) by (simp add: add.assoc)
  then have "f64_exp x = e" using x assms(3) by (simp add: f64_exp_def)
  then show ?thesis using half_even_nearest [OF assms(4)] by (simp add: f64_def)
qed

text \<open>Rounding is odd, so it keeps the order of all numbers.\<close>

lemma half_even_minus: "half_even (- x) = - half_even x"
proof (cases "x = of_int \<lfloor>x\<rfloor>")
  case True
  then show ?thesis by (metis half_even_of_int of_int_minus)
next
  case False
  define n where "n = \<lfloor>x\<rfloor>"
  have n: "of_int n < x" "x < of_int n + 1" using False unfolding n_def by linarith+
  have "\<lfloor>- x\<rfloor> = - n - 1" by (rule floor_unique) (use n in simp_all)
  then show ?thesis unfolding half_even_def Let_def n_def [symmetric] using n by auto
qed

lemma f64_minus: "f64 (- x) = - f64 x"
  by (simp add: f64_def f64_exp_def half_even_minus)

lemma f64_mono: "x \<le> y \<Longrightarrow> f64 x \<le> f64 y"
proof -
  assume le: "x \<le> y"
  consider "0 \<le> x" | "y \<le> 0" | "x < 0" "0 < y" by linarith
  then show ?thesis
  proof cases
    case 2
    then show ?thesis using f64_mono_pos [of "- y" "- x"] le by (simp add: f64_minus)
  next
    case 3
    then have "0 \<le> f64 (- x)" "0 \<le> f64 y" by (simp_all add: f64_nonneg)
    then show ?thesis by (simp add: f64_minus)
  qed (rule f64_mono_pos [OF _ le])
qed

text \<open>An operation is off by at most half of the last bit.\<close>

lemma f64_near: "\<bar>f64 x - x\<bar> \<le> 2 powi f64_exp x / 2"
proof -
  have "f64 x - x = (of_int (half_even (x / 2 powi f64_exp x)) - x / 2 powi f64_exp x) * 2 powi f64_exp x"
    by (simp add: f64_def left_diff_distrib)
  then have "\<bar>f64 x - x\<bar> = \<bar>of_int (half_even (x / 2 powi f64_exp x)) - x / 2 powi f64_exp x\<bar> * 2 powi f64_exp x"
    by (simp add: abs_mult)
  also have "\<dots> \<le> 1 / 2 * 2 powi f64_exp x" by (intro mult_right_mono half_even_near) simp
  finally show ?thesis by simp
qed

text \<open>Up to \<open>2\<^sup>k\<close> the last bit is worth at most \<open>2\<^sup>k\<^sup>-\<^sup>5\<^sup>2\<close>.\<close>

lemma f64_near_upto:
  assumes "\<bar>x\<bar> \<le> 2 powi k" "-1022 \<le> k"
  shows "\<bar>f64 x - x\<bar> \<le> 2 powi (k - 53)"
proof -
  have "f64_exp x \<le> k - 52"
  proof (rule ccontr)
    assume "\<not> f64_exp x \<le> k - 52"
    then have "2 powi (f64_exp x + 52) \<le> \<bar>x\<bar>" "k < f64_exp x + 52" using assms(2) by (auto intro: f64_exp_normal)
    then show False using assms(1) power_int_strict_increasing [of k "f64_exp x + 52" "2 :: rat"] by linarith
  qed
  then have "(2 :: rat) powi f64_exp x / 2 \<le> 2 powi (k - 52) / 2" by (intro divide_right_mono powi_two_mono) simp_all
  also have "\<dots> = 2 powi (k - 53)" using powi_two_add [of "k - 53" 1] by simp
  finally show ?thesis using f64_near [of x] by linarith
qed

end
