(* ===== verification/Pipeline.thy ===== *)
theory Pipeline
  imports Audit_Log Offsets Spans Float64
begin

text \<open>
  \<open>internal/core/pipeline.go\<close>: the stages of one inspection and their order. A stage is a function
  on the state \<open>'e\<close> of everything outside the pipeline (session store, audit sink, clock), so any
  of them may read and change it. \<open>sha\<close> is the hexadecimal SHA-256 of a byte string.
\<close>

section \<open>The stages\<close>

record normalization =
  n_request :: request
  n_maps :: "offset_map list"
  n_findings :: "finding list"

record 'e pipeline =
  pl_Normalizer :: "(request \<Rightarrow> 'e \<Rightarrow> normalization result \<times> 'e) option"
  pl_Detectors :: "request \<Rightarrow> 'e \<Rightarrow> (finding list \<times> go_error option) \<times> 'e"
  pl_Evaluate :: "eval_input \<Rightarrow> 'e \<Rightarrow> decision result \<times> 'e"
  pl_OnError :: "eval_input \<Rightarrow> go_error \<Rightarrow> decision"
  pl_Sessions :: "'e store"
  pl_Audit :: "event \<Rightarrow> 'e \<Rightarrow> unit result \<times> 'e"
  pl_TaintTTL :: int
  pl_now :: "('e \<Rightarrow> time \<times> 'e) option"
  pl_time_Now :: "'e \<Rightarrow> time \<times> 'e"

definition clock :: "'e pipeline \<Rightarrow> 'e \<Rightarrow> time \<times> 'e" where
  "clock p e = (case pl_now p of None \<Rightarrow> pl_time_Now p e | Some now \<Rightarrow> now e)"

definition DetectorToolState :: string where [go_consts]: "DetectorToolState = ''tool_state''"
definition TypeToolBlocked :: string where [go_consts]: "TypeToolBlocked = ''tool_blocked''"

definition tool_blocked_finding :: finding where
  "tool_blocked_finding = zero_finding\<lparr>f_detector := DetectorToolState, f_type := TypeToolBlocked\<rparr>"

section \<open>The content hash and the audit event\<close>

fun hashed_bytes :: "part list \<Rightarrow> string" where
  "hashed_bytes [] = []"
| "hashed_bytes (p # ps) = p_text p @ [CHR 0x00] @ hashed_bytes ps"

definition ContentHash :: "(string \<Rightarrow> string) \<Rightarrow> request \<Rightarrow> string" where
  "ContentHash sha req = sha (hashed_bytes (r_parts req))"

definition auditFindings :: "finding list \<Rightarrow> audit_finding list" where
  "auditFindings findings =
     (if length findings = 0 then []
      else map (\<lambda>f. \<lparr>af_detector = f_detector f, af_type = f_type f, af_score = f_score f,
             af_part = span_part (f_span f), af_start = span_start (f_span f), af_end = span_end (f_span f)\<rparr>)
           findings)"

text \<open>\<open>Duration.Microseconds\<close> truncates towards zero.\<close>

definition microseconds :: "int \<Rightarrow> int" where
  "microseconds d = (if d < 0 then - ((- d) div 1000) else d div 1000)"

definition make_event ::
  "(string \<Rightarrow> string) \<Rightarrow> request \<Rightarrow> verdict \<Rightarrow> time \<Rightarrow> go_error option \<Rightarrow> time \<Rightarrow> event" where
  "make_event sha req v start cause now =
     \<lparr>ev_time = start, ev_trace_id = [], ev_session_id = r_session req, ev_surface = r_surface req,
      ev_caller = r_caller req, ev_source = r_source req, ev_action = v_action v,
      ev_policy_version = v_policy_version v, ev_taint_session = v_taint_session v,
      ev_findings = auditFindings (v_findings v), ev_content_hash = ContentHash sha req,
      ev_latency_ms = f64 (f64 (of_int (microseconds (now - start))) / 1000),
      ev_error = (case cause of None \<Rightarrow> [] | Some err \<Rightarrow> error_text err)\<rparr>"

definition emit ::
  "(string \<Rightarrow> string) \<Rightarrow> 'e pipeline \<Rightarrow> request \<Rightarrow> verdict \<Rightarrow> time \<Rightarrow> go_error option \<Rightarrow> 'e \<Rightarrow> 'e" where
  "emit sha p req v start cause e =
     (let (now, e) = clock p e in snd (pl_Audit p (make_event sha req v start cause now) e))"

definition fail ::
  "(string \<Rightarrow> string) \<Rightarrow> 'e pipeline \<Rightarrow> request \<Rightarrow> eval_input \<Rightarrow> go_error \<Rightarrow> time \<Rightarrow> 'e \<Rightarrow> verdict result \<times> 'e" where
  "fail sha p req inp cause start e =
     (let decision = pl_OnError p inp cause;
          verdict = zero_verdict\<lparr>v_action := d_action decision, v_policy_version := d_policy_version decision\<rparr>
      in (Inr verdict, emit sha p req verdict start (Some cause) e))"

section \<open>Tool pins and blocked tools\<close>

definition toolBlocked :: "'e pipeline \<Rightarrow> request \<Rightarrow> 'e \<Rightarrow> bool result \<times> 'e" where
  "toolBlocked p req e =
     (if r_surface req \<noteq> SurfaceToolCall \<or> r_session req = [] \<or> r_source req = [] then (Inr False, e)
      else st_ToolBlocked (pl_Sessions p) (r_session req) (r_source req) e)"

definition checkPin :: "(string \<Rightarrow> string) \<Rightarrow> 'e pipeline \<Rightarrow> request \<Rightarrow> 'e \<Rightarrow> bool result \<times> 'e" where
  "checkPin sha p req e =
     (if r_surface req \<noteq> SurfaceToolDefinition \<or> r_session req = [] \<or> r_source req = [] then (Inr False, e)
      else
        let hash = ContentHash sha req in
        case st_ToolPin (pl_Sessions p) (r_session req) (r_source req) e of
          (Inl err, e) \<Rightarrow> (Inl err, e)
        | (Inr None, e) \<Rightarrow>
            (case st_PinTool (pl_Sessions p) (r_session req) (r_source req) hash (pl_TaintTTL p) e of
               (Inl err, e) \<Rightarrow> (Inl err, e)
             | (Inr _, e) \<Rightarrow> (Inr False, e))
        | (Inr (Some pinned), e) \<Rightarrow> (Inr (pinned \<noteq> hash), e))"

section \<open>Mapping spans back\<close>

definition remap_finding :: "offset_map list \<Rightarrow> finding \<Rightarrow> finding" where
  "remap_finding maps f =
     (let part = span_part (f_span f) in
      if part < 0 \<or> part \<ge> int (length maps) then f
      else let (start, end') = map_Span (maps ! nat part) (span_start (f_span f)) (span_end (f_span f)) in
        f\<lparr>f_span := (f_span f)\<lparr>span_start := start, span_end := end'\<rparr>\<rparr>)"

definition remapSpans :: "finding list \<Rightarrow> offset_map list \<Rightarrow> finding list" where
  "remapSpans findings maps = (if length maps = 0 then findings else map (remap_finding maps) findings)"

section \<open>One inspection\<close>

text \<open>
  \<open>x, err := stage(); if err != nil { return p.fail(...) }\<close>, the form every stage of \<open>Inspect\<close> has.
\<close>

definition or_fail :: "'a result \<times> 'e \<Rightarrow> (go_error \<Rightarrow> 'e \<Rightarrow> 'r) \<Rightarrow> ('a \<Rightarrow> 'e \<Rightarrow> 'r) \<Rightarrow> 'r" where
  "or_fail r failure k = (case r of (Inl err, e) \<Rightarrow> failure err e | (Inr x, e) \<Rightarrow> k x e)"

definition bare_input :: "request \<Rightarrow> eval_input" where
  "bare_input req = \<lparr>ei_request = req, ei_findings = [], ei_session_tainted = False, ei_pin_changed = False\<rparr>"

definition normalize_stage :: "'e pipeline \<Rightarrow> request \<Rightarrow> 'e \<Rightarrow> normalization result \<times> 'e" where
  "normalize_stage p req e =
     (case pl_Normalizer p of
        None \<Rightarrow> (Inr \<lparr>n_request = req, n_maps = [], n_findings = []\<rparr>, e)
      | Some run \<Rightarrow> run req e)"

definition tainted_stage :: "'e pipeline \<Rightarrow> request \<Rightarrow> 'e \<Rightarrow> bool result \<times> 'e" where
  "tainted_stage p req e =
     (if r_session req \<noteq> [] then st_Tainted (pl_Sessions p) (r_session req) e else (Inr False, e))"

definition decided_verdict :: "bool \<Rightarrow> finding list \<Rightarrow> decision \<Rightarrow> verdict" where
  "decided_verdict blocked findings decision =
     (let verdict = \<lparr>v_action = d_action decision, v_findings = findings, v_redactions = [],
            v_taint_session = d_taint_session decision, v_policy_version = d_policy_version decision\<rparr>;
          verdict = (if blocked then verdict\<lparr>v_action := ActionBlock,
              v_findings := v_findings verdict @ [tool_blocked_finding]\<rparr> else verdict)
      in if v_action verdict = ActionRedact then verdict\<lparr>v_redactions := MergeSpans (d_redactions decision)\<rparr>
         else verdict)"

definition taint_write :: "'e pipeline \<Rightarrow> request \<Rightarrow> decision \<Rightarrow> 'e \<Rightarrow> unit result \<times> 'e" where
  "taint_write p req decision e =
     (if d_taint_session decision \<and> r_session req \<noteq> []
      then st_Taint (pl_Sessions p) (r_session req) (pl_TaintTTL p) e else (Inr (), e))"

definition block_write :: "'e pipeline \<Rightarrow> request \<Rightarrow> verdict \<Rightarrow> 'e \<Rightarrow> unit result \<times> 'e" where
  "block_write p req verdict e =
     (if v_action verdict = ActionBlock \<and> r_surface req = SurfaceToolDefinition \<and> r_session req \<noteq> []
         \<and> r_source req \<noteq> []
      then st_BlockTool (pl_Sessions p) (r_session req) (r_source req) (pl_TaintTTL p) e else (Inr (), e))"

definition Inspect :: "(string \<Rightarrow> string) \<Rightarrow> 'e pipeline \<Rightarrow> request \<Rightarrow> 'e \<Rightarrow> verdict result \<times> 'e" where
  "Inspect sha p original e =
     (let (start, e) = clock p e;
          failure = fail sha p original;
          fail_bare = (\<lambda>err e. failure (bare_input original) err start e)
      in
      or_fail (normalize_stage p original e) fail_bare (\<lambda>n e.
      let req = n_request n in
      or_fail (tainted_stage p req e) fail_bare (\<lambda>tainted e.
      or_fail (checkPin sha p original e) fail_bare (\<lambda>pinChanged e.
      or_fail (toolBlocked p original e) fail_bare (\<lambda>blocked e.
      let ((detected, err), e) = pl_Detectors p req e;
          findings = n_findings n @ remapSpans detected (n_maps n);
          inp = \<lparr>ei_request = req, ei_findings = findings, ei_session_tainted = tainted, ei_pin_changed = pinChanged\<rparr>;
          fail_in = (\<lambda>err e. failure inp err start e)
      in
      case err of Some err \<Rightarrow> fail_in err e | None \<Rightarrow>
      or_fail (pl_Evaluate p inp e) fail_in (\<lambda>decision e.
      let verdict = decided_verdict blocked findings decision in
      or_fail (taint_write p req decision e) fail_in (\<lambda>_ e.
      or_fail (block_write p req verdict e) fail_in (\<lambda>_ e.
      (Inr verdict, emit sha p original verdict start None e)))))))))"

section \<open>The stages as one outcome\<close>

text \<open>
  What the stages before the audit come to: a failed stage with the input and the cause that
  \<open>fail\<close> gets, or a verdict.
\<close>

definition inspect_stages ::
  "(string \<Rightarrow> string) \<Rightarrow> 'e pipeline \<Rightarrow> request \<Rightarrow> 'e \<Rightarrow> ((eval_input \<times> go_error) + verdict) \<times> 'e" where
  "inspect_stages sha p original e =
     (let bare = (\<lambda>err e. (Inl (bare_input original, err), e)) in
      or_fail (normalize_stage p original e) bare (\<lambda>n e.
      let req = n_request n in
      or_fail (tainted_stage p req e) bare (\<lambda>tainted e.
      or_fail (checkPin sha p original e) bare (\<lambda>pinChanged e.
      or_fail (toolBlocked p original e) bare (\<lambda>blocked e.
      let ((detected, err), e) = pl_Detectors p req e;
          findings = n_findings n @ remapSpans detected (n_maps n);
          inp = \<lparr>ei_request = req, ei_findings = findings, ei_session_tainted = tainted, ei_pin_changed = pinChanged\<rparr>;
          stop = (\<lambda>err e. (Inl (inp, err), e))
      in
      case err of Some err \<Rightarrow> stop err e | None \<Rightarrow>
      or_fail (pl_Evaluate p inp e) stop (\<lambda>decision e.
      let verdict = decided_verdict blocked findings decision in
      or_fail (taint_write p req decision e) stop (\<lambda>_ e.
      or_fail (block_write p req verdict e) stop (\<lambda>_ e. (Inr verdict, e)))))))))"

definition conclude ::
  "(string \<Rightarrow> string) \<Rightarrow> 'e pipeline \<Rightarrow> request \<Rightarrow> time \<Rightarrow> ((eval_input \<times> go_error) + verdict) \<times> 'e \<Rightarrow> verdict result \<times> 'e" where
  "conclude sha p original start r =
     (case r of
        (Inl (inp, cause), e) \<Rightarrow> fail sha p original inp cause start e
      | (Inr v, e) \<Rightarrow> (Inr v, emit sha p original v start None e))"

lemma or_fail_push: "F (or_fail r f k) = or_fail r (\<lambda>err e. F (f err e)) (\<lambda>x e. F (k x e))"
  by (simp add: or_fail_def split: prod.splits sum.splits)

lemma or_fail_simps [simp]:
  "or_fail (Inl err, e) f k = f err e" "or_fail (Inr x, e) f k = k x e"
  by (simp_all add: or_fail_def)

lemma conclude_simps [simp]:
  "conclude sha p original start (Inl (inp, cause), e) = fail sha p original inp cause start e"
  "conclude sha p original start (Inr v, e) = (Inr v, emit sha p original v start None e)"
  by (simp_all add: conclude_def)

lemma Inspect_eq:
  "Inspect sha p original e =
     (let (start, e) = clock p e in conclude sha p original start (inspect_stages sha p original e))"
  unfolding Inspect_def inspect_stages_def Let_def
  by (simp add: or_fail_push [of "conclude sha p original _"] split_beta option.case_distrib
      cong: option.case_cong)

definition on_error_verdict :: "decision \<Rightarrow> verdict" where
  "on_error_verdict d = zero_verdict\<lparr>v_action := d_action d, v_policy_version := d_policy_version d\<rparr>"

lemma fail_eq:
  "fail sha p req inp cause start e =
     (Inr (on_error_verdict (pl_OnError p inp cause)),
      emit sha p req (on_error_verdict (pl_OnError p inp cause)) start (Some cause) e)"
  by (simp add: fail_def on_error_verdict_def Let_def)

section \<open>The audit trail\<close>

text \<open>
  What the pipeline relies on for its audit trail: no stage but the audit writes to the sink's log,
  and a write of an event does to the log what \<open>offer\<close> says.
\<close>

locale audited_pipeline =
  fixes p :: "'e pipeline" and log :: "'e \<Rightarrow> 'l" and offer :: "event \<Rightarrow> 'l \<Rightarrow> 'l"
  assumes clock_log: "log (snd (clock p e)) = log e"
    and normalizer_log: "pl_Normalizer p = Some run \<Longrightarrow> log (snd (run req e)) = log e"
    and detectors_log: "log (snd (pl_Detectors p req e)) = log e"
    and evaluate_log: "log (snd (pl_Evaluate p inp e)) = log e"
    and tainted_log: "log (snd (st_Tainted (pl_Sessions p) s e)) = log e"
    and taint_log: "log (snd (st_Taint (pl_Sessions p) s ttl e)) = log e"
    and tool_pin_log: "log (snd (st_ToolPin (pl_Sessions p) s t e)) = log e"
    and pin_tool_log: "log (snd (st_PinTool (pl_Sessions p) s t h ttl e)) = log e"
    and tool_blocked_log: "log (snd (st_ToolBlocked (pl_Sessions p) s t e)) = log e"
    and block_tool_log: "log (snd (st_BlockTool (pl_Sessions p) s t ttl e)) = log e"
    and audit_log: "log (snd (pl_Audit p ev e)) = offer ev (log e)"
begin

lemmas quiet = clock_log normalizer_log detectors_log evaluate_log tainted_log taint_log tool_pin_log pin_tool_log
  tool_blocked_log block_tool_log

lemma or_fail_log:
  assumes "log (snd r) = log e" "\<And>err e'. log e' = log e \<Longrightarrow> log (snd (f err e')) = log e"
    "\<And>x e'. log e' = log e \<Longrightarrow> log (snd (k x e')) = log e"
  shows "log (snd (or_fail r f k)) = log e"
  using assms by (auto simp: or_fail_def split: prod.splits sum.splits)

lemma normalize_stage_log: "log (snd (normalize_stage p req e)) = log e"
  by (auto simp: normalize_stage_def normalizer_log split: option.splits)

lemma tainted_stage_log: "log (snd (tainted_stage p req e)) = log e"
  by (simp add: tainted_stage_def quiet)

lemma toolBlocked_log: "log (snd (toolBlocked p req e)) = log e"
  by (simp add: toolBlocked_def quiet)

lemma checkPin_log: "log (snd (checkPin sha p req e)) = log e"
proof -
  obtain r e1 where 1: "st_ToolPin (pl_Sessions p) (r_session req) (r_source req) e = (r, e1)" by fastforce
  then have l1: "log e1 = log e" using tool_pin_log [of "r_session req" "r_source req" e] by simp
  obtain r2 e2 where 2: "st_PinTool (pl_Sessions p) (r_session req) (r_source req) (ContentHash sha req)
      (pl_TaintTTL p) e1 = (r2, e2)" by fastforce
  then have "log e2 = log e1"
    using pin_tool_log [of "r_session req" "r_source req" "ContentHash sha req" "pl_TaintTTL p" e1] by simp
  with 1 2 l1 show ?thesis by (auto simp: checkPin_def Let_def split: sum.splits option.splits)
qed

lemma write_logs:
  "log (snd (taint_write p req d e)) = log e" "log (snd (block_write p req v e)) = log e"
  by (simp_all add: taint_write_def block_write_def quiet)

lemma inspect_stages_log: "log (snd (inspect_stages sha p original e)) = log e"
  unfolding inspect_stages_def Let_def
  by (auto intro!: or_fail_log simp: normalize_stage_log tainted_stage_log checkPin_log toolBlocked_log write_logs
      quiet split_beta split: option.splits)

lemma emit_log: "\<exists>now. log (emit sha p req v start cause e) = offer (make_event sha req v start cause now) (log e)"
proof -
  obtain now e1 where "clock p e = (now, e1)" by fastforce
  moreover from this have "log e1 = log e" using clock_log [of e] by simp
  ultimately show ?thesis by (auto simp: emit_def audit_log)
qed

text \<open>Every inspection returns a verdict and writes one event, once, which records that verdict.\<close>

lemma one_event:
  "\<exists>v start now cause. fst (Inspect sha p original e) = Inr v
     \<and> log (snd (Inspect sha p original e)) = offer (make_event sha original v start cause now) (log e)
     \<and> start = fst (clock p e)
     \<and> (cause = None \<longleftrightarrow> (\<exists>e'. inspect_stages sha p original (snd (clock p e)) = (Inr v, e')))"
proof -
  obtain start e1 where c: "clock p e = (start, e1)" by fastforce
  then have l1: "log e1 = log e" using clock_log [of e] by simp
  obtain r e2 where st: "inspect_stages sha p original e1 = (r, e2)" by fastforce
  then have l2: "log e2 = log e" using inspect_stages_log [of sha original e1] l1 by simp
  show ?thesis
  proof (cases r)
    case (Inl x)
    obtain inp cause where x: "x = (inp, cause)" by fastforce
    define v where "v = on_error_verdict (pl_OnError p inp cause)"
    obtain now where "log (emit sha p original v start (Some cause) e2)
        = offer (make_event sha original v start (Some cause) now) (log e2)"
      using emit_log by blast
    then have "fst (Inspect sha p original e) = Inr v
       \<and> log (snd (Inspect sha p original e)) = offer (make_event sha original v start (Some cause) now) (log e)
       \<and> start = fst (clock p e)
       \<and> (Some cause = None \<longleftrightarrow> (\<exists>e'. inspect_stages sha p original (snd (clock p e)) = (Inr v, e')))"
      using c st Inl x l2 by (simp add: Inspect_eq fail_eq v_def)
    then show ?thesis by blast
  next
    case (Inr v)
    obtain now where "log (emit sha p original v start None e2)
        = offer (make_event sha original v start None now) (log e2)"
      using emit_log by blast
    then have "fst (Inspect sha p original e) = Inr v
       \<and> log (snd (Inspect sha p original e)) = offer (make_event sha original v start None now) (log e)
       \<and> start = fst (clock p e)
       \<and> ((None :: go_error option) = None \<longleftrightarrow> (\<exists>e'. inspect_stages sha p original (snd (clock p e)) = (Inr v, e')))"
      using c st Inr l2 by (simp add: Inspect_eq)
    then show ?thesis by blast
  qed
qed

end

section \<open>What the content hash identifies\<close>

definition nul_free_text :: "part \<Rightarrow> bool" where
  "nul_free_text p = (CHR 0x00 \<notin> set (p_text p))"

lemma append_nul_inj:
  "CHR 0x00 \<notin> set a \<Longrightarrow> CHR 0x00 \<notin> set b \<Longrightarrow> a @ CHR 0x00 # x = b @ CHR 0x00 # y \<longleftrightarrow> a = b \<and> x = y"
proof (induction a arbitrary: b)
  case Nil
  then show ?case by (cases b) auto
next
  case (Cons c a)
  then show ?case by (cases b) auto
qed

lemma hashed_bytes_inj:
  "list_all nul_free_text ps \<Longrightarrow> list_all nul_free_text qs \<Longrightarrow> hashed_bytes ps = hashed_bytes qs \<longleftrightarrow> map p_text ps = map p_text qs"
proof (induction ps arbitrary: qs)
  case Nil
  then show ?case by (cases qs) auto
next
  case (Cons p ps)
  show ?case
  proof (cases qs)
    case (Cons q qs')
    with Cons.prems Cons.IH [of qs'] show ?thesis by (simp add: nul_free_text_def append_nul_inj)
  qed simp
qed

lemma hashed_bytes_append: "hashed_bytes (ps @ qs) = hashed_bytes ps @ hashed_bytes qs"
  by (induction ps) auto

section \<open>Properties\<close>

text \<open>As long as no text holds a NUL byte and SHA-256 does not collide, the content hash of two
  requests agrees exactly when the texts of their parts do: no text is left out, and a boundary
  between parts cannot be moved unnoticed.\<close>

theorem content_hash_identifies:
  assumes "inj sha" "list_all nul_free_text (r_parts a)" "list_all nul_free_text (r_parts b)"
  shows "ContentHash sha a = ContentHash sha b \<longleftrightarrow> map p_text (r_parts a) = map p_text (r_parts b)"
  using inj_eq [OF assms(1)] hashed_bytes_inj [OF assms(2,3)] by (simp add: ContentHash_def)

definition parts_request :: "string list \<Rightarrow> request" where
  "parts_request ts = zero_request\<lparr>r_parts := map (\<lambda>t. \<lparr>p_role = [], p_text = t, p_trust = TrustUntrusted\<rparr>) ts\<rparr>"

theorem content_hash_identifies_witness:
  "ContentHash id (parts_request [''ab'', ''c'']) \<noteq> ContentHash id (parts_request [''a'', ''bc''])"
  using content_hash_identifies [of id "parts_request [''ab'', ''c'']" "parts_request [''a'', ''bc'']"]
  by (simp add: parts_request_def nul_free_text_def)

text \<open>With a NUL byte in a text the hash does not identify the content: whatever the hash function,
  two parts and the one part that joins them with a NUL have the same hash, so a tool definition
  can change that way without its pin noticing.\<close>

theorem content_hash_joins_parts:
  "ContentHash sha (req\<lparr>r_parts := ps @ p\<lparr>p_text := a\<rparr> # q\<lparr>p_text := b\<rparr> # qs\<rparr>)
   = ContentHash sha (req\<lparr>r_parts := ps @ p\<lparr>p_text := a @ CHR 0x00 # b\<rparr> # qs\<rparr>)"
  by (simp add: ContentHash_def hashed_bytes_append)

end
