(* ===== verification/Regex.thy ===== *)
theory Regex
  imports Utf8
begin

text \<open>
  Package \<open>regexp\<close>, as far as the source uses it: patterns as a datatype, matching with Perl's
  leftmost-first preference, and \<open>FindAllStringIndex\<close> with \<open>n = -1\<close>. \<open>ends\<close> lists the ways a
  pattern can match from one position, the preferred one first, so its head is the match the
  package reports. Positions are byte offsets; a character class reads one rune. At most one
  capturing group is used by any pattern, and a match carries its span.
\<close>

section \<open>Patterns\<close>

datatype re =
    Eps
  | Cls bool "(nat \<times> nat) list"
  | Cat re re
  | Alt re re
  | Rep bool nat "nat option" re
  | WordB
  | LineStart
  | Grp re

type_synonym mstate = "nat \<times> (nat \<times> nat) option"

definition in_class :: "bool \<Rightarrow> (nat \<times> nat) list \<Rightarrow> nat \<Rightarrow> bool" where
  "in_class neg rs r = (list_ex (\<lambda>(lo, hi). lo \<le> r \<and> r \<le> hi) rs \<noteq> neg)"

definition word_byte :: "char \<Rightarrow> bool" where
  "word_byte c =
     (let b = byte_of c in (48 \<le> b \<and> b \<le> 57) \<or> (65 \<le> b \<and> b \<le> 90) \<or> (97 \<le> b \<and> b \<le> 122) \<or> b = 95)"

definition word_at :: "string \<Rightarrow> nat \<Rightarrow> bool" where
  "word_at s i = (i < length s \<and> word_byte (s ! i))"

definition word_boundary :: "string \<Rightarrow> nat \<Rightarrow> bool" where
  "word_boundary s p = ((0 < p \<and> word_at s (p - 1)) \<noteq> word_at s p)"

definition line_start :: "string \<Rightarrow> nat \<Rightarrow> bool" where
  "line_start s p = (p = 0 \<or> byte_of (s ! (p - 1)) = 10)"

text \<open>
  Repetition: \<open>n\<close> bounds the number of rounds. An unbounded repetition can make at most one round
  per remaining byte, because a round that consumes nothing is not taken again.
\<close>

primrec rep_loop ::
  "nat \<Rightarrow> bool \<Rightarrow> (mstate \<Rightarrow> mstate list) \<Rightarrow> nat \<Rightarrow> nat option \<Rightarrow> mstate \<Rightarrow> mstate list" where
  "rep_loop 0 greedy step lo hi st = (if lo = 0 then [st] else [])"
| "rep_loop (Suc n) greedy step lo hi st =
     (let more =
        (if hi = Some 0 then []
         else concat (map (rep_loop n greedy step (lo - 1) (map_option (\<lambda>h. h - 1) hi))
           (filter (\<lambda>st'. lo > 0 \<or> fst st < fst st') (step st))));
          stop = (if lo = 0 then [st] else [])
      in if greedy then more @ stop else stop @ more)"

primrec ends :: "re \<Rightarrow> string \<Rightarrow> mstate \<Rightarrow> mstate list" where
  "ends Eps s st = [st]"
| "ends (Cls neg rs) s st =
     (let (r, w) = DecodeRune (drop (fst st) s) in
      if fst st < length s \<and> in_class neg rs r then [(fst st + w, snd st)] else [])"
| "ends (Cat a b) s st = concat (map (ends b s) (ends a s st))"
| "ends (Alt a b) s st = ends a s st @ ends b s st"
| "ends (Rep greedy lo hi a) s st =
     rep_loop (case hi of None \<Rightarrow> lo + length s | Some h \<Rightarrow> h) greedy (ends a s) lo hi st"
| "ends WordB s st = (if word_boundary s (fst st) then [st] else [])"
| "ends LineStart s st = (if line_start s (fst st) then [st] else [])"
| "ends (Grp a) s st = map (\<lambda>(q, _). (q, Some (fst st, q))) (ends a s st)"

section \<open>Where a match can end\<close>

definition st_ok :: "string \<Rightarrow> mstate \<Rightarrow> bool" where
  "st_ok s st = (fst st \<le> length s)"

text \<open>A step goes forward, stays in the string and keeps the group or sets it inside the step.\<close>

definition advances :: "string \<Rightarrow> mstate \<Rightarrow> mstate \<Rightarrow> bool" where
  "advances s st st' =
     (fst st \<le> fst st' \<and> fst st' \<le> length s
      \<and> (snd st' = snd st \<or> (\<exists>a b. snd st' = Some (a, b) \<and> fst st \<le> a \<and> a \<le> b \<and> b \<le> fst st')))"

lemma advances_refl: "st_ok s st \<Longrightarrow> advances s st st"
  by (simp add: advances_def st_ok_def)

lemma advances_ok: "advances s st st' \<Longrightarrow> st_ok s st'"
  by (simp add: advances_def st_ok_def)

lemma advances_trans: "advances s a b \<Longrightarrow> advances s b c \<Longrightarrow> advances s a c"
  unfolding advances_def by fastforce

lemma rep_loop_advances:
  assumes "\<And>st st'. st_ok s st \<Longrightarrow> st' \<in> set (step st) \<Longrightarrow> advances s st st'"
  shows "st_ok s st \<Longrightarrow> st' \<in> set (rep_loop n greedy step lo hi st) \<Longrightarrow> advances s st st'"
proof (induction n arbitrary: lo hi st)
  case 0
  then show ?case by (auto simp: advances_refl split: if_splits)
next
  case (Suc n)
  from Suc.prems(2) consider "st' = st"
    | m where "m \<in> set (step st)"
        "st' \<in> set (rep_loop n greedy step (lo - 1) (map_option (\<lambda>h. h - 1) hi) m)"
    by (auto simp: Let_def split: if_splits)
  then show ?case
  proof cases
    case 1
    then show ?thesis using Suc.prems(1) by (simp add: advances_refl)
  next
    case 2
    have "advances s st m" by (rule assms [OF Suc.prems(1) 2(1)])
    moreover have "advances s m st'" by (rule Suc.IH [OF advances_ok 2(2)]) (rule calculation)
    ultimately show ?thesis by (rule advances_trans)
  qed
qed

lemma ends_advances: "st_ok s st \<Longrightarrow> st' \<in> set (ends r s st) \<Longrightarrow> advances s st st'"
proof (induction r arbitrary: st st')
  case (Cls neg rs)
  obtain r w where d: "DecodeRune (drop (fst st) s) = (r, w)" by fastforce
  with Cls have lt: "fst st < length s" and st': "st' = (fst st + w, snd st)" by (auto split: if_splits)
  then have "0 < w \<and> w \<le> length s - fst st" using DecodeRune_width [OF d] by simp
  with lt have "fst st + w \<le> length s" by arith
  with st' show ?case by (simp add: advances_def)
next
  case (Cat a b)
  then obtain m where m: "m \<in> set (ends a s st)" "st' \<in> set (ends b s m)" by auto
  have "advances s st m" by (rule Cat.IH(1) [OF Cat.prems(1) m(1)])
  moreover have "advances s m st'" by (rule Cat.IH(2) [OF advances_ok m(2)]) (rule calculation)
  ultimately show ?case by (rule advances_trans)
next
  case (Alt a b)
  from Alt.prems(2) have "st' \<in> set (ends a s st) \<or> st' \<in> set (ends b s st)" by simp
  with Alt.IH [OF Alt.prems(1)] show ?case by blast
next
  case (Rep greedy lo hi a)
  from Rep.prems(2) have "st' \<in> set (rep_loop (case hi of None \<Rightarrow> lo + length s | Some h \<Rightarrow> h) greedy (ends a s) lo hi st)"
    by simp
  from rep_loop_advances [OF Rep.IH Rep.prems(1) this] show ?case .
next
  case (Grp a)
  then obtain q c where q: "(q, c) \<in> set (ends a s st)" "st' = (q, Some (fst st, q))" by auto
  from Grp.IH [OF Grp.prems(1) q(1)] show ?case by (simp add: q(2) advances_def)
qed (auto simp: advances_refl split: if_splits)

section \<open>Searching\<close>

record re_match =
  m_start :: nat
  m_end :: nat
  m_group :: "(nat \<times> nat) option"

definition match_at :: "re \<Rightarrow> string \<Rightarrow> nat \<Rightarrow> re_match option" where
  "match_at r s p =
     (case ends r s (p, None) of
        [] \<Rightarrow> None
      | (q, c) # _ \<Rightarrow> Some \<lparr>m_start = p, m_end = q, m_group = c\<rparr>)"

definition next_rune :: "string \<Rightarrow> nat \<Rightarrow> nat" where
  "next_rune s p = (if p < length s then p + rune_width (drop p s) else length s + 1)"

lemma next_rune_progress: "p < next_rune s p \<or> length s < p"
  using rune_width_bounds [of "drop p s"] by (auto simp: next_rune_def)

function search :: "re \<Rightarrow> string \<Rightarrow> nat \<Rightarrow> re_match option" where
  "search r s p =
     (if p > length s then None
      else case match_at r s p of Some m \<Rightarrow> Some m | None \<Rightarrow> search r s (next_rune s p))"
  by pat_completeness auto
termination
proof (relation "measure (\<lambda>(r, s, p). length s + 1 - p)", goal_cases)
  case (2 r s p)
  then show ?case using next_rune_progress [of p s] by auto
qed simp

declare search.simps [simp del]

lemma match_at_bounds:
  assumes "match_at r s p = Some m" "p \<le> length s"
  shows "m_start m = p \<and> p \<le> m_end m \<and> m_end m \<le> length s
    \<and> (\<forall>a b. m_group m = Some (a, b) \<longrightarrow> p \<le> a \<and> a \<le> b \<and> b \<le> m_end m)"
proof -
  obtain q c rest where "ends r s (p, None) = (q, c) # rest" "m = \<lparr>m_start = p, m_end = q, m_group = c\<rparr>"
    using assms(1) by (auto simp: match_at_def split: list.splits)
  moreover from this have "advances s (p, None) (q, c)"
    by (intro ends_advances [of s "(p, None)" _ r]) (simp_all add: st_ok_def assms(2))
  ultimately show ?thesis by (auto simp: advances_def)
qed

lemma search_bounds:
  "search r s p = Some m \<Longrightarrow> p \<le> m_start m \<and> m_start m \<le> m_end m \<and> m_end m \<le> length s
    \<and> (\<forall>a b. m_group m = Some (a, b) \<longrightarrow> m_start m \<le> a \<and> a \<le> b \<and> b \<le> m_end m)"
proof (induction r s p rule: search.induct)
  case (1 r s p)
  then have p: "\<not> p > length s" by (auto simp: search.simps [of r s p])
  show ?case
  proof (cases "match_at r s p")
    case None
    with "1.prems" p have "search r s (next_rune s p) = Some m" by (simp add: search.simps [of r s p])
    from "1.IH" [OF p None this] next_rune_progress [of p s] p show ?thesis by auto
  next
    case (Some m')
    with "1.prems" p have "m' = m" by (simp add: search.simps [of r s p])
    with match_at_bounds [OF Some] p show ?thesis by auto
  qed
qed

text \<open>The loop of \<open>allMatches\<close>: an empty match right after the previous match is not reported.\<close>

function all_matches :: "re \<Rightarrow> string \<Rightarrow> nat \<Rightarrow> nat option \<Rightarrow> re_match list" where
  "all_matches r s pos prev =
     (if pos > length s then []
      else case search r s pos of
        None \<Rightarrow> []
      | Some m \<Rightarrow>
          (let accept = \<not> (m_end m = pos \<and> Some (m_start m) = prev);
               pos' = (if m_end m = pos then next_rune s pos else m_end m)
           in (if accept then [m] else []) @ all_matches r s pos' (Some (m_end m))))"
  by pat_completeness auto
termination
proof (relation "measure (\<lambda>(r, s, pos, prev). length s + 1 - pos)", goal_cases)
  case (2 r s pos prev m accept pos')
  then show ?case using search_bounds [of r s pos m] next_rune_progress [of pos s] by auto
qed simp

declare all_matches.simps [simp del]

definition FindAll :: "re \<Rightarrow> string \<Rightarrow> re_match list" where
  "FindAll r s = all_matches r s 0 None"

text \<open>\<open>m_loc\<close> is the pair of offsets \<open>FindAllStringIndex\<close> gives; \<open>matched\<close> the text between them.\<close>

definition m_loc :: "re_match \<Rightarrow> int \<times> int" where
  "m_loc m = (int (m_start m), int (m_end m))"

definition matched :: "string \<Rightarrow> re_match \<Rightarrow> string" where
  "matched s m = take (m_end m - m_start m) (drop (m_start m) s)"

section \<open>The matches of a text\<close>

text \<open>Matches are in bounds, in order, and do not overlap.\<close>

fun matches_from :: "nat \<Rightarrow> nat \<Rightarrow> re_match list \<Rightarrow> bool" where
  "matches_from n p [] = True"
| "matches_from n p (m # ms) =
     (p \<le> m_start m \<and> m_start m \<le> m_end m \<and> m_end m \<le> n \<and> matches_from n (m_end m) ms)"

lemma matches_from_weaken: "matches_from n p ms \<Longrightarrow> q \<le> p \<Longrightarrow> matches_from n q ms"
  by (cases ms) auto

lemma all_matches_from: "matches_from (length s) pos (all_matches r s pos prev)"
proof (induction r s pos prev rule: all_matches.induct)
  case (1 r s pos prev)
  show ?case
  proof (cases "pos > length s \<or> search r s pos = None")
    case True
    then show ?thesis by (auto simp: all_matches.simps [of r s pos prev])
  next
    case False
    then obtain m where p: "\<not> pos > length s" and m: "search r s pos = Some m" by auto
    define pos' where "pos' = (if m_end m = pos then next_rune s pos else m_end m)"
    note b = search_bounds [OF m]
    have IH: "matches_from (length s) pos' (all_matches r s pos' (Some (m_end m)))"
      using "1.IH" [OF p m] by (simp add: pos'_def)
    have "m_end m \<le> pos'" using next_rune_progress [of pos s] p by (auto simp: pos'_def)
    with IH have "matches_from (length s) (m_end m) (all_matches r s pos' (Some (m_end m)))"
      by (rule matches_from_weaken)
    with b show ?thesis
      by (auto simp: all_matches.simps [of r s pos prev] p m pos'_def [symmetric] Let_def
          intro: matches_from_weaken)
  qed
qed

lemma FindAll_from: "matches_from (length s) 0 (FindAll r s)"
  unfolding FindAll_def by (rule all_matches_from)

lemma matches_from_mem:
  "matches_from n p ms \<Longrightarrow> m \<in> set ms \<Longrightarrow> p \<le> m_start m \<and> m_start m \<le> m_end m \<and> m_end m \<le> n"
  by (induction ms arbitrary: p) fastforce+

lemma FindAll_bounds: "m \<in> set (FindAll r s) \<Longrightarrow> m_start m \<le> m_end m \<and> m_end m \<le> length s"
  using matches_from_mem [OF FindAll_from] by blast

text \<open>A match a search reports is one the pattern admits at its start.\<close>

lemma search_match: "search r s p = Some m \<Longrightarrow> (m_end m, m_group m) \<in> set (ends r s (m_start m, None))"
proof (induction r s p rule: search.induct)
  case (1 r s p)
  then have p: "\<not> p > length s" by (auto simp: search.simps [of r s p])
  show ?case
  proof (cases "match_at r s p")
    case None
    with "1.prems" p have "search r s (next_rune s p) = Some m" by (simp add: search.simps [of r s p])
    from "1.IH" [OF p None this] show ?thesis .
  next
    case (Some m')
    with "1.prems" p have "match_at r s p = Some m" by (simp add: search.simps [of r s p])
    then show ?thesis by (auto simp: match_at_def split: list.splits)
  qed
qed

lemma all_matches_match:
  "m \<in> set (all_matches r s pos prev) \<Longrightarrow> (m_end m, m_group m) \<in> set (ends r s (m_start m, None))"
proof (induction r s pos prev rule: all_matches.induct)
  case (1 r s pos prev)
  have p: "\<not> pos > length s"
    using "1.prems" by (metis all_matches.simps empty_iff empty_set)
  obtain m' where m': "search r s pos = Some m'"
    using "1.prems" p by (cases "search r s pos") (simp_all add: all_matches.simps [of r s pos prev])
  define pos' where "pos' = (if m_end m' = pos then next_rune s pos else m_end m')"
  have "set (all_matches r s pos prev) \<subseteq> insert m' (set (all_matches r s pos' (Some (m_end m'))))"
    unfolding all_matches.simps [of r s pos prev] pos'_def using p m' by (simp add: Let_def subset_iff)
  with "1.prems" have "m = m' \<or> m \<in> set (all_matches r s pos' (Some (m_end m')))" by blast
  then show ?case
  proof
    assume "m = m'"
    then show ?thesis using search_match [OF m'] by simp
  next
    assume "m \<in> set (all_matches r s pos' (Some (m_end m')))"
    with "1.IH" [OF p m' refl pos'_def] show ?thesis by blast
  qed
qed

lemma FindAll_match: "m \<in> set (FindAll r s) \<Longrightarrow> (m_end m, m_group m) \<in> set (ends r s (m_start m, None))"
  unfolding FindAll_def by (rule all_matches_match)

section \<open>Building patterns\<close>

definition chr :: "char \<Rightarrow> re" where
  "chr c = Cls False [(byte_of c, byte_of c)]"

definition cls :: "(char \<times> char) list \<Rightarrow> re" where
  "cls rs = Cls False (map (\<lambda>(a, b). (byte_of a, byte_of b)) rs)"

fun lit :: "string \<Rightarrow> re" where
  "lit [] = Eps"
| "lit [c] = chr c"
| "lit (c # cs) = Cat (chr c) (lit cs)"

fun seq :: "re list \<Rightarrow> re" where
  "seq [] = Eps"
| "seq [r] = r"
| "seq (r # rs) = Cat r (seq rs)"

fun alts :: "re list \<Rightarrow> re" where
  "alts [] = Eps"
| "alts [r] = r"
| "alts (r # rs) = Alt r (alts rs)"

definition opt :: "re \<Rightarrow> re" where "opt r = Rep True 0 (Some 1) r"
definition star :: "re \<Rightarrow> re" where "star r = Rep True 0 None r"
definition plus1 :: "re \<Rightarrow> re" where "plus1 r = Rep True 1 None r"
definition times :: "nat \<Rightarrow> re \<Rightarrow> re" where "times n r = Rep True n (Some n) r"
definition between :: "nat \<Rightarrow> nat \<Rightarrow> re \<Rightarrow> re" where "between n m r = Rep True n (Some m) r"
definition atleast :: "nat \<Rightarrow> re \<Rightarrow> re" where "atleast n r = Rep True n None r"

section \<open>Evaluating a pattern on a concrete text\<close>

named_theorems regex_eval \<open>unfolds matching on literals\<close>

lemma rep_loop_numeral [regex_eval]:
  "rep_loop (numeral k) greedy step lo hi st =
     (let more =
        (if hi = Some 0 then []
         else concat (map (rep_loop (pred_numeral k) greedy step (lo - 1) (map_option (\<lambda>h. h - 1) hi))
           (filter (\<lambda>st'. lo > 0 \<or> fst st < fst st') (step st))));
          stop = (if lo = 0 then [st] else [])
      in if greedy then more @ stop else stop @ more)"
  by (simp add: numeral_eq_Suc)

declare DecodeRune_ascii [regex_eval] match_at_def [regex_eval] times_def [regex_eval] opt_def [regex_eval] star_def [regex_eval]
  plus1_def [regex_eval] between_def [regex_eval] atleast_def [regex_eval] cls_def [regex_eval] chr_def [regex_eval]
  word_boundary_def [regex_eval] word_at_def [regex_eval] word_byte_def [regex_eval] in_class_def [regex_eval]
  byte_of_def [regex_eval] next_rune_def [regex_eval] rune_width_def [regex_eval] FindAll_def [regex_eval]
  search.simps [regex_eval] all_matches.simps [regex_eval] line_start_def [regex_eval]

end
