(* ===== verification/Base64.thy ===== *)
theory Base64
  imports Utf8
begin

text \<open>
  \<open>internal/detect/base64.go\<close>: decoding a token that might carry readable text. The four encodings
  of \<open>encoding/base64\<close> are an alphabet and a padding flag. \<open>isPrint\<close> is \<open>unicode.IsPrint\<close>, whose
  tables are not part of the model.
\<close>

definition b64_std :: "char \<Rightarrow> nat option" where
  "b64_std c =
     (let b = byte_of c in
      if 65 \<le> b \<and> b \<le> 90 then Some (b - 65)
      else if 97 \<le> b \<and> b \<le> 122 then Some (b - 71)
      else if 48 \<le> b \<and> b \<le> 57 then Some (b + 4)
      else if c = CHR ''+'' then Some 62 else if c = CHR ''/'' then Some 63 else None)"

definition b64_url :: "char \<Rightarrow> nat option" where
  "b64_url c =
     (if c = CHR ''+'' \<or> c = CHR ''/'' then None
      else if c = CHR ''-'' then Some 62 else if c = CHR ''_'' then Some 63 else b64_std c)"

definition b64_bytes :: "nat \<Rightarrow> nat \<Rightarrow> nat \<Rightarrow> nat \<Rightarrow> string" where
  "b64_bytes w x y z =
     (let v = w * 262144 + x * 4096 + y * 64 + z
      in [byte_char (v div 65536), byte_char (v div 256 mod 256), byte_char (v mod 256)])"

text \<open>
  One quantum of four characters at a time; the last one may be short (raw encodings) or padded
  (the others). Trailing bits are not checked: no encoding here is strict.
\<close>

fun b64_quanta :: "(char \<Rightarrow> nat option) \<Rightarrow> bool \<Rightarrow> string \<Rightarrow> string option" where
  "b64_quanta dec padded [] = Some []"
| "b64_quanta dec padded [a] = None"
| "b64_quanta dec padded [a, b] =
     (case (dec a, dec b) of
        (Some w, Some x) \<Rightarrow> if padded then None else Some (take 1 (b64_bytes w x 0 0))
      | _ \<Rightarrow> None)"
| "b64_quanta dec padded [a, b, c] =
     (case (dec a, dec b, dec c) of
        (Some w, Some x, Some y) \<Rightarrow> if padded then None else Some (take 2 (b64_bytes w x y 0))
      | _ \<Rightarrow> None)"
| "b64_quanta dec padded (a # b # c # d # rest) =
     (case (dec a, dec b) of
        (Some w, Some x) \<Rightarrow>
          (case (dec c, dec d) of
             (Some y, Some z) \<Rightarrow> map_option ((@) (b64_bytes w x y z)) (b64_quanta dec padded rest)
           | (Some y, None) \<Rightarrow>
               if padded \<and> d = CHR ''='' \<and> rest = [] then Some (take 2 (b64_bytes w x y 0)) else None
           | (None, _) \<Rightarrow>
               if padded \<and> c = CHR ''='' \<and> d = CHR ''='' \<and> rest = []
               then Some (take 1 (b64_bytes w x 0 0)) else None)
      | _ \<Rightarrow> None)"

definition b64_DecodeString :: "(char \<Rightarrow> nat option) \<Rightarrow> bool \<Rightarrow> string \<Rightarrow> string option" where
  "b64_DecodeString dec padded s =
     b64_quanta dec padded (filter (\<lambda>c. byte_of c \<noteq> 10 \<and> byte_of c \<noteq> 13) s)"

definition base64Encodings :: "((char \<Rightarrow> nat option) \<times> bool) list" where
  "base64Encodings = [(b64_std, True), (b64_std, False), (b64_url, True), (b64_url, False)]"

definition printable_count :: "(nat \<Rightarrow> bool) \<Rightarrow> string \<Rightarrow> nat" where
  "printable_count isPrint raw = length (filter (\<lambda>(_, r). isPrint r \<or> r = 10 \<or> r = 9) (runes raw))"

fun decode_readable_loop :: "(nat \<Rightarrow> bool) \<Rightarrow> ((char \<Rightarrow> nat option) \<times> bool) list \<Rightarrow> string \<Rightarrow> string option" where
  "decode_readable_loop isPrint [] tok = None"
| "decode_readable_loop isPrint ((dec, padded) # encs) tok =
     (case b64_DecodeString dec padded tok of
        None \<Rightarrow> decode_readable_loop isPrint encs tok
      | Some raw \<Rightarrow>
          if length raw < 8 \<or> \<not> ValidString raw then decode_readable_loop isPrint encs tok
          else if printable_count isPrint raw * 10 \<ge> RuneCount raw * 9 then Some (TrimSpace raw)
          else decode_readable_loop isPrint encs tok)"

definition DecodeReadableBase64 :: "(nat \<Rightarrow> bool) \<Rightarrow> string \<Rightarrow> string option" where
  "DecodeReadableBase64 isPrint tok = decode_readable_loop isPrint base64Encodings tok"

end
