(* ===== verification/Normalize.thy ===== *)
theory Normalize
  imports Pipeline Detect_Names Regex Json_Lex Base64
begin

text \<open>
  \<open>internal/normalize\<close>: the builder that records where each output byte came from (\<open>builder.go\<close>),
  the six passes (\<open>passes.go\<close>), and their composition over a part and a request (\<open>normalize.go\<close>). A
  Go panic (a slice out of range) is \<^const>\<open>None\<close>.
\<close>

section \<open>The builder\<close>

record builder =
  b_out :: string
  b_segs :: "offset_segment list"
  b_changed :: bool

definition empty_builder :: builder where
  "empty_builder = \<lparr>b_out = [], b_segs = [], b_changed = False\<rparr>"

definition continues :: "int \<Rightarrow> int \<Rightarrow> offset_segment list \<Rightarrow> bool" where
  "continues n start segs =
     (segs \<noteq> [] \<and> norm_end (last segs) = n \<and> orig_end (last segs) = start \<and> positional (last segs))"

definition keep :: "string \<Rightarrow> int \<Rightarrow> int \<Rightarrow> builder \<Rightarrow> builder option" where
  "keep inp start stop b =
     (if start \<ge> stop then Some b
      else case go_slice inp start stop of
        None \<Rightarrow> None
      | Some txt \<Rightarrow>
          (let n = int (length (b_out b)); segs = b_segs b; b = b\<lparr>b_out := b_out b @ txt\<rparr> in
           if continues n start segs then
             Some (b\<lparr>b_segs := butlast segs @
               [(last segs)\<lparr>norm_end := norm_end (last segs) + (stop - start), orig_end := stop\<rparr>]\<rparr>)
           else
             Some (b\<lparr>b_segs := segs @
               [\<lparr>norm_start = n, norm_end = n + stop - start, orig_start = start, orig_end = stop\<rparr>]\<rparr>)))"

definition replace :: "string \<Rightarrow> int \<Rightarrow> int \<Rightarrow> builder \<Rightarrow> builder" where
  "replace repl start stop b =
     (let b = b\<lparr>b_changed := True\<rparr> in
      if repl = [] then b
      else let n = int (length (b_out b)) in
        b\<lparr>b_out := b_out b @ repl,
          b_segs := b_segs b @
            [\<lparr>norm_start = n, norm_end = n + int (length repl), orig_start = start, orig_end = stop\<rparr>]\<rparr>)"

definition builder_result :: "string \<Rightarrow> builder \<Rightarrow> string \<times> offset_map" where
  "builder_result inp b = (if \<not> b_changed b then (inp, []) else (b_out b, NewOffsetMap (b_segs b)))"

section \<open>Passes\<close>

record evidence =
  evd_typ :: string
  evd_start :: int
  evd_end :: int
  evd_score :: rat

type_synonym pass_result = "string \<times> offset_map \<times> evidence list"
type_synonym pass = "string \<Rightarrow> pass_result option"

text \<open>
  What the passes call outside the repository: the entity table of package \<open>html\<close>, the printable
  runes of package \<open>unicode\<close>, and the NFKC form of \<open>golang.org/x/text\<close>.
\<close>

record text_lib =
  html_UnescapeString :: "string \<Rightarrow> string"
  unicode_IsPrint :: "nat \<Rightarrow> bool"
  nfkc_IsNormalString :: "string \<Rightarrow> bool"
  nfkc_NextBoundary :: "string \<Rightarrow> int"
  nfkc_String :: "string \<Rightarrow> string"

definition untouched :: "string \<Rightarrow> pass_result" where
  "untouched inp = (inp, [], [])"

subsection \<open>Values of a JSON document\<close>

fun markValue :: "nat list \<Rightarrow> nat list" where
  "markValue [] = []"
| "markValue (c # cs) = (c + 1) # cs"

function tokenStart :: "string \<Rightarrow> nat \<Rightarrow> nat" where
  "tokenStart inp from =
     (if from < length inp then
        (if inp ! from \<in> {CHR '' '', CHR 0x09, CHR 0x0A, CHR 0x0D, CHR '','', CHR '':''}
         then tokenStart inp (from + 1) else from)
      else from)"
  by pat_completeness auto
termination
  by (relation "measure (\<lambda>(inp, from). length inp - from)") auto

declare tokenStart.simps [simp del]

text \<open>The separator line: it belongs to no input byte.\<close>

definition separate_value :: "int \<Rightarrow> builder \<Rightarrow> builder" where
  "separate_value start b = (if length (b_out b) > 0 then replace [CHR 0x0A] start start b else b)"

definition write_string :: "string \<Rightarrow> int \<Rightarrow> int \<Rightarrow> string \<Rightarrow> builder \<Rightarrow> builder option" where
  "write_string inp start stop s b =
     (case go_slice inp (start + 1) (stop - 1) of
        None \<Rightarrow> None
      | Some raw \<Rightarrow>
          if raw = s then keep inp (start + 1) (stop - 1) b else Some (replace s start stop b))"

text \<open>The stacks are held with their tops first.\<close>

fun extract_loop :: "string \<Rightarrow> located list \<Rightarrow> nat \<Rightarrow> char list \<Rightarrow> nat list \<Rightarrow> builder \<Rightarrow> builder option" where
  "extract_loop inp [] prior stack counts b = Some b"
| "extract_loop inp (l # ls) prior stack counts b =
     (let after = tk_after l;
          isKey = (stack \<noteq> [] \<and> hd stack = CHR ''{'' \<and> hd counts mod 2 = 0);
          start = int (tokenStart inp prior)
      in case tk l of
        TDelim t \<Rightarrow>
          if t = CHR ''{'' \<or> t = CHR ''['' then extract_loop inp ls after (t # stack) (0 # markValue counts) b
          else if stack = [] then None
          else extract_loop inp ls after (tl stack) (tl counts) b
      | TString s \<Rightarrow>
          if isKey then extract_loop inp ls after stack (markValue counts) b
          else (case write_string inp start (int after) s (separate_value start b) of
              None \<Rightarrow> None | Some b \<Rightarrow> extract_loop inp ls after stack (markValue counts) b)
      | TNumber s \<Rightarrow>
          if isKey then extract_loop inp ls after stack (markValue counts) b
          else (case keep inp start (int after) (separate_value start b) of
              None \<Rightarrow> None | Some b \<Rightarrow> extract_loop inp ls after stack (markValue counts) b)
      | _ \<Rightarrow> extract_loop inp ls after stack (markValue counts) b)"

definition extractJSON :: pass where
  "extractJSON inp =
     (let trimmed = TrimSpace inp in
      if trimmed = [] \<or> (hd trimmed \<noteq> CHR ''{'' \<and> hd trimmed \<noteq> CHR ''['') \<or> \<not> json_Valid inp
      then Some (untouched inp)
      else case extract_loop inp (decoder_tokens inp) 0 [] [] (empty_builder\<lparr>b_changed := True\<rparr>) of
        None \<Rightarrow> None
      | Some b \<Rightarrow> (let (out, m) = builder_result inp b in Some (out, m, [])))"

subsection \<open>Substitution of pattern matches\<close>

fun substitute_loop ::
  "string \<Rightarrow> (string \<Rightarrow> string option) \<Rightarrow> re_match list \<Rightarrow> int \<Rightarrow> builder \<Rightarrow> (int \<times> builder) option" where
  "substitute_loop inp fn [] prev b = Some (prev, b)"
| "substitute_loop inp fn (m # ms) prev b =
     (case fn (matched inp m) of
        None \<Rightarrow> substitute_loop inp fn ms prev b
      | Some repl \<Rightarrow>
          (case keep inp prev (int (m_start m)) b of
             None \<Rightarrow> None
           | Some b \<Rightarrow>
               substitute_loop inp fn ms (int (m_end m)) (replace repl (int (m_start m)) (int (m_end m)) b)))"

definition substitute :: "string \<Rightarrow> re \<Rightarrow> (string \<Rightarrow> string option) \<Rightarrow> pass_result option" where
  "substitute inp r fn =
     (case substitute_loop inp fn (FindAll r inp) 0 empty_builder of
        None \<Rightarrow> None
      | Some (prev, b) \<Rightarrow>
          (case keep inp prev (int (length inp)) b of
             None \<Rightarrow> None
           | Some b \<Rightarrow> (let (out, m) = builder_result inp b in Some (out, m, []))))"

definition cls_digit :: re where "cls_digit = cls [(CHR ''0'', CHR ''9'')]"
definition cls_hex :: re where
  "cls_hex = cls [(CHR ''0'', CHR ''9''), (CHR ''a'', CHR ''f''), (CHR ''A'', CHR ''F'')]"

definition entityRe :: re where
  "entityRe =
     seq [chr (CHR ''&''),
          alts [seq [chr (CHR ''#''), between 1 7 cls_digit],
                seq [chr (CHR ''#''), cls [(CHR ''x'', CHR ''x''), (CHR ''X'', CHR ''X'')], between 1 6 cls_hex],
                seq [cls [(CHR ''a'', CHR ''z''), (CHR ''A'', CHR ''Z'')],
                     between 1 31 (cls [(CHR ''a'', CHR ''z''), (CHR ''A'', CHR ''Z''), (CHR ''0'', CHR ''9'')])]],
          chr (CHR '';'')]"

definition decodeEntities :: "text_lib \<Rightarrow> pass" where
  "decodeEntities lib inp =
     (if CHR ''&'' \<notin> set inp then Some (untouched inp)
      else substitute inp entityRe
        (\<lambda>match. let out = html_UnescapeString lib match in if out \<noteq> match then Some out else None))"

definition percentRe :: re where
  "percentRe = plus1 (seq [chr (CHR ''%''), times 2 cls_hex])"

fun PathUnescape :: "string \<Rightarrow> string option" where
  "PathUnescape [] = Some []"
| "PathUnescape (c # cs) =
     (if c = CHR ''%'' then
        (case cs of
           a # b # rest \<Rightarrow>
             (case (hex_value a, hex_value b) of
                (Some x, Some y) \<Rightarrow> map_option ((#) (byte_char (x * 16 + y))) (PathUnescape rest)
              | _ \<Rightarrow> None)
         | _ \<Rightarrow> None)
      else map_option ((#) c) (PathUnescape cs))"

definition decodePercent :: pass where
  "decodePercent inp =
     (if CHR ''%'' \<notin> set inp then Some (untouched inp)
      else substitute inp percentRe
        (\<lambda>match. case PathUnescape match of
           None \<Rightarrow> None | Some out \<Rightarrow> if ValidString out then Some out else None))"

subsection \<open>Invisible characters\<close>

definition invisible :: "nat \<Rightarrow> bool" where
  "invisible r =
     ((0x200B \<le> r \<and> r \<le> 0x200F) \<or> (0x202A \<le> r \<and> r \<le> 0x202E) \<or> (0x2060 \<le> r \<and> r \<le> 0x2064)
      \<or> (0x2066 \<le> r \<and> r \<le> 0x2069) \<or> r = 0xFEFF \<or> r = 0x00AD \<or> r = 0x180E)"

definition hidden_text :: "int \<Rightarrow> int \<Rightarrow> evidence" where
  "hidden_text i j = \<lparr>evd_typ = TypeHiddenText, evd_start = i, evd_end = j, evd_score = 1\<rparr>"

fun strip_loop ::
  "string \<Rightarrow> (nat \<times> nat) list \<Rightarrow> int \<Rightarrow> int \<Rightarrow> builder \<Rightarrow> evidence list \<Rightarrow> (int \<times> int \<times> builder \<times> evidence list) option" where
  "strip_loop inp [] prev runStart b ev = Some (prev, runStart, b, ev)"
| "strip_loop inp ((i, r) # rs) prev runStart b ev =
     (if invisible r then
        (if runStart < 0 then
           (case keep inp prev (int i) b of None \<Rightarrow> None | Some b \<Rightarrow> strip_loop inp rs prev (int i) b ev)
         else strip_loop inp rs prev runStart b ev)
      else if runStart \<ge> 0 then
        strip_loop inp rs (int i) (-1) (replace [] runStart (int i) b) (ev @ [hidden_text runStart (int i)])
      else strip_loop inp rs prev runStart b ev)"

definition stripInvisible :: pass where
  "stripInvisible inp =
     (let n = int (length inp) in
      case strip_loop inp (runes inp) 0 (-1) empty_builder [] of
        None \<Rightarrow> None
      | Some (prev, runStart, b, ev) \<Rightarrow>
          (let (prev, b, ev) =
             (if runStart \<ge> 0 then (n, replace [] runStart n b, ev @ [hidden_text runStart n]) else (prev, b, ev))
           in case keep inp prev n b of
             None \<Rightarrow> None
           | Some b \<Rightarrow> (let (out, m) = builder_result inp b in Some (out, m, ev))))"

subsection \<open>NFKC\<close>

function nfkc_loop :: "text_lib \<Rightarrow> string \<Rightarrow> int \<Rightarrow> builder \<Rightarrow> builder option" where
  "nfkc_loop lib inp i b =
     (if i < int (length inp) then
        let n0 = nfkc_NextBoundary lib (drop (nat i) inp);
            n = (if n0 \<le> 0 then int (length inp) - i else n0)
        in case go_slice inp i (i + n) of
          None \<Rightarrow> None
        | Some chunk \<Rightarrow>
            let out = nfkc_String lib chunk in
            if out \<noteq> chunk then nfkc_loop lib inp (i + n) (replace out i (i + n) b)
            else case keep inp i (i + n) b of None \<Rightarrow> None | Some b \<Rightarrow> nfkc_loop lib inp (i + n) b
      else Some b)"
  by pat_completeness auto
termination
  by (relation "measure (\<lambda>(lib, inp, i, b). nat (int (length inp) - i))") auto

declare nfkc_loop.simps [simp del]

definition nfkc :: "text_lib \<Rightarrow> pass" where
  "nfkc lib inp =
     (if nfkc_IsNormalString lib inp then Some (untouched inp)
      else case nfkc_loop lib inp 0 empty_builder of
        None \<Rightarrow> None
      | Some b \<Rightarrow> (let (out, m) = builder_result inp b in Some (out, m, [])))"

subsection \<open>Base64 payloads\<close>

definition base64Re :: re where
  "base64Re =
     seq [atleast 16 (cls [(CHR ''A'', CHR ''Z''), (CHR ''a'', CHR ''z''), (CHR ''0'', CHR ''9''),
            (CHR ''+'', CHR ''+''), (CHR ''/'', CHR ''/''), (CHR ''_'', CHR ''_''), (CHR ''-'', CHR ''-'')]),
          between 0 2 (chr (CHR ''=''))]"

definition payloads :: "text_lib \<Rightarrow> string \<Rightarrow> (string \<times> int \<times> int) list" where
  "payloads lib inp =
     List.map_filter
       (\<lambda>m. map_option (\<lambda>decoded. (decoded, int (m_start m), int (m_end m)))
          (DecodeReadableBase64 (unicode_IsPrint lib) (matched inp m)))
       (FindAll base64Re inp)"

definition encoded_payload :: "string \<times> int \<times> int \<Rightarrow> evidence" where
  "encoded_payload = (\<lambda>(_, i, j). \<lparr>evd_typ = TypeEncodedPayload, evd_start = i, evd_end = j, evd_score = 1 / 2\<rparr>)"

fun append_payloads :: "(string \<times> int \<times> int) list \<Rightarrow> builder \<Rightarrow> builder" where
  "append_payloads [] b = b"
| "append_payloads ((txt, i, j) # ps) b = append_payloads ps (replace (CHR 0x0A # txt) i j b)"

definition expandBase64 :: "text_lib \<Rightarrow> pass" where
  "expandBase64 lib inp =
     (let ps = payloads lib inp in
      if length ps = 0 then Some (untouched inp)
      else case keep inp 0 (int (length inp)) empty_builder of
        None \<Rightarrow> None
      | Some b \<Rightarrow>
          (let (out, m) = builder_result inp (append_payloads ps b) in Some (out, m, map encoded_payload ps)))"

section \<open>All passes over a text and a request\<close>

definition passes :: "text_lib \<Rightarrow> pass list" where
  "passes lib = [extractJSON, decodeEntities lib, decodePercent, stripInvisible, expandBase64 lib, nfkc lib]"

definition evidence_finding :: "offset_map \<Rightarrow> evidence \<Rightarrow> finding" where
  "evidence_finding acc e =
     (let (start, stop) = map_Span acc (evd_start e) (evd_end e) in
      \<lparr>f_detector = DetectorInjectionHeuristic, f_type = evd_typ e,
       f_span = zero_span\<lparr>span_start := start, span_end := stop\<rparr>, f_score = evd_score e\<rparr>)"

fun text_loop :: "pass list \<Rightarrow> string \<Rightarrow> offset_map \<Rightarrow> finding list \<Rightarrow> (string \<times> offset_map \<times> finding list) option" where
  "text_loop [] txt acc findings = Some (txt, acc, findings)"
| "text_loop (p # ps) txt acc findings =
     (case p txt of
        None \<Rightarrow> None
      | Some (out, m, ev) \<Rightarrow>
          text_loop ps out (ComposeOffsets m acc) (findings @ map (evidence_finding acc) ev))"

definition Text :: "text_lib \<Rightarrow> string \<Rightarrow> (string \<times> offset_map \<times> finding list) option" where
  "Text lib inp = text_loop (passes lib) inp [] []"

fun normalize_parts ::
  "text_lib \<Rightarrow> nat \<Rightarrow> part list \<Rightarrow> (part list \<times> offset_map list \<times> finding list) option" where
  "normalize_parts lib i [] = Some ([], [], [])"
| "normalize_parts lib i (p # ps) =
     (case Text lib (p_text p) of
        None \<Rightarrow> None
      | Some (txt, m, fs) \<Rightarrow>
          (case normalize_parts lib (i + 1) ps of
             None \<Rightarrow> None
           | Some (ps, ms, fss) \<Rightarrow>
               Some (p\<lparr>p_text := txt\<rparr> # ps, m # ms,
                 map (\<lambda>f. f\<lparr>f_span := (f_span f)\<lparr>span_part := int i\<rparr>\<rparr>) fs @ fss)))"

definition Normalizer_Normalize :: "text_lib \<Rightarrow> request \<Rightarrow> normalization option" where
  "Normalizer_Normalize lib req =
     (case normalize_parts lib 0 (r_parts req) of
        None \<Rightarrow> None
      | Some (ps, ms, fs) \<Rightarrow> Some \<lparr>n_request = req\<lparr>r_parts := ps\<rparr>, n_maps = ms, n_findings = fs\<rparr>)"

end
