(* ===== verification/Normalize_Correct.thy ===== *)
theory Normalize_Correct
  imports Normalize
begin

text \<open>
  Every pass of the normalizer is total and returns a well-formed map with evidence inside its
  input, whatever the bytes are; so normalizing a request never panics, and every finding it
  reports lies inside the original part.
\<close>

section \<open>The builder keeps its map well formed\<close>

definition builder_ok :: "string \<Rightarrow> builder \<Rightarrow> bool" where
  "builder_ok inp b =
     (contiguous 0 (b_segs b) \<and> (\<forall>s \<in> set (b_segs b). orig_within (int (length inp)) s)
      \<and> int (length (b_out b)) = (if b_segs b = [] then 0 else norm_end (last (b_segs b))))"

lemma builder_ok_empty [simp]: "builder_ok inp empty_builder" "builder_ok inp (b\<lparr>b_changed := c\<rparr>) = builder_ok inp b"
  by (simp_all add: builder_ok_def empty_builder_def)

lemma builder_ok_append:
  assumes "builder_ok inp b" "0 \<le> i" "i \<le> j" "j \<le> int (length inp)" "chunk \<noteq> []"
    "b_out b' = b_out b @ chunk"
    "b_segs b' = b_segs b @ [\<lparr>norm_start = int (length (b_out b)),
       norm_end = int (length (b_out b)) + int (length chunk), orig_start = i, orig_end = j\<rparr>]"
  shows "builder_ok inp b'"
  using assms by (auto simp: builder_ok_def contiguous_append orig_within_def)

lemma contiguous_extend_last:
  assumes "contiguous n segs" "segs \<noteq> []" "0 < d"
  shows "contiguous n (butlast segs @ [(last segs)\<lparr>norm_end := norm_end (last segs) + d, orig_end := e\<rparr>])"
proof -
  have "contiguous n (butlast segs @ [last segs])" using assms(1,2) by simp
  with assms(3) show ?thesis by (auto simp: contiguous_append)
qed

lemma keep_ok:
  assumes "builder_ok inp b" "0 \<le> i" "j \<le> int (length inp)"
  shows "\<exists>b'. keep inp i j b = Some b' \<and> builder_ok inp b' \<and> b_changed b' = b_changed b
    \<and> b_out b' = b_out b @ take (nat j - nat i) (drop (nat i) inp)"
proof (cases "i \<ge> j")
  case True
  then show ?thesis using assms by (simp add: keep_def nat_mono)
next
  case False
  define chunk where "chunk = take (nat j - nat i) (drop (nat i) inp)"
  have slice: "go_slice inp i j = Some chunk" using False assms by (simp add: go_slice_def chunk_def)
  have len: "int (length chunk) = j - i" using False assms by (simp add: chunk_def)
  then have "chunk \<noteq> []" using False by auto
  show ?thesis
  proof (cases "continues (int (length (b_out b))) i (b_segs b)")
    case True
    define l where "l = last (b_segs b)"
    define l' where "l' = l\<lparr>norm_end := norm_end l + (j - i), orig_end := j\<rparr>"
    from True have ne: "b_segs b \<noteq> []" and oe: "orig_end l = i" by (simp_all add: continues_def l_def)
    have "orig_within (int (length inp)) l" using assms(1) ne by (simp add: builder_ok_def l_def)
    then have "orig_within (int (length inp)) l'" using oe False assms by (simp add: orig_within_def l'_def)
    moreover have "contiguous 0 (butlast (b_segs b) @ [l'])"
      unfolding l'_def l_def by (rule contiguous_extend_last) (use assms(1) ne False in \<open>simp_all add: builder_ok_def\<close>)
    moreover have "set (butlast (b_segs b)) \<subseteq> set (b_segs b)" by (auto dest: in_set_butlastD)
    ultimately have "builder_ok inp (b\<lparr>b_out := b_out b @ chunk, b_segs := butlast (b_segs b) @ [l']\<rparr>)"
      using assms(1) ne len by (auto simp: builder_ok_def l'_def l_def)
    with True False slice show ?thesis by (simp add: keep_def Let_def l'_def l_def chunk_def)
  next
    case False': False
    have "builder_ok inp (b\<lparr>b_out := b_out b @ chunk, b_segs := b_segs b @
        [\<lparr>norm_start = int (length (b_out b)), norm_end = int (length (b_out b)) + j - i, orig_start = i, orig_end = j\<rparr>]\<rparr>)"
      by (rule builder_ok_append [OF assms(1,2) _ assms(3) \<open>chunk \<noteq> []\<close>]) (use False len in simp_all)
    with False' False slice show ?thesis by (simp add: keep_def Let_def chunk_def)
  qed
qed

lemma replace_ok:
  assumes "builder_ok inp b" "0 \<le> i" "i \<le> j" "j \<le> int (length inp)"
  shows "builder_ok inp (replace repl i j b)"
proof (cases "repl = []")
  case True
  then show ?thesis using assms by (simp add: replace_def)
next
  case False
  then show ?thesis
    by (intro builder_ok_append [OF assms False]) (simp_all add: replace_def Let_def)
qed

lemma replace_changed [simp]: "b_changed (replace repl i j b)"
  by (simp add: replace_def Let_def)

lemma replace_out [simp]: "b_out (replace repl i j b) = b_out b @ repl"
  by (simp add: replace_def Let_def)

lemma builder_result_wf:
  assumes "builder_ok inp b" "builder_result inp b = (out, m)"
  shows "wf_map (int (length out)) (int (length inp)) m"
  using assms by (auto simp: builder_result_def builder_ok_def wf_map_def NewOffsetMap_def split: if_splits)

section \<open>The contract of a pass\<close>

definition evidence_within :: "int \<Rightarrow> evidence \<Rightarrow> bool" where
  "evidence_within n e = (0 \<le> evd_start e \<and> evd_start e \<le> evd_end e \<and> evd_end e \<le> n)"

locale text_pass =
  fixes p :: pass
  assumes runs: "p inp \<noteq> None"
    and maps: "p inp = Some (out, m, ev) \<Longrightarrow> wf_map (int (length out)) (int (length inp)) m"
    and shows_evidence: "p inp = Some (out, m, ev) \<Longrightarrow> e \<in> set ev \<Longrightarrow> evidence_within (int (length inp)) e"

lemma untouched_wf: "wf_map (int (length inp)) (int (length inp)) []"
  by (simp add: wf_map_def)

text \<open>A pass is one that leaves the text alone or returns what a sound builder holds.\<close>

definition builds :: "string \<Rightarrow> pass_result option \<Rightarrow> bool" where
  "builds inp r =
     (r = Some (untouched inp)
      \<or> (\<exists>b ev. builder_ok inp b \<and> r = Some (fst (builder_result inp b), snd (builder_result inp b), ev)
          \<and> (\<forall>e \<in> set ev. evidence_within (int (length inp)) e)))"

lemma builds_untouched [simp]: "builds inp (Some (untouched inp))"
  by (simp add: builds_def)

lemma builds_result:
  "builder_ok inp b \<Longrightarrow> \<forall>e \<in> set ev. evidence_within (int (length inp)) e \<Longrightarrow>
     builds inp (let (out, m) = builder_result inp b in Some (out, m, ev))"
  by (auto simp: builds_def split: prod.splits intro!: exI [of _ b])

lemma text_passI:
  assumes "\<And>inp. builds inp (p inp)"
  shows "text_pass p"
proof unfold_locales
  fix inp
  show "p inp \<noteq> None" using assms [of inp] by (auto simp: builds_def untouched_def)
  fix out m ev e
  assume "p inp = Some (out, m, ev)"
  then have *: "(out = inp \<and> m = [] \<and> ev = [])
      \<or> (\<exists>b. builder_ok inp b \<and> builder_result inp b = (out, m) \<and> (\<forall>e \<in> set ev. evidence_within (int (length inp)) e))"
    using assms [of inp] by (auto simp: builds_def untouched_def)
  then show "wf_map (int (length out)) (int (length inp)) m"
    using builder_result_wf untouched_wf by blast
  show "e \<in> set ev \<Longrightarrow> evidence_within (int (length inp)) e" using * by auto
qed

section \<open>The passes meet it\<close>

lemma substitute_loop_ok:
  "matches_from (length inp) q ms \<Longrightarrow> prev \<le> int q \<Longrightarrow> 0 \<le> prev \<Longrightarrow> builder_ok inp b \<Longrightarrow>
   \<exists>prev' b'. substitute_loop inp fn ms prev b = Some (prev', b') \<and> 0 \<le> prev' \<and> builder_ok inp b'"
proof (induction ms arbitrary: q prev b)
  case (Cons m ms)
  then have m: "q \<le> m_start m" "m_start m \<le> m_end m" "m_end m \<le> length inp" "matches_from (length inp) (m_end m) ms"
    by auto
  show ?case
  proof (cases "fn (matched inp m)")
    case None
    with Cons.IH [OF m(4) _ Cons.prems(3,4)] Cons.prems(2) m show ?thesis by simp
  next
    case (Some repl)
    have "int (m_start m) \<le> int (length inp)" using m by simp
    from keep_ok [OF Cons.prems(4,3) this] obtain b' where b': "keep inp prev (int (m_start m)) b = Some b'"
      "builder_ok inp b'" by auto
    have "builder_ok inp (replace repl (int (m_start m)) (int (m_end m)) b')"
      by (rule replace_ok [OF b'(2)]) (use m in simp_all)
    from Cons.IH [OF m(4) _ _ this, of "int (m_end m)"] Some b' show ?thesis by simp
  qed
qed simp

lemma substitute_builds: "builds inp (substitute inp r fn)"
proof -
  obtain prev b where b: "substitute_loop inp fn (FindAll r inp) 0 empty_builder = Some (prev, b)" "0 \<le> prev"
    "builder_ok inp b"
    using substitute_loop_ok [OF FindAll_from [of inp r], of 0 empty_builder fn] by auto
  obtain b' where "keep inp prev (int (length inp)) b = Some b'" "builder_ok inp b'"
    using keep_ok [OF b(3,2), of "int (length inp)"] by auto
  with b builds_result [of inp b' "[]"] show ?thesis by (simp add: substitute_def)
qed

interpretation entities: text_pass "decodeEntities lib" for lib
  by (rule text_passI) (simp add: decodeEntities_def substitute_builds)

interpretation percent: text_pass decodePercent
  by (rule text_passI) (simp add: decodePercent_def substitute_builds)

text \<open>Stripping: the run in progress, if any, ends at the rune at hand.\<close>

lemma strip_loop_ok:
  assumes "\<forall>(i, r) \<in> set rs. p \<le> i \<and> i \<le> length inp" "sorted_wrt (<) (map fst rs)"
    "0 \<le> prev" "prev \<le> int p" "runStart \<le> int p" "builder_ok inp b" "-1 \<le> runStart"
    "\<forall>e \<in> set ev. evidence_within (int (length inp)) e" "p \<le> length inp"
  shows "\<exists>prev' runStart' b' ev'. strip_loop inp rs prev runStart b ev = Some (prev', runStart', b', ev')
    \<and> 0 \<le> prev' \<and> runStart' \<le> int (length inp) \<and> builder_ok inp b'
    \<and> (\<forall>e \<in> set ev'. evidence_within (int (length inp)) e)"
  using assms
proof (induction rs arbitrary: p prev runStart b ev)
  case (Cons ir rs)
  obtain i r where ir: "ir = (i, r)" by fastforce
  then have i: "p \<le> i" "i \<le> length inp" using Cons.prems by auto
  have rest: "\<forall>(j, r) \<in> set rs. i \<le> j \<and> j \<le> length inp" "sorted_wrt (<) (map fst rs)"
    using Cons.prems(1,2) ir by fastforce+
  note IH = Cons.IH [OF rest]
  consider "invisible r" "runStart < 0" | "invisible r" "\<not> runStart < 0"
    | "\<not> invisible r" "runStart \<ge> 0" | "\<not> invisible r" "\<not> runStart \<ge> 0" by blast
  then show ?case
  proof cases
    case 1
    obtain b' where "keep inp prev (int i) b = Some b'" "builder_ok inp b'"
      using keep_ok [OF Cons.prems(6,3), of "int i"] i by auto
    with IH [of prev "int i" b' ev] 1 i Cons.prems ir show ?thesis by simp
  next
    case 2
    with IH [of prev runStart b ev] i Cons.prems ir show ?thesis by simp
  next
    case 3
    have "builder_ok inp (replace [] runStart (int i) b)"
      by (rule replace_ok) (use 3 i Cons.prems in simp_all)
    moreover have "evidence_within (int (length inp)) (hidden_text runStart (int i))"
      using 3 i Cons.prems by (simp add: evidence_within_def hidden_text_def)
    ultimately show ?thesis
      using IH [of "int i" "-1" "replace [] runStart (int i) b" "ev @ [hidden_text runStart (int i)]"]
        3 i Cons.prems ir by simp
  next
    case 4
    with IH [of prev runStart b ev] i Cons.prems ir show ?thesis by simp
  qed
qed simp

interpretation strip: text_pass stripInvisible
proof (rule text_passI)
  fix inp :: string
  define n where "n = int (length inp)"
  have "\<forall>(i, r) \<in> set (runes inp). 0 \<le> i \<and> i \<le> length inp"
    using runes_from_bounds [of _ _ 0 inp] by (fastforce simp: runes_def)
  from strip_loop_ok [OF this, of 0 "-1" empty_builder "[]"] runes_from_sorted [of 0 inp]
  obtain prev runStart b ev where run: "strip_loop inp (runes inp) 0 (-1) empty_builder [] = Some (prev, runStart, b, ev)"
    and p: "0 \<le> prev" "runStart \<le> n" "builder_ok inp b" "\<forall>e \<in> set ev. evidence_within n e"
    by (auto simp: runes_def n_def)
  define prev' b' ev' where "prev' = (if runStart \<ge> 0 then n else prev)"
    and "b' = (if runStart \<ge> 0 then replace [] runStart n b else b)"
    and "ev' = (if runStart \<ge> 0 then ev @ [hidden_text runStart n] else ev)"
  have "0 \<le> prev'" "builder_ok inp b'"
    using p replace_ok [OF p(3), of runStart n] by (auto simp: prev'_def b'_def n_def)
  moreover have ev': "\<forall>e \<in> set ev'. evidence_within n e"
    using p by (auto simp: ev'_def evidence_within_def hidden_text_def)
  ultimately obtain b'' where b'': "keep inp prev' n b' = Some b''" "builder_ok inp b''"
    using keep_ok [of inp b' prev' n] by (auto simp: n_def)
  have "stripInvisible inp = (let (out, m) = builder_result inp b'' in Some (out, m, ev'))"
    using run b''(1) by (simp add: stripInvisible_def Let_def n_def [symmetric] prev'_def b'_def ev'_def split: if_splits)
  with builds_result [OF b''(2), of ev'] ev' show "builds inp (stripInvisible inp)" by (simp add: n_def)
qed

text \<open>Base64: every payload is one of the matches.\<close>

lemma payloads_within:
  assumes "(chunk, i, j) \<in> set (payloads lib inp)"
  shows "0 \<le> i \<and> i \<le> j \<and> j \<le> int (length inp)"
proof -
  obtain m where "m \<in> set (FindAll base64Re inp)" "i = int (m_start m)" "j = int (m_end m)"
    using assms by (auto simp: payloads_def List.map_filter_def)
  with FindAll_bounds show ?thesis by fastforce
qed

lemma append_payloads_ok:
  "builder_ok inp b \<Longrightarrow> \<forall>(chunk, i, j) \<in> set ps. 0 \<le> i \<and> i \<le> j \<and> j \<le> int (length inp) \<Longrightarrow>
     builder_ok inp (append_payloads ps b)"
proof (induction ps b rule: append_payloads.induct)
  case (2 chunk i j ps b)
  then show ?case by (auto intro: replace_ok)
qed simp

interpretation base64: text_pass "expandBase64 lib" for lib
proof (rule text_passI)
  fix inp :: string
  obtain b where b: "keep inp 0 (int (length inp)) empty_builder = Some b" "builder_ok inp b"
    using keep_ok [of inp empty_builder 0 "int (length inp)"] by auto
  have within: "\<forall>(chunk, i, j) \<in> set (payloads lib inp). 0 \<le> i \<and> i \<le> j \<and> j \<le> int (length inp)"
    using payloads_within by blast
  have "builder_ok inp (append_payloads (payloads lib inp) b)" by (rule append_payloads_ok [OF b(2) within])
  moreover have "\<forall>e \<in> set (map encoded_payload (payloads lib inp)). evidence_within (int (length inp)) e"
    using within by (fastforce simp: evidence_within_def encoded_payload_def)
  ultimately show "builds inp (expandBase64 lib inp)"
    using builds_result b(1) by (simp add: expandBase64_def Let_def [of "payloads lib inp"])
qed

text \<open>NFKC, when the library's boundaries lie inside the text, as it documents.\<close>

definition nfkc_documented :: "text_lib \<Rightarrow> bool" where
  "nfkc_documented lib = (\<forall>s. nfkc_NextBoundary lib s \<le> int (length s))"

lemma nfkc_loop_ok:
  "nfkc_documented lib \<Longrightarrow> 0 \<le> i \<Longrightarrow> builder_ok inp b \<Longrightarrow> \<exists>b'. nfkc_loop lib inp i b = Some b' \<and> builder_ok inp b'"
proof (induction lib inp i b rule: nfkc_loop.induct)
  case (1 lib inp i b)
  show ?case
  proof (cases "i < int (length inp)")
    case False
    with "1.prems" show ?thesis by (simp add: nfkc_loop.simps [of lib inp i b])
  next
    case True
    define n0 where "n0 = nfkc_NextBoundary lib (drop (nat i) inp)"
    define n where "n = (if n0 \<le> 0 then int (length inp) - i else n0)"
    have "n0 \<le> int (length (drop (nat i) inp))" using "1.prems"(1) unfolding nfkc_documented_def n0_def by blast
    then have "n0 \<le> int (length inp) - i" using True "1.prems"(2) by simp
    then have n: "0 < n" "i + n \<le> int (length inp)" using True by (auto simp: n_def)
    define chunk where "chunk = take (nat (i + n) - nat i) (drop (nat i) inp)"
    have slice: "go_slice inp i (i + n) = Some chunk" using n "1.prems" by (simp add: go_slice_def chunk_def)
    note IH = "1.IH" [OF True n0_def n_def slice refl]
    have rep: "builder_ok inp (replace (nfkc_String lib chunk) i (i + n) b)"
      by (rule replace_ok) (use n "1.prems" in simp_all)
    obtain b1 where b1: "keep inp i (i + n) b = Some b1" "builder_ok inp b1"
      using keep_ok [OF "1.prems"(3,2) n(2)] by auto
    show ?thesis
    proof (cases "nfkc_String lib chunk \<noteq> chunk")
      case changed: True
      have "\<exists>b'. nfkc_loop lib inp (i + n) (replace (nfkc_String lib chunk) i (i + n) b) = Some b' \<and> builder_ok inp b'"
        by (rule IH(1)) (use changed rep n "1.prems" in simp_all)
      then show ?thesis using True slice changed
        by (simp add: nfkc_loop.simps [of lib inp i b] Let_def n0_def [symmetric] n_def [symmetric])
    next
      case False
      have "\<exists>b'. nfkc_loop lib inp (i + n) b1 = Some b' \<and> builder_ok inp b'"
        by (rule IH(2)) (use False b1 n "1.prems" in simp_all)
      then show ?thesis using True slice False b1
        by (simp add: nfkc_loop.simps [of lib inp i b] Let_def n0_def [symmetric] n_def [symmetric])
    qed
  qed
qed

lemma nfkc_pass: "nfkc_documented lib \<Longrightarrow> text_pass (nfkc lib)"
proof (rule text_passI)
  fix inp assume "nfkc_documented lib"
  from nfkc_loop_ok [OF this, of 0 inp empty_builder]
  obtain b where "nfkc_loop lib inp 0 empty_builder = Some b" "builder_ok inp b" by auto
  then show "builds inp (nfkc lib inp)" using builds_result [of inp b "[]"] by (simp add: nfkc_def)
qed

text \<open>
  JSON: the decoder's tokens nest, so the loop's stack is never popped when empty, and every slice
  it takes lies inside a token.
\<close>

lemma tokenStart_bounds:
  assumes "k \<le> q" "q < length inp" "\<not> skipped_byte (inp ! q)"
  shows "k \<le> tokenStart inp k \<and> tokenStart inp k \<le> q"
  using assms
proof (induction inp k rule: tokenStart.induct)
  case (1 inp k)
  show ?case
  proof (cases "skipped_byte (inp ! k)")
    case True
    with "1.prems" have q: "k + 1 \<le> q" by (metis Suc_eq_plus1 Suc_leI le_neq_implies_less)
    have lt: "k < length inp" using "1.prems" by simp
    have "tokenStart inp k = tokenStart inp (k + 1)"
      using True lt by (simp add: tokenStart.simps [of inp k] skipped_byte_def)
    with "1.IH" [OF lt _ q "1.prems"(2,3)] True show ?thesis by (simp add: skipped_byte_def)
  next
    case False
    then have "tokenStart inp k = k" by (simp add: tokenStart.simps [of inp k] skipped_byte_def)
    with "1.prems" show ?thesis by simp
  qed
qed

lemma separate_value_ok: "builder_ok inp b \<Longrightarrow> 0 \<le> i \<Longrightarrow> i \<le> int (length inp) \<Longrightarrow> builder_ok inp (separate_value i b)"
  by (simp add: separate_value_def replace_ok)

lemma write_string_ok:
  assumes "builder_ok inp b" "0 \<le> i" "i + 2 \<le> j" "j \<le> int (length inp)"
  shows "\<exists>b'. write_string inp i j v b = Some b' \<and> builder_ok inp b'"
proof -
  obtain raw where "go_slice inp (i + 1) (j - 1) = Some raw" using assms by (simp add: go_slice_def)
  moreover obtain b' where "keep inp (i + 1) (j - 1) b = Some b'" "builder_ok inp b'"
    using keep_ok [OF assms(1), of "i + 1" "j - 1"] assms by auto
  moreover have "builder_ok inp (replace v i j b)" by (rule replace_ok) (use assms in simp_all)
  ultimately show ?thesis by (simp add: write_string_def)
qed

definition is_object :: "char \<Rightarrow> bool" where
  "is_object c = (c = CHR ''{'')"

definition fresh_container :: "expecting \<Rightarrow> bool" where
  "fresh_container x = (x = XValueOrEnd \<or> x = XKeyOrEnd)"

lemma json_step_stack:
  assumes "json_step t (x, map is_object stack) = Some (x', st)" "fresh_container x \<Longrightarrow> stack \<noteq> []"
  shows "(fresh_container x' \<longrightarrow> st \<noteq> []) \<and>
    (case t of
       TDelim c \<Rightarrow>
         if c = CHR ''{'' \<or> c = CHR ''['' then st = map is_object (c # stack) else stack \<noteq> [] \<and> st = map is_object (tl stack)
     | _ \<Rightarrow> st = map is_object stack)"
proof (cases t)
  case (TDelim c)
  with assms show ?thesis
    by (cases x; cases stack)
      (auto simp: json_step_def fresh_container_def is_object_def split: if_splits bool.splits)
qed (use assms in \<open>cases x; cases stack;
      auto simp: json_step_def fresh_container_def is_object_def split: if_splits bool.splits\<close>)+

lemma extract_loop_ok:
  "json_accepts (x, map is_object stack) (map tk toks) \<Longrightarrow> (fresh_container x \<Longrightarrow> stack \<noteq> []) \<Longrightarrow>
   located_ok inp prior (filter (\<lambda>l. tk l \<noteq> TComma \<and> tk l \<noteq> TColon) toks) \<Longrightarrow> builder_ok inp b \<Longrightarrow>
   \<exists>b'. extract_loop inp (filter (\<lambda>l. tk l \<noteq> TComma \<and> tk l \<noteq> TColon) toks) prior stack counts b = Some b'
     \<and> builder_ok inp b'"
proof (induction toks arbitrary: x stack prior counts b)
  case (Cons l toks)
  obtain x' st where step: "json_step (tk l) (x, map is_object stack) = Some (x', st)"
    and acc: "json_accepts (x', st) (map tk toks)"
    using Cons.prems(1) by (auto split: option.splits)
  note stack = json_step_stack [OF step Cons.prems(2)]
  show ?case
  proof (cases "tk l = TComma \<or> tk l = TColon")
    case True
    with stack have st: "st = map is_object stack" by auto
    have "located_ok inp prior (filter (\<lambda>l. tk l \<noteq> TComma \<and> tk l \<noteq> TColon) toks)"
      using Cons.prems(3) True by (cases "tk l = TComma") simp_all
    note located = this
    have "\<exists>b'. extract_loop inp (filter (\<lambda>l. tk l \<noteq> TComma \<and> tk l \<noteq> TColon) toks) prior stack counts b = Some b'
       \<and> builder_ok inp b'"
    proof (rule Cons.IH [of x'])
      show "json_accepts (x', map is_object stack) (map tk toks)" using acc st by simp
      show "fresh_container x' \<Longrightarrow> stack \<noteq> []" using stack st by simp
    qed (use Cons.prems(4) located in simp_all)
    with True show ?thesis by auto
  next
    case False
    define rest where "rest = filter (\<lambda>l. tk l \<noteq> TComma \<and> tk l \<noteq> TColon) toks"
    have loc: "prior \<le> tk_start l" "tk_start l < tk_after l" "tk_after l \<le> length inp"
      "\<And>v. tk l = TString v \<Longrightarrow> tk_start l + 2 \<le> tk_after l" "\<not> skipped_byte (inp ! tk_start l)"
      "located_ok inp (tk_after l) rest"
      using Cons.prems(3) False by (auto simp: rest_def)
    define i where "i = tokenStart inp prior"
    have i: "prior \<le> i" "i \<le> tk_start l"
      using tokenStart_bounds [OF loc(1) _ loc(5)] loc(2,3) by (auto simp: i_def)
    have sep: "builder_ok inp (separate_value (int i) b)"
      by (rule separate_value_ok [OF Cons.prems(4)]) (use i loc in auto)
    have next_step: "\<exists>b'. extract_loop inp rest (tk_after l) stack' counts' b1 = Some b' \<and> builder_ok inp b'"
      if "st = map is_object stack'" "builder_ok inp b1" for stack' counts' b1
      unfolding rest_def
    proof (rule Cons.IH [of x'])
      show "json_accepts (x', map is_object stack') (map tk toks)" using acc that by simp
      show "fresh_container x' \<Longrightarrow> stack' \<noteq> []" using stack that by simp
    qed (use loc(6) that in \<open>simp_all add: rest_def\<close>)
    have fl: "filter (\<lambda>l. tk l \<noteq> TComma \<and> tk l \<noteq> TColon) (l # toks) = l # rest"
      using False by (simp add: rest_def)
    show ?thesis
    proof (cases "tk l")
      case (TDelim c)
      with stack next_step [OF _ Cons.prems(4)] show ?thesis unfolding fl by (auto split: if_splits)
    next
      case (TString v)
      obtain b1 where b1: "write_string inp (int i) (int (tk_after l)) v (separate_value (int i) b) = Some b1"
        "builder_ok inp b1"
        using write_string_ok [OF sep, of "int i" "int (tk_after l)" v] loc i TString by auto
      have "st = map is_object stack" using stack TString by simp
      from next_step [OF this Cons.prems(4), of "markValue counts"] next_step [OF this b1(2), of "markValue counts"]
      show ?thesis unfolding fl using TString b1(1) by (simp add: Let_def i_def [symmetric])
    next
      case (TNumber v)
      obtain b1 where b1: "keep inp (int i) (int (tk_after l)) (separate_value (int i) b) = Some b1"
        "builder_ok inp b1"
        using keep_ok [OF sep, of "int i" "int (tk_after l)"] loc by auto
      have "st = map is_object stack" using stack TNumber by simp
      from next_step [OF this Cons.prems(4), of "markValue counts"] next_step [OF this b1(2), of "markValue counts"]
      show ?thesis unfolding fl using TNumber b1(1) by (simp add: Let_def i_def [symmetric])
    next
      case (TBool v)
      with stack have "st = map is_object stack" by simp
      from next_step [OF this Cons.prems(4), of "markValue counts"] show ?thesis unfolding fl using TBool by simp
    next
      case TNull
      with stack have "st = map is_object stack" by simp
      from next_step [OF this Cons.prems(4), of "markValue counts"] show ?thesis unfolding fl using TNull by simp
    qed (use False in simp_all)
  qed
qed simp

interpretation json: text_pass extractJSON
proof (rule text_passI)
  fix inp :: string
  show "builds inp (extractJSON inp)"
  proof (cases "json_tokens inp")
    case None
    then show ?thesis by (simp add: extractJSON_def json_Valid_def)
  next
    case (Some toks)
    then have acc: "json_accepts (XValue, map is_object []) (map tk toks)"
      by (simp add: json_tokens_def split: option.splits if_splits)
    have dec: "decoder_tokens inp = filter (\<lambda>l. tk l \<noteq> TComma \<and> tk l \<noteq> TColon) toks"
      using Some by (simp add: decoder_tokens_def)
    obtain b where b: "extract_loop inp (decoder_tokens inp) 0 [] [] (empty_builder\<lparr>b_changed := True\<rparr>) = Some b"
      "builder_ok inp b"
      using extract_loop_ok [OF acc _ decoder_tokens_located [of inp, unfolded dec],
          of "empty_builder\<lparr>b_changed := True\<rparr>" "[]"] dec by (auto simp: fresh_container_def)
    then show ?thesis using builds_result [OF b(2), of "[]"] by (auto simp: extractJSON_def Let_def [of "TrimSpace inp"])
  qed
qed

section \<open>All passes\<close>

lemma passes_ok:
  assumes "nfkc_documented lib"
  shows "\<forall>p \<in> set (passes lib). text_pass p"
  using json.text_pass_axioms entities.text_pass_axioms percent.text_pass_axioms strip.text_pass_axioms
    base64.text_pass_axioms nfkc_pass [OF assms]
  by (simp add: passes_def)

lemma evidence_finding_within:
  assumes "wf_map (int (length t)) n acc" "evidence_within (int (length t)) e"
  shows "finding_within n (evidence_finding acc e)"
  using map_Span_bounds [OF assms(1), of "evd_start e" "evd_end e"] assms(2)
  by (auto simp: evidence_finding_def finding_within_def evidence_within_def split: prod.splits)

lemma text_loop_ok:
  "\<forall>p \<in> set ps. text_pass p \<Longrightarrow> wf_map (int (length t)) n acc \<Longrightarrow> \<forall>f \<in> set fs. finding_within n f \<Longrightarrow>
   \<exists>t' m fs'. text_loop ps t acc fs = Some (t', m, fs') \<and> wf_map (int (length t')) n m
     \<and> (\<forall>f \<in> set fs'. finding_within n f)"
proof (induction ps arbitrary: t acc fs)
  case (Cons p ps)
  then have p: "text_pass p" by simp
  obtain out m ev where run: "p t = Some (out, m, ev)" using text_pass.runs [OF p, of t] by auto
  have "wf_map (int (length out)) n (ComposeOffsets m acc)"
    by (rule ComposeOffsets_wf [OF text_pass.maps [OF p run] Cons.prems(2)])
  moreover have "\<forall>f \<in> set (fs @ map (evidence_finding acc) ev). finding_within n f"
    using Cons.prems(3) evidence_finding_within [OF Cons.prems(2)] text_pass.shows_evidence [OF p run]
    by auto
  ultimately show ?case using Cons.IH [of out "ComposeOffsets m acc"] Cons.prems(1) run by simp
qed simp

lemma Text_ok:
  assumes "nfkc_documented lib"
  shows "\<exists>t m fs. Text lib inp = Some (t, m, fs) \<and> wf_map (int (length t)) (int (length inp)) m
    \<and> (\<forall>f \<in> set fs. finding_within (int (length inp)) f)"
  unfolding Text_def
  by (rule text_loop_ok [OF passes_ok [OF assms]]) (simp_all add: wf_map_def)

lemma normalize_parts_ok:
  assumes "nfkc_documented lib"
  shows "\<exists>qs ms fs. normalize_parts lib i ps = Some (qs, ms, fs) \<and> length qs = length ps \<and> length ms = length ps
    \<and> (\<forall>j < length ps. wf_map (int (length (p_text (qs ! j)))) (int (length (p_text (ps ! j)))) (ms ! j)
          \<and> p_role (qs ! j) = p_role (ps ! j) \<and> p_trust (qs ! j) = p_trust (ps ! j))
    \<and> (\<forall>f \<in> set fs. \<exists>j < length ps. span_part (f_span f) = int (i + j)
          \<and> finding_within (int (length (p_text (ps ! j)))) f)"
proof (induction ps arbitrary: i)
  case (Cons p ps)
  obtain t m fs where t: "Text lib (p_text p) = Some (t, m, fs)"
    "wf_map (int (length t)) (int (length (p_text p))) m" "\<forall>f \<in> set fs. finding_within (int (length (p_text p))) f"
    using Text_ok [OF assms] by blast
  obtain qs ms fss where r: "normalize_parts lib (i + 1) ps = Some (qs, ms, fss)" "length qs = length ps"
    "length ms = length ps"
    and rj: "\<forall>j < length ps. wf_map (int (length (p_text (qs ! j)))) (int (length (p_text (ps ! j)))) (ms ! j)
          \<and> p_role (qs ! j) = p_role (ps ! j) \<and> p_trust (qs ! j) = p_trust (ps ! j)"
    and rf: "\<forall>f \<in> set fss. \<exists>j < length ps. span_part (f_span f) = int (i + 1 + j)
          \<and> finding_within (int (length (p_text (ps ! j)))) f"
    using Cons.IH [of "i + 1"] by blast
  define fs' where "fs' = map (\<lambda>f. f\<lparr>f_span := (f_span f)\<lparr>span_part := int i\<rparr>\<rparr>) fs"
  have "\<exists>j < length (p # ps). span_part (f_span f) = int (i + j) \<and> finding_within (int (length (p_text ((p # ps) ! j)))) f"
    if "f \<in> set (fs' @ fss)" for f
  proof (cases "f \<in> set fs'")
    case True
    with t(3) show ?thesis by (auto simp: fs'_def finding_within_def intro!: exI [of _ 0])
  next
    case False
    with that rf obtain j where "j < length ps" "span_part (f_span f) = int (i + 1 + j)"
      "finding_within (int (length (p_text (ps ! j)))) f" by auto
    then show ?thesis by (intro exI [of _ "Suc j"]) simp
  qed
  moreover have "\<forall>j < length (p # ps).
      wf_map (int (length (p_text ((p\<lparr>p_text := t\<rparr> # qs) ! j)))) (int (length (p_text ((p # ps) ! j)))) ((m # ms) ! j)
        \<and> p_role ((p\<lparr>p_text := t\<rparr> # qs) ! j) = p_role ((p # ps) ! j)
        \<and> p_trust ((p\<lparr>p_text := t\<rparr> # qs) ! j) = p_trust ((p # ps) ! j)"
    using rj t(2) by (auto simp: less_Suc_eq_0_disj)
  moreover have "normalize_parts lib i (p # ps) = Some (p\<lparr>p_text := t\<rparr> # qs, m # ms, fs' @ fss)"
    using t(1) r(1) by (simp add: fs'_def)
  ultimately show ?case using r(2,3) by (intro exI [of _ "p\<lparr>p_text := t\<rparr> # qs"] exI [of _ "m # ms"] exI [of _ "fs' @ fss"]) simp
qed simp

section \<open>Properties\<close>

text \<open>C26: normalizing a request never panics, whatever bytes its parts hold: it keeps everything but
  the texts, gives each part an offset map that is well formed between the normalized and the
  original text, and reports findings that lie inside the original parts.\<close>

theorem normalize_total:
  assumes "nfkc_documented lib"
  shows "\<exists>n. Normalizer_Normalize lib req = Some n
    \<and> (n_request n)\<lparr>r_parts := r_parts req\<rparr> = req
    \<and> length (r_parts (n_request n)) = length (r_parts req) \<and> length (n_maps n) = length (r_parts req)
    \<and> (\<forall>j < length (r_parts req).
          wf_map (int (length (p_text (r_parts (n_request n) ! j)))) (int (length (p_text (r_parts req ! j)))) (n_maps n ! j)
          \<and> p_role (r_parts (n_request n) ! j) = p_role (r_parts req ! j)
          \<and> p_trust (r_parts (n_request n) ! j) = p_trust (r_parts req ! j))
    \<and> (\<forall>f \<in> set (n_findings n). span_in_parts (r_parts req) (f_span f))"
proof -
  obtain qs ms fs where n: "normalize_parts lib 0 (r_parts req) = Some (qs, ms, fs)" "length qs = length (r_parts req)"
    "length ms = length (r_parts req)"
    and j: "\<forall>j < length (r_parts req).
        wf_map (int (length (p_text (qs ! j)))) (int (length (p_text (r_parts req ! j)))) (ms ! j)
          \<and> p_role (qs ! j) = p_role (r_parts req ! j) \<and> p_trust (qs ! j) = p_trust (r_parts req ! j)"
    and f: "\<forall>f \<in> set fs. \<exists>j < length (r_parts req). span_part (f_span f) = int (0 + j)
        \<and> finding_within (int (length (p_text (r_parts req ! j)))) f"
    using normalize_parts_ok [OF assms, of 0 "r_parts req"] by blast
  have "\<forall>f \<in> set fs. span_in_parts (r_parts req) (f_span f)"
    using f by (fastforce simp: span_in_parts_def finding_within_def)
  with n j show ?thesis by (simp add: Normalizer_Normalize_def)
qed

definition ascii_lib :: text_lib where
  "ascii_lib = \<lparr>html_UnescapeString = (\<lambda>s. if s = ''&lt;'' then ''<'' else s), unicode_IsPrint = (\<lambda>r. 32 \<le> r \<and> r < 127),
     nfkc_IsNormalString = list_all (\<lambda>c. byte_of c < 128), nfkc_NextBoundary = (\<lambda>s. int (rune_width s)),
     nfkc_String = id\<rparr>"

lemma ascii_lib_documented: "nfkc_documented ascii_lib"
proof -
  have "int (rune_width s) \<le> int (length s)" for s
    using rune_width_bounds [of s] by (cases s) (auto simp: rune_width_def)
  then show ?thesis by (simp add: nfkc_documented_def ascii_lib_def)
qed

definition text_request :: "surface \<Rightarrow> string \<Rightarrow> string \<Rightarrow> string \<Rightarrow> request" where
  "text_request surf sess src body = \<lparr>r_surface = surf, r_session = sess, r_caller = [], r_source = src,
     r_parts = [\<lparr>p_role = [], p_text = body, p_trust = TrustUntrusted\<rparr>]\<rparr>"

theorem normalize_total_witness:
  "\<exists>n. Normalizer_Normalize ascii_lib (text_request SurfaceInput ''s'' [] ''ig%6Eore'') = Some n
     \<and> length (r_parts (n_request n)) = 1 \<and> r_session (n_request n) = ''s''"
proof -
  obtain n where "Normalizer_Normalize ascii_lib (text_request SurfaceInput ''s'' [] ''ig%6Eore'') = Some n"
    "(n_request n)\<lparr>r_parts := r_parts (text_request SurfaceInput ''s'' [] ''ig%6Eore'')\<rparr>
       = text_request SurfaceInput ''s'' [] ''ig%6Eore''"
    "length (r_parts (n_request n)) = length (r_parts (text_request SurfaceInput ''s'' [] ''ig%6Eore''))"
    using normalize_total [OF ascii_lib_documented, of "text_request SurfaceInput ''s'' [] ''ig%6Eore''"] by blast
  then show ?thesis
    by (intro exI [of _ n]) (auto simp: text_request_def dest: arg_cong [of _ _ r_session])
qed

end
