(* ===== verification/Inspector.thy ===== *)
theory Inspector
  imports Policy Detect Normalize_Correct
begin

text \<open>
  The inspection service as \<open>cmd/inspector/main.go\<close> wires it without Redis: the normalizer, a
  detector registry, a policy, the in-memory session store and the JSON-lines audit sink behind one
  pipeline. The world is the store and the lines written; time passes between inspections.
\<close>

section \<open>The wiring\<close>

record world =
  w_mem :: memory
  w_out :: "string list"

definition lift_mem :: "(memory \<Rightarrow> 'a \<times> memory) \<Rightarrow> world \<Rightarrow> 'a \<times> world" where
  "lift_mem f w = (let (r, m) = f (w_mem w) in (r, w\<lparr>w_mem := m\<rparr>))"

definition world_store :: "world store" where
  "world_store = \<lparr>st_Tainted = (\<lambda>s. lift_mem (Mem_Tainted s)), st_Taint = (\<lambda>s ttl. lift_mem (Mem_Taint s ttl)),
     st_ToolPin = (\<lambda>s t. lift_mem (Mem_ToolPin s t)), st_PinTool = (\<lambda>s t h ttl. lift_mem (Mem_PinTool s t h ttl)),
     st_ToolBlocked = (\<lambda>s t. lift_mem (Mem_ToolBlocked s t)),
     st_BlockTool = (\<lambda>s t ttl. lift_mem (Mem_BlockTool s t ttl))\<rparr>"

definition world_audit :: "(event \<Rightarrow> string list \<Rightarrow> string result) \<Rightarrow> event \<Rightarrow> world \<Rightarrow> unit result \<times> world" where
  "world_audit line ev w =
     (let (r, out) = JSONLSink_Write line ev (w_out w) in (r, w\<lparr>w_out := out\<rparr>))"

lemma world_audit_eq: "world_audit line ev w = (fst (JSONLSink_Write line ev (w_out w)), w\<lparr>w_out := written line ev (w_out w)\<rparr>)"
  by (simp add: world_audit_def written_def split_beta)

definition time_Now :: "world \<Rightarrow> time \<times> world" where
  "time_Now w = (m_now (w_mem w), w)"

text \<open>
  The normalizer returns no error. The branch for a panic is never taken when the NFKC library keeps
  to its documentation (\<open>normalize_total\<close>).
\<close>

definition run_normalizer :: "text_lib \<Rightarrow> request \<Rightarrow> 'e \<Rightarrow> normalization result \<times> 'e" where
  "run_normalizer lib req w =
     (case Normalizer_Normalize lib req of
        None \<Rightarrow> (Inl (ErrorText ''panic''), w) | Some n \<Rightarrow> (Inr n, w))"

definition inspector_pipeline :: "text_lib \<Rightarrow> registry \<Rightarrow> policy \<Rightarrow> int \<Rightarrow> (event \<Rightarrow> string list \<Rightarrow> string result) \<Rightarrow> world pipeline" where
  "inspector_pipeline lib reg pol ttl line =
     \<lparr>pl_Normalizer = Some (run_normalizer lib),
      pl_Detectors = (\<lambda>req w. (Registry_Detect reg req, w)),
      pl_Evaluate = (\<lambda>inp w. (Inr (Evaluate (NewEvaluator (Some pol)) inp), w)),
      pl_OnError = (\<lambda>_ _. Policy_OnError (NewEvaluator (Some pol))),
      pl_Sessions = world_store, pl_Audit = world_audit line, pl_TaintTTL = ttl,
      pl_now = Some time_Now, pl_time_Now = time_Now\<rparr>"

text \<open>One configured service: what stays fixed while it runs.\<close>

record service =
  sv_sha :: "string \<Rightarrow> string"
  sv_lib :: text_lib
  sv_registry :: registry
  sv_policy :: policy
  sv_ttl :: int
  sv_line :: "event \<Rightarrow> string list \<Rightarrow> string result"

definition serve :: "service \<Rightarrow> request \<Rightarrow> world \<Rightarrow> verdict result \<times> world" where
  "serve sv req w =
     Inspect (sv_sha sv)
       (inspector_pipeline (sv_lib sv) (sv_registry sv) (sv_policy sv) (sv_ttl sv) (sv_line sv)) req w"

section \<open>The wiring meets the contracts\<close>

lemma lift_mem_apply: "lift_mem f w = (fst (f (w_mem w)), w\<lparr>w_mem := snd (f (w_mem w))\<rparr>)"
  by (simp add: lift_mem_def split_beta)

interpretation served: session_store world_store "\<lambda>w. mem_taint (w_mem w)" "\<lambda>w. mem_pin (w_mem w)"
  "\<lambda>w. mem_blocked (w_mem w)" nul_free
proof unfold_locales
  fix s t v :: string and ttl :: int and w w' :: world and b :: bool and h :: "string option" and u :: unit
    and s' t' :: string
  note store = world_store_def mem_store_def lift_mem_apply
  show "st_Tainted world_store s w = (Inr b, w') \<Longrightarrow>
      b = mem_taint (w_mem w) s \<and> mem_taint (w_mem w') = mem_taint (w_mem w)
      \<and> mem_pin (w_mem w') = mem_pin (w_mem w) \<and> mem_blocked (w_mem w') = mem_blocked (w_mem w)"
    using Mem_Tainted_spec [of s "w_mem w"] by (auto simp: store)
  show "st_Taint world_store s ttl w = (Inr u, w') \<Longrightarrow>
      mem_taint (w_mem w') = (mem_taint (w_mem w))(s := True)
      \<and> mem_pin (w_mem w') = mem_pin (w_mem w) \<and> mem_blocked (w_mem w') = mem_blocked (w_mem w)"
    using Mem_Taint_spec [of s ttl "w_mem w"] by (auto simp: store)
  show "st_ToolPin world_store s t w = (Inr h, w') \<Longrightarrow>
      h = mem_pin (w_mem w) s t \<and> mem_taint (w_mem w') = mem_taint (w_mem w)
      \<and> mem_pin (w_mem w') = mem_pin (w_mem w) \<and> mem_blocked (w_mem w') = mem_blocked (w_mem w)"
    using Mem_ToolPin_spec [of s t "w_mem w"] by (auto simp: store)
  show "st_PinTool world_store s t v ttl w = (Inr u, w') \<Longrightarrow>
      mem_pin (w_mem w') s t = Some v \<and> mem_taint (w_mem w') = mem_taint (w_mem w)
      \<and> mem_blocked (w_mem w') = mem_blocked (w_mem w)
      \<and> (nul_free s \<and> nul_free s' \<and> (s', t') \<noteq> (s, t) \<longrightarrow> mem_pin (w_mem w') s' t' = mem_pin (w_mem w) s' t')"
    using Mem_PinTool_spec [of s t v ttl "w_mem w"] by (auto simp: store tool_key_inj)
  show "st_ToolBlocked world_store s t w = (Inr b, w') \<Longrightarrow>
      b = mem_blocked (w_mem w) s t \<and> mem_taint (w_mem w') = mem_taint (w_mem w)
      \<and> mem_pin (w_mem w') = mem_pin (w_mem w) \<and> mem_blocked (w_mem w') = mem_blocked (w_mem w)"
    using Mem_ToolBlocked_spec [of s t "w_mem w"] by (auto simp: store)
  show "st_BlockTool world_store s t ttl w = (Inr u, w') \<Longrightarrow>
      mem_blocked (w_mem w') s t \<and> mem_taint (w_mem w') = mem_taint (w_mem w)
      \<and> mem_pin (w_mem w') = mem_pin (w_mem w)
      \<and> (mem_blocked (w_mem w) s' t' \<longrightarrow> mem_blocked (w_mem w') s' t')
      \<and> (nul_free s \<and> nul_free s' \<and> (s', t') \<noteq> (s, t) \<longrightarrow> mem_blocked (w_mem w') s' t' = mem_blocked (w_mem w) s' t')"
    using Mem_BlockTool_spec [of s t ttl "w_mem w"] by (auto simp: store tool_key_inj)
qed

lemmas wiring = inspector_pipeline_def world_store_def lift_mem_apply time_Now_def clock_def NewEvaluator_def

interpretation trail: audited_pipeline "inspector_pipeline lib reg pol ttl line" w_out "written line"
  for lib reg pol ttl line
proof unfold_locales
  fix run req and w :: world
  show "pl_Normalizer (inspector_pipeline lib reg pol ttl line) = Some run \<Longrightarrow> w_out (snd (run req w)) = w_out w"
    by (auto simp: wiring run_normalizer_def split: option.splits)
qed (simp_all add: wiring world_audit_eq)

section \<open>One inspection, in one equation\<close>

definition names_tool :: "surface \<Rightarrow> request \<Rightarrow> bool" where
  "names_tool surf req = (r_surface req = surf \<and> r_session req \<noteq> [] \<and> r_source req \<noteq> [])"

definition normalized :: "service \<Rightarrow> request \<Rightarrow> normalization" where
  "normalized sv req = the (Normalizer_Normalize (sv_lib sv) req)"

definition detect_error :: "service \<Rightarrow> request \<Rightarrow> go_error option" where
  "detect_error sv req = snd (Registry_Detect (sv_registry sv) (n_request (normalized sv req)))"

definition all_findings :: "service \<Rightarrow> request \<Rightarrow> finding list" where
  "all_findings sv req =
     n_findings (normalized sv req)
     @ remapSpans (fst (Registry_Detect (sv_registry sv) (n_request (normalized sv req)))) (n_maps (normalized sv req))"

definition is_tainted :: "request \<Rightarrow> memory \<Rightarrow> bool" where
  "is_tainted req m = (r_session req \<noteq> [] \<and> mem_taint m (r_session req))"

definition drifted :: "service \<Rightarrow> request \<Rightarrow> memory \<Rightarrow> bool" where
  "drifted sv req m =
     (names_tool SurfaceToolDefinition req
      \<and> (case mem_pin m (r_session req) (r_source req) of
           None \<Rightarrow> False | Some h \<Rightarrow> h \<noteq> ContentHash (sv_sha sv) req))"

definition is_blocked_call :: "request \<Rightarrow> memory \<Rightarrow> bool" where
  "is_blocked_call req m = (names_tool SurfaceToolCall req \<and> mem_blocked m (r_session req) (r_source req))"

definition decision_input :: "service \<Rightarrow> request \<Rightarrow> memory \<Rightarrow> eval_input" where
  "decision_input sv req m =
     \<lparr>ei_request = n_request (normalized sv req), ei_findings = all_findings sv req,
      ei_session_tainted = is_tainted req m, ei_pin_changed = drifted sv req m\<rparr>"

definition the_verdict :: "service \<Rightarrow> request \<Rightarrow> memory \<Rightarrow> verdict" where
  "the_verdict sv req m =
     (case detect_error sv req of
        Some _ \<Rightarrow> on_error_verdict (Policy_OnError (sv_policy sv))
      | None \<Rightarrow> decided_verdict (is_blocked_call req m) (all_findings sv req)
          (Evaluate (sv_policy sv) (decision_input sv req m)))"

text \<open>What the inspection does to the store, as a sequence of its operations.\<close>

definition store_ops :: "service \<Rightarrow> request \<Rightarrow> memory \<Rightarrow> mem_op list" where
  "store_ops sv req m =
     (let s = r_session req; t = r_source req in
      (if s \<noteq> [] then [DoTainted s] else [])
      @ (if names_tool SurfaceToolDefinition req
         then DoToolPin s t # (if mem_pin m s t = None then [DoPinTool s t (ContentHash (sv_sha sv) req) (sv_ttl sv)] else [])
         else [])
      @ (if names_tool SurfaceToolCall req then [DoToolBlocked s t] else [])
      @ (if detect_error sv req \<noteq> None then []
         else
           (if v_taint_session (the_verdict sv req m) \<and> s \<noteq> [] then [DoTaint s (sv_ttl sv)] else [])
           @ (if v_action (the_verdict sv req m) = ActionBlock \<and> names_tool SurfaceToolDefinition req
              then [DoBlockTool s t (sv_ttl sv)] else [])))"

lemma mem_run_append: "mem_run (xs @ ys) m = mem_run ys (mem_run xs m)"
  by (induction xs arbitrary: m) auto

lemma decided_verdict_simps [simp]:
  "v_taint_session (decided_verdict b fs d) = d_taint_session d"
  "v_policy_version (decided_verdict b fs d) = d_policy_version d"
  "v_action (decided_verdict b fs d) = (if b then ActionBlock else d_action d)"
  "v_findings (decided_verdict b fs d) = fs @ (if b then [tool_blocked_finding] else [])"
  "v_redactions (decided_verdict b fs d) = (if \<not> b \<and> d_action d = ActionRedact then MergeSpans (d_redactions d) else [])"
  by (simp_all add: decided_verdict_def Let_def)

lemma on_error_verdict_simps [simp]:
  "v_action (on_error_verdict d) = d_action d" "v_findings (on_error_verdict d) = []"
  "v_redactions (on_error_verdict d) = []" "\<not> v_taint_session (on_error_verdict d)"
  "v_policy_version (on_error_verdict d) = d_policy_version d"
  by (simp_all add: on_error_verdict_def zero_verdict_def)

lemma normalized_eq:
  assumes "nfkc_documented (sv_lib sv)"
  shows "Normalizer_Normalize (sv_lib sv) req = Some (normalized sv req)"
    and "(n_request (normalized sv req))\<lparr>r_parts := r_parts req\<rparr> = req"
proof -
  obtain n where "Normalizer_Normalize (sv_lib sv) req = Some n" "(n_request n)\<lparr>r_parts := r_parts req\<rparr> = req"
    using normalize_parts_ok [OF assms, of 0 "r_parts req"] by (auto simp: Normalizer_Normalize_def)
  then show "Normalizer_Normalize (sv_lib sv) req = Some (normalized sv req)"
    "(n_request (normalized sv req))\<lparr>r_parts := r_parts req\<rparr> = req"
    by (simp_all add: normalized_def)
qed

lemma normalized_fields:
  assumes "nfkc_documented (sv_lib sv)"
  shows "r_session (n_request (normalized sv req)) = r_session req"
    "r_surface (n_request (normalized sv req)) = r_surface req"
    "r_source (n_request (normalized sv req)) = r_source req"
    "r_caller (n_request (normalized sv req)) = r_caller req"
  using arg_cong [OF normalized_eq(2) [OF assms, of req], of r_session]
    arg_cong [OF normalized_eq(2) [OF assms, of req], of r_surface]
    arg_cong [OF normalized_eq(2) [OF assms, of req], of r_source]
    arg_cong [OF normalized_eq(2) [OF assms, of req], of r_caller]
  by simp_all

lemma mem_run_views:
  "mem_taint (mem_run (if c then [DoTainted s] else []) m) = mem_taint m"
  "mem_pin (mem_run (if c then [DoTainted s] else []) m) = mem_pin m"
  "mem_blocked (mem_run (if c then [DoTainted s] else []) m) = mem_blocked m"
  using Mem_Tainted_spec [of s m] by simp_all

lemma world_tainted_stage:
  "tainted_stage (inspector_pipeline lib reg pol ttl line) req w =
     (Inr (is_tainted req (w_mem w)),
      w\<lparr>w_mem := mem_run (if r_session req \<noteq> [] then [DoTainted (r_session req)] else []) (w_mem w)\<rparr>)"
  using Mem_Tainted_spec [of "r_session req" "w_mem w"]
  by (simp add: tainted_stage_def wiring is_tainted_def)

definition pin_ops :: "service \<Rightarrow> request \<Rightarrow> memory \<Rightarrow> mem_op list" where
  "pin_ops sv req m =
     (if names_tool SurfaceToolDefinition req
      then DoToolPin (r_session req) (r_source req)
        # (if mem_pin m (r_session req) (r_source req) = None
           then [DoPinTool (r_session req) (r_source req) (ContentHash (sv_sha sv) req) (sv_ttl sv)] else [])
      else [])"

lemma world_checkPin:
  "checkPin (sv_sha sv) (inspector_pipeline lib reg pol (sv_ttl sv) line) req w =
     (Inr (drifted sv req (w_mem w)), w\<lparr>w_mem := mem_run (pin_ops sv req (w_mem w)) (w_mem w)\<rparr>)"
proof (cases "names_tool SurfaceToolDefinition req")
  case False
  then show ?thesis by (auto simp: checkPin_def names_tool_def drifted_def pin_ops_def)
next
  case True
  let ?m = "w_mem w" and ?s = "r_session req" and ?t = "r_source req"
  have look: "fst (Mem_ToolPin ?s ?t ?m) = Inr (mem_pin ?m ?s ?t)" using Mem_ToolPin_spec [of ?s ?t ?m] by simp
  show ?thesis
  proof (cases "mem_pin ?m ?s ?t")
    case None
    then obtain m' where "Mem_ToolPin ?s ?t ?m = (Inr None, m')" using look by (metis prod.collapse)
    with True None show ?thesis
      by (simp add: checkPin_def names_tool_def drifted_def pin_ops_def wiring Mem_PinTool_def Let_def)
  next
    case (Some h)
    then obtain m' where "Mem_ToolPin ?s ?t ?m = (Inr (Some h), m')" using look by (metis prod.collapse)
    with True Some show ?thesis
      by (simp add: checkPin_def names_tool_def drifted_def pin_ops_def wiring Let_def)
  qed
qed

lemma pin_ops_views:
  "mem_taint (mem_run (pin_ops sv req m') m) = mem_taint m"
  "mem_blocked (mem_run (pin_ops sv req m') m) = mem_blocked m"
  using Mem_ToolPin_spec [of "r_session req" "r_source req" m]
    Mem_PinTool_spec [of "r_session req" "r_source req" "ContentHash (sv_sha sv) req" "sv_ttl sv"
      "snd (Mem_ToolPin (r_session req) (r_source req) m)"]
  by (simp_all add: pin_ops_def)

lemma world_toolBlocked:
  "toolBlocked (inspector_pipeline lib reg pol ttl line) req w =
     (Inr (is_blocked_call req (w_mem w)),
      w\<lparr>w_mem := mem_run (if names_tool SurfaceToolCall req then [DoToolBlocked (r_session req) (r_source req)] else []) (w_mem w)\<rparr>)"
  using Mem_ToolBlocked_spec [of "r_session req" "r_source req" "w_mem w"]
  by (auto simp: toolBlocked_def wiring is_blocked_call_def names_tool_def)

lemma world_taint_write:
  "taint_write (inspector_pipeline lib reg pol ttl line) req d w =
     (Inr (), w\<lparr>w_mem := mem_run (if d_taint_session d \<and> r_session req \<noteq> [] then [DoTaint (r_session req) ttl] else []) (w_mem w)\<rparr>)"
  by (simp add: taint_write_def wiring Mem_Taint_def)

lemma world_block_write:
  "block_write (inspector_pipeline lib reg pol ttl line) req v w =
     (Inr (), w\<lparr>w_mem := mem_run (if v_action v = ActionBlock \<and> names_tool SurfaceToolDefinition req
        then [DoBlockTool (r_session req) (r_source req) ttl] else []) (w_mem w)\<rparr>)"
  by (auto simp: block_write_def wiring Mem_BlockTool_def names_tool_def)

lemma is_tainted_cong: "r_session req = r_session req' \<Longrightarrow> mem_taint m = mem_taint m' \<Longrightarrow> is_tainted req m = is_tainted req' m'"
  by (simp add: is_tainted_def)

lemma views_cong:
  "mem_pin m = mem_pin m' \<Longrightarrow> drifted sv req m = drifted sv req m'"
  "mem_pin m = mem_pin m' \<Longrightarrow> pin_ops sv req m = pin_ops sv req m'"
  "mem_blocked m = mem_blocked m' \<Longrightarrow> is_blocked_call req m = is_blocked_call req m'"
  by (simp_all add: drifted_def pin_ops_def is_blocked_call_def)

lemma world_world [simp]: "w_mem (w\<lparr>w_mem := m\<rparr>) = m" "w\<lparr>w_mem := m\<rparr>\<lparr>w_mem := m'\<rparr> = w\<lparr>w_mem := m'\<rparr>"
  by simp_all

lemma world_stages:
  assumes "nfkc_documented (sv_lib sv)"
  shows "inspect_stages (sv_sha sv) (inspector_pipeline (sv_lib sv) (sv_registry sv) (sv_policy sv) (sv_ttl sv) (sv_line sv)) req w =
     ((case detect_error sv req of
         Some err \<Rightarrow> Inl (decision_input sv req (w_mem w), err)
       | None \<Rightarrow> Inr (the_verdict sv req (w_mem w))),
      w\<lparr>w_mem := mem_run (store_ops sv req (w_mem w)) (w_mem w)\<rparr>)"
proof -
  let ?p = "inspector_pipeline (sv_lib sv) (sv_registry sv) (sv_policy sv) (sv_ttl sv) (sv_line sv)"
  define m n where "m = w_mem w" and "n = normalized sv req"
  note same = normalized_fields [OF assms, of req, folded n_def]
  define m1 m2 m3 where
    "m1 = mem_run (if r_session req \<noteq> [] then [DoTainted (r_session req)] else []) m" and
    "m2 = mem_run (pin_ops sv req m) m1" and
    "m3 = mem_run (if names_tool SurfaceToolCall req then [DoToolBlocked (r_session req) (r_source req)] else []) m2"
  have v1: "mem_pin m1 = mem_pin m" "mem_blocked m1 = mem_blocked m" by (simp_all add: m1_def mem_run_views)
  have v2: "mem_blocked m2 = mem_blocked m" by (simp add: m2_def pin_ops_views v1)
  have s0: "normalize_stage ?p req w = (Inr n, w)"
    using normalized_eq(1) [OF assms, of req] by (simp add: normalize_stage_def wiring run_normalizer_def n_def)
  have s1: "tainted_stage ?p (n_request n) w = (Inr (is_tainted req m), w\<lparr>w_mem := m1\<rparr>)"
    by (simp add: world_tainted_stage same m_def m1_def is_tainted_def)
  have s2: "checkPin (sv_sha sv) ?p req (w\<lparr>w_mem := m1\<rparr>) = (Inr (drifted sv req m), w\<lparr>w_mem := m2\<rparr>)"
    using views_cong(1,2) [OF v1(1), of sv req] by (simp add: world_checkPin m2_def)
  have s3: "toolBlocked ?p req (w\<lparr>w_mem := m2\<rparr>) = (Inr (is_blocked_call req m), w\<lparr>w_mem := m3\<rparr>)"
    using views_cong(3) [OF v2, of req] by (simp add: world_toolBlocked m3_def)
  define r where "r = Registry_Detect (sv_registry sv) (n_request n)"
  have det: "pl_Detectors ?p (n_request n) w' = (r, w')" for w' by (simp add: inspector_pipeline_def r_def)
  have fs: "n_findings n @ remapSpans (fst r) (n_maps n) = all_findings sv req" and err: "snd r = detect_error sv req"
    by (simp_all add: all_findings_def detect_error_def r_def n_def)
  have inp: "\<lparr>ei_request = n_request n, ei_findings = all_findings sv req, ei_session_tainted = is_tainted req m,
      ei_pin_changed = drifted sv req m\<rparr> = decision_input sv req m"
    by (simp add: decision_input_def n_def)
  note early = inspect_stages_def Let_def s0 s1 s2 s3 det split_beta fs err inp or_fail_simps prod.sel normalization.simps
  have m3: "m3 = mem_run ((if r_session req \<noteq> [] then [DoTainted (r_session req)] else [])
      @ pin_ops sv req m @ (if names_tool SurfaceToolCall req then [DoToolBlocked (r_session req) (r_source req)] else [])) m"
    by (simp only: m3_def m2_def m1_def mem_run_append)
  show ?thesis
  proof (cases "detect_error sv req")
    case (Some e)
    have "store_ops sv req m = (if r_session req \<noteq> [] then [DoTainted (r_session req)] else [])
      @ pin_ops sv req m @ (if names_tool SurfaceToolCall req then [DoToolBlocked (r_session req) (r_source req)] else [])"
      using Some by (simp add: store_ops_def pin_ops_def Let_def)
    then have "m3 = mem_run (store_ops sv req m) m" using m3 by simp
    with Some show ?thesis by (simp add: early m_def [symmetric])
  next
    case None
    define d where "d = Evaluate (sv_policy sv) (decision_input sv req m)"
    define v where "v = decided_verdict (is_blocked_call req m) (all_findings sv req) d"
    have v: "the_verdict sv req m = v" using None by (simp add: the_verdict_def v_def d_def)
    have "store_ops sv req m = ((if r_session req \<noteq> [] then [DoTainted (r_session req)] else [])
      @ pin_ops sv req m @ (if names_tool SurfaceToolCall req then [DoToolBlocked (r_session req) (r_source req)] else []))
      @ ((if d_taint_session d \<and> r_session req \<noteq> [] then [DoTaint (r_session req) (sv_ttl sv)] else [])
      @ (if v_action v = ActionBlock \<and> names_tool SurfaceToolDefinition req
         then [DoBlockTool (r_session req) (r_source req) (sv_ttl sv)] else []))"
      unfolding store_ops_def Let_def pin_ops_def v using None by (simp add: v_def)
    then have fin: "mem_run (store_ops sv req m) m =
        mem_run (if v_action v = ActionBlock \<and> names_tool SurfaceToolDefinition req
           then [DoBlockTool (r_session req) (r_source req) (sv_ttl sv)] else [])
          (mem_run (if d_taint_session d \<and> r_session req \<noteq> [] then [DoTaint (r_session req) (sv_ttl sv)] else []) m3)"
      by (simp only: mem_run_append m3)
    have ev: "pl_Evaluate ?p (decision_input sv req m) w' = (Inr d, w')" for w'
      by (simp add: inspector_pipeline_def NewEvaluator_def d_def)
    have nt: "names_tool surf (n_request n) = names_tool surf req" for surf by (simp add: names_tool_def same)
    show ?thesis
      using None by (simp add: early ev world_taint_write world_block_write same nt v_def [symmetric] v fin m_def [symmetric] del: decided_verdict_simps)
  qed
qed

lemma serve_eq:
  assumes "nfkc_documented (sv_lib sv)"
  shows "fst (serve sv req w) = Inr (the_verdict sv req (w_mem w))"
    and "w_mem (snd (serve sv req w)) = mem_run (store_ops sv req (w_mem w)) (w_mem w)"
proof -
  let ?p = "inspector_pipeline (sv_lib sv) (sv_registry sv) (sv_policy sv) (sv_ttl sv) (sv_line sv)"
  have em: "w_mem (emit sha ?p r v st c w') = w_mem w'" for sha r v st c and w' :: world
    by (simp add: emit_def wiring world_audit_eq)
  have c: "clock ?p w = (m_now (w_mem w), w)" by (simp add: wiring)
  show "fst (serve sv req w) = Inr (the_verdict sv req (w_mem w))"
    unfolding serve_def Inspect_eq c Let_def world_stages [OF assms]
    by (cases "detect_error sv req") (simp_all add: fail_eq the_verdict_def inspector_pipeline_def NewEvaluator_def)
  show "w_mem (snd (serve sv req w)) = mem_run (store_ops sv req (w_mem w)) (w_mem w)"
    unfolding serve_def Inspect_eq c Let_def world_stages [OF assms]
    by (cases "detect_error sv req") (simp_all add: fail_eq em)
qed

end
