(* ===== verification/Inspector_Correct.thy ===== *)
theory Inspector_Correct
  imports Inspector
begin

text \<open>
  What the service guarantees from one hop to the next: taint, pins and blocks last for their ttl
  through any sequence of other inspections; redactions stay inside the payload; a failed stage
  gives the policy's on-error decision; every hop offers the sink one event.
\<close>

section \<open>Sequences of hops\<close>

datatype hop = Hop request | Wait nat

fun run_hops :: "service \<Rightarrow> hop list \<Rightarrow> world \<Rightarrow> world" where
  "run_hops sv [] w = w"
| "run_hops sv (Hop req # hs) w = run_hops sv hs (snd (serve sv req w))"
| "run_hops sv (Wait d # hs) w = run_hops sv hs (w\<lparr>w_mem := mem_advance d (w_mem w)\<rparr>)"

fun waited :: "hop list \<Rightarrow> int" where
  "waited [] = 0"
| "waited (Hop req # hs) = waited hs"
| "waited (Wait d # hs) = int d + waited hs"

lemma waited_nonneg: "0 \<le> waited hs"
  by (induction hs rule: waited.induct) auto

section \<open>Entries that last\<close>

text \<open>An entry that lasts until a time (or for ever) is live at any moment before it.\<close>

definition lasting :: "time option \<Rightarrow> entry \<Rightarrow> bool" where
  "lasting till e =
     (case e_expires_at e of None \<Rightarrow> True | Some x \<Rightarrow> (case till of None \<Rightarrow> False | Some T \<Rightarrow> T \<le> x))"

definition not_yet :: "time \<Rightarrow> time option \<Rightarrow> bool" where
  "not_yet now till = (case till of None \<Rightarrow> True | Some T \<Rightarrow> now < T)"

lemma lasting_live: "lasting till e \<Longrightarrow> not_yet now till \<Longrightarrow> entry_live e now"
  by (auto simp: lasting_def not_yet_def entry_live_def split: option.splits)

lemma lasting_expiry: "t0 \<le> now \<Longrightarrow> lasting (expiry t0 ttl) \<lparr>e_value = v, e_expires_at = expiry now ttl\<rparr>"
  by (simp add: lasting_def expiry_def)

definition held :: "time option \<Rightarrow> (string \<rightharpoonup> entry) \<Rightarrow> string \<Rightarrow> bool" where
  "held till mp k = (\<exists>e. mp k = Some e \<and> lasting till e)"

definition pinned :: "string \<Rightarrow> time option \<Rightarrow> (string \<rightharpoonup> entry) \<Rightarrow> string \<Rightarrow> bool" where
  "pinned h till mp k = (\<exists>e. mp k = Some e \<and> e_value e = h \<and> lasting till e)"

lemma held_live: "held till mp k \<Longrightarrow> not_yet now till \<Longrightarrow> live_entry mp now k \<noteq> None"
  by (auto simp: held_def live_entry_def dest: lasting_live)

lemma pinned_live:
  assumes "pinned h till mp k" "not_yet now till"
  shows "\<exists>e. live_entry mp now k = Some e \<and> e_value e = h"
proof -
  obtain e where e: "mp k = Some e" "e_value e = h" "lasting till e" using assms(1) by (auto simp: pinned_def)
  then have "entry_live e now" using lasting_live assms(2) by blast
  with e show ?thesis by (simp add: live_entry_def)
qed

text \<open>The operations of one inspection: none lets time pass, and each write has the service's ttl.\<close>

fun op_ttl :: "int \<Rightarrow> mem_op \<Rightarrow> bool" where
  "op_ttl ttl (DoTaint s t) = (t = ttl)"
| "op_ttl ttl (DoPinTool s t h x) = (x = ttl)"
| "op_ttl ttl (DoBlockTool s t x) = (x = ttl)"
| "op_ttl ttl (Advance d) = False"
| "op_ttl ttl _ = True"

lemma store_ops_ttl: "list_all (op_ttl (sv_ttl sv)) (store_ops sv req m)"
  by (simp add: store_ops_def Let_def)

lemma op_ttl_now: "op_ttl ttl x \<Longrightarrow> m_now (mem_step x m) = m_now m"
  using mem_step_now [of x m] by (cases x) simp_all

lemma ops_now: "list_all (op_ttl ttl) xs \<Longrightarrow> m_now (mem_run xs m) = m_now m"
  by (induction xs arbitrary: m) (auto simp: op_ttl_now)

lemma step_held:
  assumes "op_ttl ttl x" "t0 \<le> m_now m" "not_yet (m_now m) (expiry t0 ttl)"
  shows "held (expiry t0 ttl) (m_taint m) k \<Longrightarrow> held (expiry t0 ttl) (m_taint (mem_step x m)) k"
    and "held (expiry t0 ttl) (m_blocked m) k \<Longrightarrow> held (expiry t0 ttl) (m_blocked (mem_step x m)) k"
  using assms lasting_expiry [OF assms(2)] lasting_live [OF _ assms(3)]
  by (cases x; fastforce simp: held_def mem_op_defs Let_def split: option.splits)+

lemma ops_held:
  "list_all (op_ttl ttl) xs \<Longrightarrow> t0 \<le> m_now m \<Longrightarrow> not_yet (m_now m) (expiry t0 ttl) \<Longrightarrow>
     held (expiry t0 ttl) (m_taint m) k \<Longrightarrow> held (expiry t0 ttl) (m_taint (mem_run xs m)) k"
  "list_all (op_ttl ttl) xs \<Longrightarrow> t0 \<le> m_now m \<Longrightarrow> not_yet (m_now m) (expiry t0 ttl) \<Longrightarrow>
     held (expiry t0 ttl) (m_blocked m) k \<Longrightarrow> held (expiry t0 ttl) (m_blocked (mem_run xs m)) k"
proof (induction xs arbitrary: m)
  case (Cons x xs)
  {
    case 1
    then show ?case using Cons.IH(1) [of "mem_step x m"] step_held(1) [of ttl x t0 m k] op_ttl_now [of ttl x m] by simp
  next
    case 2
    then show ?case using Cons.IH(2) [of "mem_step x m"] step_held(2) [of ttl x t0 m k] op_ttl_now [of ttl x m] by simp
  }
qed simp_all

text \<open>A live pin is never overwritten: the store is only asked to pin a tool it holds no pin for.\<close>

definition spares_pin :: "string \<Rightarrow> mem_op \<Rightarrow> bool" where
  "spares_pin k x = (\<forall>s t h ttl. x = DoPinTool s t h ttl \<longrightarrow> tool_key s t \<noteq> k)"

lemma step_pinned:
  assumes "spares_pin k x" "op_ttl ttl x" "not_yet (m_now m) till" "pinned h till (m_pins m) k"
  shows "pinned h till (m_pins (mem_step x m)) k"
  using assms lasting_live [OF _ assms(3)]
  by (cases x) (auto simp: pinned_def spares_pin_def mem_op_defs Let_def split: option.splits)

lemma ops_pinned:
  "list_all (spares_pin k) xs \<Longrightarrow> list_all (op_ttl ttl) xs \<Longrightarrow> not_yet (m_now m) till \<Longrightarrow>
     pinned h till (m_pins m) k \<Longrightarrow> pinned h till (m_pins (mem_run xs m)) k"
proof (induction xs arbitrary: m)
  case (Cons x xs)
  then show ?case using Cons.IH [of "mem_step x m"] step_pinned [of k x ttl m till h] op_ttl_now [of ttl x m] by simp
qed simp

lemma store_ops_spare:
  assumes "pinned h till (m_pins m) k" "not_yet (m_now m) till"
  shows "list_all (spares_pin k) (store_ops sv req m)"
proof -
  have live: "mem_pin m s t \<noteq> None" if "tool_key s t = k" for s t
    using pinned_live [OF assms] that by (auto simp: mem_pin_def)
  have "spares_pin k (DoPinTool s t h' ttl)" if "mem_pin m s t = None" for s t h' ttl
    using live [of s t] that by (auto simp: spares_pin_def)
  moreover have "spares_pin k x" if "\<forall>s t h ttl. x \<noteq> DoPinTool s t h ttl" for x
    using that by (simp add: spares_pin_def)
  ultimately show ?thesis by (simp add: store_ops_def Let_def)
qed

section \<open>What lasts through a sequence of hops\<close>

lemma serve_now:
  assumes "nfkc_documented (sv_lib sv)"
  shows "m_now (w_mem (snd (serve sv req w))) = m_now (w_mem w)"
  by (simp add: serve_eq(2) [OF assms] ops_now [OF store_ops_ttl])

lemma not_yet_expiry: "not_yet now (expiry t0 ttl) \<longleftrightarrow> ttl \<le> 0 \<or> now < t0 + ttl"
  by (auto simp: not_yet_def expiry_def)

lemma hops_keep:
  assumes doc: "nfkc_documented (sv_lib sv)"
    and hop: "\<And>req w. P (w_mem w) \<Longrightarrow> t0 \<le> m_now (w_mem w) \<Longrightarrow> not_yet (m_now (w_mem w)) (expiry t0 (sv_ttl sv)) \<Longrightarrow>
        P (w_mem (snd (serve sv req w)))"
    and wait: "\<And>d m. P m \<Longrightarrow> P (mem_advance d m)"
  shows "P (w_mem w) \<Longrightarrow> t0 \<le> m_now (w_mem w) \<Longrightarrow> sv_ttl sv \<le> 0 \<or> m_now (w_mem w) + waited hs < t0 + sv_ttl sv \<Longrightarrow>
     P (w_mem (run_hops sv hs w)) \<and> m_now (w_mem (run_hops sv hs w)) = m_now (w_mem w) + waited hs"
proof (induction hs arbitrary: w rule: waited.induct)
  case (2 req hs)
  have "not_yet (m_now (w_mem w)) (expiry t0 (sv_ttl sv))"
    using "2.prems"(3) waited_nonneg [of hs] by (auto simp: not_yet_expiry)
  with hop [OF "2.prems"(1,2)] "2.IH" [of "snd (serve sv req w)"] "2.prems"(2,3) show ?case
    by (simp add: serve_now [OF doc])
next
  case (3 d hs)
  have "P (mem_advance d (w_mem w))" using wait "3.prems"(1) by blast
  with "3.IH" [of "w\<lparr>w_mem := mem_advance d (w_mem w)\<rparr>"] "3.prems"(2,3) show ?case
    by (simp add: mem_advance_def algebra_simps)
qed simp

lemma hops_held_taint:
  assumes "nfkc_documented (sv_lib sv)" "held (expiry t0 (sv_ttl sv)) (m_taint (w_mem w)) k" "t0 \<le> m_now (w_mem w)"
    "sv_ttl sv \<le> 0 \<or> m_now (w_mem w) + waited hs < t0 + sv_ttl sv"
  shows "held (expiry t0 (sv_ttl sv)) (m_taint (w_mem (run_hops sv hs w))) k
    \<and> m_now (w_mem (run_hops sv hs w)) = m_now (w_mem w) + waited hs"
  by (rule hops_keep [where P = "\<lambda>m. held (expiry t0 (sv_ttl sv)) (m_taint m) k", OF assms(1) _ _ assms(2-4)])
    (simp_all add: serve_eq(2) [OF assms(1)] ops_held [OF store_ops_ttl] mem_advance_def)

lemma hops_held_blocked:
  assumes "nfkc_documented (sv_lib sv)" "held (expiry t0 (sv_ttl sv)) (m_blocked (w_mem w)) k" "t0 \<le> m_now (w_mem w)"
    "sv_ttl sv \<le> 0 \<or> m_now (w_mem w) + waited hs < t0 + sv_ttl sv"
  shows "held (expiry t0 (sv_ttl sv)) (m_blocked (w_mem (run_hops sv hs w))) k
    \<and> m_now (w_mem (run_hops sv hs w)) = m_now (w_mem w) + waited hs"
  by (rule hops_keep [where P = "\<lambda>m. held (expiry t0 (sv_ttl sv)) (m_blocked m) k", OF assms(1) _ _ assms(2-4)])
    (simp_all add: serve_eq(2) [OF assms(1)] ops_held [OF store_ops_ttl] mem_advance_def)

lemma hops_pinned:
  assumes "nfkc_documented (sv_lib sv)" "pinned h (expiry t0 (sv_ttl sv)) (m_pins (w_mem w)) k" "t0 \<le> m_now (w_mem w)"
    "sv_ttl sv \<le> 0 \<or> m_now (w_mem w) + waited hs < t0 + sv_ttl sv"
  shows "pinned h (expiry t0 (sv_ttl sv)) (m_pins (w_mem (run_hops sv hs w))) k
    \<and> m_now (w_mem (run_hops sv hs w)) = m_now (w_mem w) + waited hs"
  by (rule hops_keep [where P = "\<lambda>m. pinned h (expiry t0 (sv_ttl sv)) (m_pins m) k", OF assms(1) _ _ assms(2-4)])
    (simp_all add: serve_eq(2) [OF assms(1)] ops_pinned [OF store_ops_spare store_ops_ttl] mem_advance_def)

section \<open>What one inspection writes\<close>

lemma mem_run_last_taint:
  "m_taint (mem_run (xs @ [DoTaint s ttl]) m) s
     = Some \<lparr>e_value = [], e_expires_at = expiry (m_now (mem_run xs m)) ttl\<rparr>"
  by (simp add: mem_run_append Mem_Taint_def)

definition taint_ops :: "service \<Rightarrow> request \<Rightarrow> memory \<Rightarrow> mem_op list" where
  "taint_ops sv req m =
     (if detect_error sv req = None \<and> v_taint_session (the_verdict sv req m) \<and> r_session req \<noteq> []
      then [DoTaint (r_session req) (sv_ttl sv)] else [])"

definition block_ops :: "service \<Rightarrow> request \<Rightarrow> memory \<Rightarrow> mem_op list" where
  "block_ops sv req m =
     (if detect_error sv req = None \<and> v_action (the_verdict sv req m) = ActionBlock \<and> names_tool SurfaceToolDefinition req
      then [DoBlockTool (r_session req) (r_source req) (sv_ttl sv)] else [])"

definition look_ops :: "service \<Rightarrow> request \<Rightarrow> memory \<Rightarrow> mem_op list" where
  "look_ops sv req m =
     (if r_session req \<noteq> [] then [DoTainted (r_session req)] else []) @ pin_ops sv req m
     @ (if names_tool SurfaceToolCall req then [DoToolBlocked (r_session req) (r_source req)] else [])"

lemma store_ops_split: "store_ops sv req m = look_ops sv req m @ taint_ops sv req m @ block_ops sv req m"
  by (cases "detect_error sv req")
    (simp_all add: store_ops_def look_ops_def pin_ops_def taint_ops_def block_ops_def Let_def)

lemma serve_taints:
  assumes "nfkc_documented (sv_lib sv)" "v_taint_session (the_verdict sv req (w_mem w))" "r_session req \<noteq> []"
  shows "held (expiry (m_now (w_mem w)) (sv_ttl sv)) (m_taint (w_mem (snd (serve sv req w)))) (r_session req)"
proof -
  have "detect_error sv req = None" using assms(2) by (auto simp: the_verdict_def split: option.splits)
  then obtain xs where ops0: "store_ops sv req (w_mem w) = xs @ [DoTaint (r_session req) (sv_ttl sv)] @ block_ops sv req (w_mem w)"
    using assms(2,3) by (simp add: store_ops_split taint_ops_def)
  define ys where "ys = block_ops sv req (w_mem w)"
  have ops: "store_ops sv req (w_mem w) = xs @ [DoTaint (r_session req) (sv_ttl sv)] @ ys"
    "\<forall>y \<in> set ys. \<exists>s t ttl. y = DoBlockTool s t ttl"
    using ops0 by (auto simp: ys_def block_ops_def)
  have "list_all (op_ttl (sv_ttl sv)) xs" using store_ops_ttl [of sv req "w_mem w"] unfolding ops by simp
  then have now: "m_now (mem_run xs (w_mem w)) = m_now (w_mem w)" by (rule ops_now)
  have keep: "\<forall>y \<in> set ys. \<exists>s t ttl. y = DoBlockTool s t ttl \<Longrightarrow> m_taint (mem_run ys m) = m_taint m" for ys m
    by (induction ys arbitrary: m) (auto simp: Mem_BlockTool_def)
  show ?thesis
    using mem_run_last_taint [of xs "r_session req" "sv_ttl sv" "w_mem w"] keep [OF ops(2)]
      lasting_expiry [of "m_now (w_mem w)" "m_now (w_mem w)"]
    by (simp add: serve_eq(2) [OF assms(1)] ops(1) mem_run_append now held_def)
qed

lemma serve_blocks:
  assumes "nfkc_documented (sv_lib sv)" "names_tool SurfaceToolDefinition req" "detect_error sv req = None"
    "v_action (the_verdict sv req (w_mem w)) = ActionBlock"
  shows "held (expiry (m_now (w_mem w)) (sv_ttl sv)) (m_blocked (w_mem (snd (serve sv req w))))
     (tool_key (r_session req) (r_source req))"
proof -
  obtain xs where ops: "store_ops sv req (w_mem w) = xs @ [DoBlockTool (r_session req) (r_source req) (sv_ttl sv)]"
    using assms(2-4) by (simp add: store_ops_split block_ops_def)
  have "list_all (op_ttl (sv_ttl sv)) xs" using store_ops_ttl [of sv req "w_mem w"] unfolding ops by simp
  then have now: "m_now (mem_run xs (w_mem w)) = m_now (w_mem w)" by (rule ops_now)
  show ?thesis
    using lasting_expiry [of "m_now (w_mem w)" "m_now (w_mem w)"]
    by (simp add: serve_eq(2) [OF assms(1)] ops mem_run_append now held_def Mem_BlockTool_def)
qed

lemma serve_pins:
  assumes "nfkc_documented (sv_lib sv)" "names_tool SurfaceToolDefinition req"
    "mem_pin (w_mem w) (r_session req) (r_source req) = None"
  shows "pinned (ContentHash (sv_sha sv) req) (expiry (m_now (w_mem w)) (sv_ttl sv)) (m_pins (w_mem (snd (serve sv req w))))
     (tool_key (r_session req) (r_source req))"
proof -
  have "r_session req \<noteq> []" "\<not> names_tool SurfaceToolCall req" using assms(2) by (auto simp: names_tool_def go_consts)
  then have look: "look_ops sv req (w_mem w) = [DoTainted (r_session req), DoToolPin (r_session req) (r_source req),
       DoPinTool (r_session req) (r_source req) (ContentHash (sv_sha sv) req) (sv_ttl sv)]"
    using assms(2,3) by (simp add: look_ops_def pin_ops_def)
  define ys where "ys = taint_ops sv req (w_mem w) @ block_ops sv req (w_mem w)"
  have ops: "store_ops sv req (w_mem w) =
      [DoTainted (r_session req), DoToolPin (r_session req) (r_source req),
       DoPinTool (r_session req) (r_source req) (ContentHash (sv_sha sv) req) (sv_ttl sv)] @ ys"
    "\<forall>y \<in> set ys. (\<exists>s ttl. y = DoTaint s ttl) \<or> (\<exists>s t ttl. y = DoBlockTool s t ttl)"
    by (auto simp: store_ops_split look ys_def taint_ops_def block_ops_def)
  have keep: "\<forall>y \<in> set ys. (\<exists>s ttl. y = DoTaint s ttl) \<or> (\<exists>s t ttl. y = DoBlockTool s t ttl) \<Longrightarrow>
      m_pins (mem_run ys m) = m_pins m" for ys m
    by (induction ys arbitrary: m) (auto simp: Mem_BlockTool_def Mem_Taint_def)
  define m2 where "m2 = snd (Mem_ToolPin (r_session req) (r_source req) (snd (Mem_Tainted (r_session req) (w_mem w))))"
  have "m_now m2 = m_now (w_mem w)"
    using Mem_ToolPin_spec [of "r_session req" "r_source req"] Mem_Tainted_spec [of "r_session req"] by (simp add: m2_def)
  then show ?thesis
    using lasting_expiry [of "m_now (w_mem w)" "m_now (w_mem w)"] keep [OF ops(2)]
    by (simp add: serve_eq(2) [OF assms(1)] ops(1) m2_def [symmetric] pinned_def Mem_PinTool_def)
qed

section \<open>Rules on cross-surface state\<close>

lemma block_rule_decides:
  assumes "r \<in> set (pol_rules p)" "rule_hit inp r" "ru_action r = ActionBlock"
  shows "d_action (Evaluate p inp) = ActionBlock"
  using assms by (auto simp: Evaluate_action MostSevere_Block_iff image_iff intro!: bexI [of _ r])

definition state_rule :: "surface \<Rightarrow> bool option \<Rightarrow> bool option \<Rightarrow> rule" where
  "state_rule surf tainted changed =
     \<lparr>ru_surface = [surf],
      ru_when = any_condition\<lparr>c_session_tainted := tainted, c_pin_changed := changed\<rparr>,
      ru_action = ActionBlock, ru_taint_session = False\<rparr>"

definition tainted_rule :: "surface \<Rightarrow> rule" where
  "tainted_rule surf = state_rule surf (Some True) None"

definition pin_rule :: rule where
  "pin_rule = state_rule SurfaceToolDefinition None (Some True)"

lemma state_rule_hit:
  "rule_hit inp (tainted_rule surf) \<longleftrightarrow> r_surface (ei_request inp) = surf \<and> ei_session_tainted inp"
  "rule_hit inp pin_rule \<longleftrightarrow> r_surface (ei_request inp) = SurfaceToolDefinition \<and> ei_pin_changed inp"
  by (auto simp: rule_hit_iff tainted_rule_def pin_rule_def state_rule_def any_condition_def matchesSurface_def
      matchesRequest_def selectsFindings_def)

lemma decided_block:
  assumes "detect_error sv req = None" "d_action (Evaluate (sv_policy sv) (decision_input sv req m)) = ActionBlock"
  shows "v_action (the_verdict sv req m) = ActionBlock"
  using assms by (simp add: the_verdict_def)

lemma blocked_definition_blocks_call:
  assumes "nfkc_documented (sv_lib sv)"
    "names_tool SurfaceToolDefinition def" "detect_error sv def = None"
    "fst (serve sv def w) = Inr v" "v_action v = ActionBlock"
    "sv_ttl sv \<le> 0 \<or> waited hs < sv_ttl sv"
    "r_surface call = SurfaceToolCall" "r_session call = r_session def" "r_source call = r_source def"
    "detect_error sv call = None"
  shows "\<exists>v'. fst (serve sv call (run_hops sv hs (snd (serve sv def w)))) = Inr v'
    \<and> v_action v' = ActionBlock \<and> tool_blocked_finding \<in> set (v_findings v')"
proof -
  note doc = assms(1)
  define k where "k = tool_key (r_session def) (r_source def)"
  define w1 w2 where "w1 = snd (serve sv def w)" and "w2 = run_hops sv hs w1"
  have v: "v = the_verdict sv def (w_mem w)" using assms(4) by (simp add: serve_eq(1) [OF doc])
  have now1: "m_now (w_mem w1) = m_now (w_mem w)" by (simp add: w1_def serve_now [OF doc])
  have "held (expiry (m_now (w_mem w)) (sv_ttl sv)) (m_blocked (w_mem w1)) k"
    unfolding w1_def k_def by (rule serve_blocks [OF doc assms(2,3)]) (use assms(5) v in simp)
  from hops_held_blocked [OF doc this, of hs] assms(6)
  have "held (expiry (m_now (w_mem w)) (sv_ttl sv)) (m_blocked (w_mem w2)) k"
    "m_now (w_mem w2) = m_now (w_mem w) + waited hs" by (auto simp: now1 w2_def)
  then have "live_entry (m_blocked (w_mem w2)) (m_now (w_mem w2)) k \<noteq> None"
    using assms(6) by (intro held_live [of "expiry (m_now (w_mem w)) (sv_ttl sv)"]) (auto simp: not_yet_expiry)
  then have "is_blocked_call call (w_mem w2)"
    using assms(2,7-9) by (simp add: is_blocked_call_def names_tool_def mem_blocked_def k_def)
  then show ?thesis
    using assms(10) by (simp add: serve_eq(1) [OF doc] the_verdict_def w2_def w1_def)
qed

lemma tainted_for_later_hops:
  assumes "nfkc_documented (sv_lib sv)"
    "fst (serve sv first w) = Inr v" "v_taint_session v" "r_session first \<noteq> []"
    "sv_ttl sv \<le> 0 \<or> waited hs < sv_ttl sv" "r_session later = r_session first"
  shows "is_tainted later (w_mem (run_hops sv hs (snd (serve sv first w))))"
proof -
  note doc = assms(1)
  define w1 w2 where "w1 = snd (serve sv first w)" and "w2 = run_hops sv hs w1"
  have v: "v = the_verdict sv first (w_mem w)" using assms(2) by (simp add: serve_eq(1) [OF doc])
  have now1: "m_now (w_mem w1) = m_now (w_mem w)" by (simp add: w1_def serve_now [OF doc])
  have "held (expiry (m_now (w_mem w)) (sv_ttl sv)) (m_taint (w_mem w1)) (r_session first)"
    unfolding w1_def by (rule serve_taints [OF doc _ assms(4)]) (use assms(3) v in simp)
  from hops_held_taint [OF doc this, of hs] assms(5)
  have "held (expiry (m_now (w_mem w)) (sv_ttl sv)) (m_taint (w_mem w2)) (r_session first)"
    "m_now (w_mem w2) = m_now (w_mem w) + waited hs" by (auto simp: now1 w2_def)
  then have "live_entry (m_taint (w_mem w2)) (m_now (w_mem w2)) (r_session first) \<noteq> None"
    using assms(5) by (intro held_live [of "expiry (m_now (w_mem w)) (sv_ttl sv)"]) (auto simp: not_yet_expiry)
  then have "is_tainted later (w_mem w2)" using assms(4,6) by (simp add: is_tainted_def mem_taint_def)
  then show ?thesis by (simp add: w2_def w1_def)
qed

section \<open>Properties\<close>

text \<open>Session taint reaches every later hop: once a hop has tainted its session, a rule that blocks
  a surface of tainted sessions blocks every hop of that session on that surface until the ttl has
  passed, whatever else the service inspects in between.\<close>

theorem taint_reaches_later_hops:
  assumes "nfkc_documented (sv_lib sv)"
    "fst (serve sv first w) = Inr v" "v_taint_session v" "r_session first \<noteq> []"
    "sv_ttl sv \<le> 0 \<or> waited hs < sv_ttl sv"
    "r_session later = r_session first" "r_surface later = surf" "tainted_rule surf \<in> set (pol_rules (sv_policy sv))"
    "detect_error sv later = None"
  shows "\<exists>v'. fst (serve sv later (run_hops sv hs (snd (serve sv first w)))) = Inr v' \<and> v_action v' = ActionBlock"
proof -
  define w2 where "w2 = run_hops sv hs (snd (serve sv first w))"
  have "is_tainted later (w_mem w2)" using tainted_for_later_hops [OF assms(1-6)] by (simp add: w2_def)
  then have "rule_hit (decision_input sv later (w_mem w2)) (tainted_rule surf)"
    using assms(7) by (simp add: state_rule_hit decision_input_def normalized_fields [OF assms(1)])
  then have "d_action (Evaluate (sv_policy sv) (decision_input sv later (w_mem w2))) = ActionBlock"
    by (rule block_rule_decides [OF assms(8)]) (simp add: tainted_rule_def state_rule_def)
  from decided_block [OF assms(9) this] show ?thesis by (simp add: serve_eq(1) [OF assms(1)] w2_def)
qed

text \<open>A tool definition the policy blocks is blocked for calls as well: until the ttl has passed,
  every call to that tool in that session is blocked, whatever the rules say of the call and
  whatever else the service inspects in between.\<close>

theorem blocked_tool_stays_blocked:
  assumes "nfkc_documented (sv_lib sv)"
    "names_tool SurfaceToolDefinition def" "detect_error sv def = None"
    "fst (serve sv def w) = Inr v" "v_action v = ActionBlock"
    "sv_ttl sv \<le> 0 \<or> waited hs < sv_ttl sv"
    "r_surface call = SurfaceToolCall" "r_session call = r_session def" "r_source call = r_source def"
    "detect_error sv call = None"
  shows "\<exists>v'. fst (serve sv call (run_hops sv hs (snd (serve sv def w)))) = Inr v'
    \<and> v_action v' = ActionBlock \<and> tool_blocked_finding \<in> set (v_findings v')"
  using assms by (rule blocked_definition_blocks_call)

lemma pinned_later:
  assumes doc: "nfkc_documented (sv_lib sv)"
    and "names_tool SurfaceToolDefinition def" "mem_pin (w_mem w) (r_session def) (r_source def) = None"
    and ttl: "sv_ttl sv \<le> 0 \<or> waited hs < sv_ttl sv"
  shows "mem_pin (w_mem (run_hops sv hs (snd (serve sv def w)))) (r_session def) (r_source def) = Some (ContentHash (sv_sha sv) def)"
proof -
  define k where "k = tool_key (r_session def) (r_source def)"
  define w1 w2 where "w1 = snd (serve sv def w)" and "w2 = run_hops sv hs w1"
  have now1: "m_now (w_mem w1) = m_now (w_mem w)" by (simp add: w1_def serve_now [OF doc])
  have "pinned (ContentHash (sv_sha sv) def) (expiry (m_now (w_mem w)) (sv_ttl sv)) (m_pins (w_mem w1)) k"
    unfolding w1_def k_def by (rule serve_pins [OF doc assms(2,3)])
  from hops_pinned [OF doc this, of hs] ttl
  have "pinned (ContentHash (sv_sha sv) def) (expiry (m_now (w_mem w)) (sv_ttl sv)) (m_pins (w_mem w2)) k"
    "m_now (w_mem w2) = m_now (w_mem w) + waited hs" by (auto simp: now1 w2_def)
  then have "mem_pin (w_mem w2) (r_session def) (r_source def) = Some (ContentHash (sv_sha sv) def)"
    using ttl pinned_live [of "ContentHash (sv_sha sv) def" "expiry (m_now (w_mem w)) (sv_ttl sv)"
        "m_pins (w_mem w2)" k "m_now (w_mem w2)"]
    by (auto simp: not_yet_expiry mem_pin_def k_def)
  then show ?thesis by (simp add: w2_def w1_def)
qed

lemma pin_rule_alone:
  "nfkc_documented (sv_lib sv) \<Longrightarrow> pol_rules p = [pin_rule] \<Longrightarrow> r_surface req = SurfaceToolDefinition \<Longrightarrow>
     d_action (Evaluate p \<lparr>ei_request = n_request (normalized sv req), ei_findings = fs, ei_session_tainted = t, ei_pin_changed = c\<rparr>)
       = ActionBlock \<longleftrightarrow> c"
  by (simp add: Evaluate_action state_rule_hit normalized_fields MostSevere_Block_iff) (simp add: pin_rule_def state_rule_def)

text \<open>C9: the first definition of a tool in a session is pinned until the ttl has passed: whatever is
  inspected in between, the verdict on a later definition of the tool is the policy's decision on
  that definition with \<open>pin_changed\<close> true exactly when its content hash differs from the first
  one's. So where a rule on \<open>pin_changed\<close> is the policy, the later definition is blocked exactly then, and any policy
  with that rule blocks it then.\<close>

theorem first_definition_pinned:
  assumes "nfkc_documented (sv_lib sv)"
    "names_tool SurfaceToolDefinition def" "mem_pin (w_mem w) (r_session def) (r_source def) = None"
    "sv_ttl sv \<le> 0 \<or> waited hs < sv_ttl sv"
    "r_surface later = SurfaceToolDefinition" "r_session later = r_session def" "r_source later = r_source def"
    "detect_error sv later = None"
  shows "\<exists>v'. fst (serve sv later (run_hops sv hs (snd (serve sv def w)))) = Inr v'
    \<and> v' = decided_verdict False (all_findings sv later) (Evaluate (sv_policy sv)
        \<lparr>ei_request = n_request (normalized sv later), ei_findings = all_findings sv later,
         ei_session_tainted = mem_taint (w_mem (run_hops sv hs (snd (serve sv def w)))) (r_session later),
         ei_pin_changed = (ContentHash (sv_sha sv) later \<noteq> ContentHash (sv_sha sv) def)\<rparr>)
    \<and> (pin_rule \<in> set (pol_rules (sv_policy sv)) \<and> ContentHash (sv_sha sv) later \<noteq> ContentHash (sv_sha sv) def
         \<longrightarrow> v_action v' = ActionBlock)
    \<and> (pol_rules (sv_policy sv) = [pin_rule] \<longrightarrow>
         (v_action v' = ActionBlock \<longleftrightarrow> ContentHash (sv_sha sv) later \<noteq> ContentHash (sv_sha sv) def))"
proof -
  note doc = assms(1)
  define m where "m = w_mem (run_hops sv hs (snd (serve sv def w)))"
  define inp where "inp = \<lparr>ei_request = n_request (normalized sv later), ei_findings = all_findings sv later,
    ei_session_tainted = mem_taint m (r_session later),
    ei_pin_changed = (ContentHash (sv_sha sv) later \<noteq> ContentHash (sv_sha sv) def)\<rparr>"
  have "mem_pin m (r_session later) (r_source later) = Some (ContentHash (sv_sha sv) def)"
    using pinned_later [OF assms(1-4)] assms(6,7) by (simp add: m_def)
  then have inp: "decision_input sv later m = inp"
    using assms(2,5-7) by (auto simp: decision_input_def inp_def drifted_def is_tainted_def names_tool_def)
  have "\<not> is_blocked_call later m" using assms(5) by (simp add: is_blocked_call_def names_tool_def go_consts)
  then have v: "the_verdict sv later m = decided_verdict False (all_findings sv later) (Evaluate (sv_policy sv) inp)"
    using assms(8) by (simp add: the_verdict_def inp)
  have "d_action (Evaluate (sv_policy sv) inp) = ActionBlock"
    if "pin_rule \<in> set (pol_rules (sv_policy sv))" "ContentHash (sv_sha sv) later \<noteq> ContentHash (sv_sha sv) def"
  proof (rule block_rule_decides [OF that(1)])
    show "rule_hit inp pin_rule"
      using that(2) assms(5) by (simp add: state_rule_hit inp_def normalized_fields [OF doc])
  qed (simp add: pin_rule_def state_rule_def)
  moreover have "d_action (Evaluate (sv_policy sv) inp) = ActionBlock \<longleftrightarrow> ContentHash (sv_sha sv) later \<noteq> ContentHash (sv_sha sv) def"
    if "pol_rules (sv_policy sv) = [pin_rule]"
    unfolding inp_def by (rule pin_rule_alone [OF doc that assms(5)])
  ultimately show ?thesis
    using serve_eq(1) [OF doc, of later "run_hops sv hs (snd (serve sv def w))"] v
    unfolding m_def [symmetric] inp_def [symmetric] by simp
qed

section \<open>A small service\<close>

definition sample_registry :: "finding list \<Rightarrow> go_error option \<Rightarrow> registry" where
  "sample_registry fs err =
     \<lparr>reg_byName = [''d'' \<mapsto> sample_detector ''d'' fs err], reg_order = [sample_detector ''d'' fs err]\<rparr>"

definition sample_service :: "finding list \<Rightarrow> go_error option \<Rightarrow> rule list \<Rightarrow> service" where
  "sample_service fs err rs = \<lparr>sv_sha = id, sv_lib = ascii_lib, sv_registry = sample_registry fs err,
     sv_policy = sample_policy rs, sv_ttl = 100, sv_line = (\<lambda>ev out. Inr (ev_action ev))\<rparr>"

definition world0 :: world where
  "world0 = \<lparr>w_mem = NewMemory 0, w_out = []\<rparr>"

definition taint_on :: "surface \<Rightarrow> rule" where
  "taint_on surf = \<lparr>ru_surface = [surf], ru_when = any_condition, ru_action = ActionFlag, ru_taint_session = True\<rparr>"

definition block_on :: "surface \<Rightarrow> rule" where
  "block_on surf = \<lparr>ru_surface = [surf], ru_when = any_condition, ru_action = ActionBlock, ru_taint_session = False\<rparr>"

lemma sample_service_doc: "nfkc_documented (sv_lib (sample_service fs err rs))"
  by (simp add: sample_service_def ascii_lib_documented)

lemma sample_detect_error:
  "detect_error (sample_service fs err rs) req = map_option (Wrap ''detect d'') err"
  by (cases err) (simp_all add: detect_error_def sample_service_def sample_registry_def Registry_Detect_def
      Registry_Detect_scheduled_def Registry_one_def sample_detector_def)

lemma sample_rules [simp]: "sv_policy (sample_service fs err rs) = sample_policy rs" "pol_rules (sample_policy rs) = rs"
  "sv_ttl (sample_service fs err rs) = 100" "sv_sha (sample_service fs err rs) = id"
  by (simp_all add: sample_service_def sample_policy_def)

lemma sample_rule_hits:
  "rule_hit inp (taint_on surf) \<longleftrightarrow> r_surface (ei_request inp) = surf"
  "rule_hit inp (block_on surf) \<longleftrightarrow> r_surface (ei_request inp) = surf"
  "ru_taint_session (taint_on surf)" "ru_action (block_on surf) = ActionBlock"
  by (auto simp: rule_hit_iff taint_on_def block_on_def any_condition_def matchesSurface_def matchesRequest_def
      selectsFindings_def)

lemma text_request_simps [simp]:
  "r_surface (text_request surf s t b) = surf" "r_session (text_request surf s t b) = s"
  "r_source (text_request surf s t b) = t"
  by (simp_all add: text_request_def)

lemma decision_input_surface [simp]:
  "nfkc_documented (sv_lib sv) \<Longrightarrow> r_surface (ei_request (decision_input sv req m)) = r_surface req"
  by (simp add: decision_input_def normalized_fields)

theorem taint_reaches_later_hops_witness:
  "\<exists>sv v'. fst (serve sv (text_request SurfaceToolCall ''s'' ''mail'' ''send'')
       (run_hops sv [Wait 40, Hop (text_request SurfaceInput ''s'' [] ''hi'')]
         (snd (serve sv (text_request SurfaceToolResult ''s'' ''web'' ''page'') world0)))) = Inr v'
     \<and> v_action v' = ActionBlock"
proof -
  define sv where "sv = sample_service [] None [taint_on SurfaceToolResult, tainted_rule SurfaceToolCall]"
  note doc = sample_service_doc [of "[]" None "[taint_on SurfaceToolResult, tainted_rule SurfaceToolCall]", folded sv_def]
  have rules: "pol_rules (sv_policy sv) = [taint_on SurfaceToolResult, tainted_rule SurfaceToolCall]" by (simp add: sv_def)
  let ?first = "text_request SurfaceToolResult ''s'' ''web'' ''page''"
  have noerr: "detect_error sv req = None" for req by (simp add: sv_def sample_detect_error)
  have ttl: "sv_ttl sv = 100" by (simp add: sv_def)
  have "v_taint_session (the_verdict sv ?first (w_mem world0))"
    using doc rules by (simp add: the_verdict_def noerr Evaluate_taint sample_rule_hits)
  moreover have "fst (serve sv ?first world0) = Inr (the_verdict sv ?first (w_mem world0))" by (rule serve_eq(1) [OF doc])
  ultimately show ?thesis
    using taint_reaches_later_hops [OF doc, of ?first world0 "the_verdict sv ?first (w_mem world0)"
        "[Wait 40, Hop (text_request SurfaceInput ''s'' [] ''hi'')]" "text_request SurfaceToolCall ''s'' ''mail'' ''send''"
        SurfaceToolCall] noerr rules ttl
    by auto
qed

theorem blocked_tool_stays_blocked_witness:
  "\<exists>sv v'. fst (serve sv (text_request SurfaceToolCall ''s'' ''mail'' ''send'')
       (run_hops sv [Wait 99] (snd (serve sv (text_request SurfaceToolDefinition ''s'' ''mail'' ''evil'') world0)))) = Inr v'
     \<and> v_action v' = ActionBlock"
proof -
  define sv where "sv = sample_service [] None [block_on SurfaceToolDefinition]"
  note doc = sample_service_doc [of "[]" None "[block_on SurfaceToolDefinition]", folded sv_def]
  have rules: "pol_rules (sv_policy sv) = [block_on SurfaceToolDefinition]" by (simp add: sv_def)
  let ?def = "text_request SurfaceToolDefinition ''s'' ''mail'' ''evil''"
  have noerr: "detect_error sv req = None" for req by (simp add: sv_def sample_detect_error)
  have ttl: "sv_ttl sv = 100" by (simp add: sv_def)
  have "d_action (Evaluate (sv_policy sv) (decision_input sv ?def (w_mem world0))) = ActionBlock"
    by (rule block_rule_decides [of "block_on SurfaceToolDefinition"])
      (use doc rules in \<open>simp_all add: sample_rule_hits\<close>)
  then have "v_action (the_verdict sv ?def (w_mem world0)) = ActionBlock" by (rule decided_block [OF noerr])
  moreover have "fst (serve sv ?def world0) = Inr (the_verdict sv ?def (w_mem world0))" by (rule serve_eq(1) [OF doc])
  moreover have "names_tool SurfaceToolDefinition ?def" by (simp add: names_tool_def)
  ultimately show ?thesis
    using blocked_tool_stays_blocked [OF doc, of ?def world0 "the_verdict sv ?def (w_mem world0)" "[Wait 99]"
        "text_request SurfaceToolCall ''s'' ''mail'' ''send''"] noerr ttl
    by auto
qed

theorem first_definition_pinned_witness:
  "\<exists>sv v' v''. fst (serve sv (text_request SurfaceToolDefinition ''s'' ''mail'' ''sends mail and files'')
       (run_hops sv [Wait 99] (snd (serve sv (text_request SurfaceToolDefinition ''s'' ''mail'' ''sends mail'') world0)))) = Inr v'
     \<and> v_action v' = ActionBlock
     \<and> fst (serve sv (text_request SurfaceToolDefinition ''s'' ''mail'' ''sends mail'')
       (run_hops sv [Wait 99] (snd (serve sv (text_request SurfaceToolDefinition ''s'' ''mail'' ''sends mail'') world0)))) = Inr v''
     \<and> v_action v'' \<noteq> ActionBlock"
proof -
  define sv where "sv = sample_service [] None [pin_rule]"
  note doc = sample_service_doc [of "[]" None "[pin_rule]", folded sv_def]
  have rules: "pol_rules (sv_policy sv) = [pin_rule]" by (simp add: sv_def)
  let ?def = "text_request SurfaceToolDefinition ''s'' ''mail'' ''sends mail''"
  let ?later = "text_request SurfaceToolDefinition ''s'' ''mail'' ''sends mail and files''"
  have noerr: "detect_error sv req = None" for req by (simp add: sv_def sample_detect_error)
  have ttl: "sv_ttl sv = 100" by (simp add: sv_def)
  have changed: "ContentHash (sv_sha sv) ?later \<noteq> ContentHash (sv_sha sv) ?def"
    by (simp add: sv_def ContentHash_def text_request_def)
  have new: "mem_pin (w_mem world0) (r_session ?def) (r_source ?def) = None"
    by (simp add: world0_def NewMemory_def mem_pin_def live_entry_def)
  have names: "names_tool SurfaceToolDefinition ?def" by (simp add: names_tool_def)
  have wait: "sv_ttl sv \<le> 0 \<or> waited [Wait 99] < sv_ttl sv" by (simp add: ttl)
  show ?thesis
    using first_definition_pinned [OF doc names new wait _ _ _ noerr, of ?later]
      first_definition_pinned [OF doc names new wait _ _ _ noerr, of ?def] changed rules
    by (intro exI [of _ sv]) auto
qed

section \<open>Errors, redactions, audit\<close>

lemma serve_out:
  assumes "nfkc_documented (sv_lib sv)"
  shows "w_out (snd (serve sv req w)) = written (sv_line sv)
    (make_event (sv_sha sv) req (the_verdict sv req (w_mem w)) (m_now (w_mem w)) (detect_error sv req) (m_now (w_mem w))) (w_out w)"
proof -
  let ?p = "inspector_pipeline (sv_lib sv) (sv_registry sv) (sv_policy sv) (sv_ttl sv) (sv_line sv)"
  have em: "w_out (emit sha ?p r v st c u) = written (sv_line sv) (make_event sha r v st c (m_now (w_mem u))) (w_out u)"
    for sha r v st c and u :: world
    by (simp add: emit_def wiring world_audit_eq)
  have c: "clock ?p w = (m_now (w_mem w), w)" by (simp add: wiring)
  have now: "m_now (mem_run (store_ops sv req (w_mem w)) (w_mem w)) = m_now (w_mem w)" by (rule ops_now [OF store_ops_ttl])
  have oe: "pl_OnError ?p inp cause = Policy_OnError (sv_policy sv)" for inp cause
    by (simp add: inspector_pipeline_def NewEvaluator_def)
  show ?thesis
    unfolding serve_def Inspect_eq c Let_def world_stages [OF assms]
    by (cases "detect_error sv req") (simp_all add: fail_eq em now the_verdict_def oe)
qed

text \<open>C32: when a detector fails, the verdict is the policy's on-error decision and nothing else: no
  findings, no redactions, no taint, and the session store records neither a taint nor a blocked
  tool, so a definition blocked this way leaves the tool callable and a call to a blocked tool gets
  the on-error action too. The error is in the one event the sink is offered.\<close>

theorem detector_error_fails_as_configured:
  assumes "nfkc_documented (sv_lib sv)" "detect_error sv req = Some err"
  shows "fst (serve sv req w) = Inr \<lparr>v_action = OnError_Action (pol_on_error (sv_policy sv)), v_findings = [],
      v_redactions = [], v_taint_session = False, v_policy_version = pol_version (sv_policy sv)\<rparr>
    \<and> mem_taint (w_mem (snd (serve sv req w))) = mem_taint (w_mem w)
    \<and> mem_blocked (w_mem (snd (serve sv req w))) = mem_blocked (w_mem w)
    \<and> (\<exists>ev. w_out (snd (serve sv req w)) = written (sv_line sv) ev (w_out w) \<and> ev_error ev = error_text err
          \<and> ev_content_hash ev = ContentHash (sv_sha sv) req)"
proof -
  note doc = assms(1)
  have ops: "store_ops sv req (w_mem w) = look_ops sv req (w_mem w)"
    using assms(2) by (simp add: store_ops_split taint_ops_def block_ops_def)
  have "mem_taint (mem_run (look_ops sv req (w_mem w)) m) = mem_taint m \<and> mem_blocked (mem_run (look_ops sv req (w_mem w)) m) = mem_blocked m" for m
    using Mem_ToolBlocked_spec [of "r_session req" "r_source req"]
    by (simp add: look_ops_def mem_run_append mem_run_views pin_ops_views)
  moreover have "the_verdict sv req (w_mem w) = \<lparr>v_action = OnError_Action (pol_on_error (sv_policy sv)), v_findings = [],
      v_redactions = [], v_taint_session = False, v_policy_version = pol_version (sv_policy sv)\<rparr>"
    using assms(2) by (simp add: the_verdict_def on_error_verdict_def zero_verdict_def Policy_OnError_def)
  moreover have "\<exists>ev. w_out (snd (serve sv req w)) = written (sv_line sv) ev (w_out w) \<and> ev_error ev = error_text err
          \<and> ev_content_hash ev = ContentHash (sv_sha sv) req"
    using serve_out [OF doc, of req w] assms(2) by (auto simp: make_event_def)
  ultimately show ?thesis by (simp add: serve_eq [OF doc] ops)
qed

theorem detector_error_fails_as_configured_witness:
  "\<exists>sv v. fst (serve sv (text_request SurfaceToolDefinition ''s'' ''mail'' ''evil'') world0) = Inr v
     \<and> v_action v = ActionBlock
     \<and> \<not> mem_blocked (w_mem (snd (serve sv (text_request SurfaceToolDefinition ''s'' ''mail'' ''evil'') world0))) ''s'' ''mail''"
proof -
  define sv where "sv = sample_service [] (Some (ErrorText ''timeout'')) []"
  note doc = sample_service_doc [of "[]" "Some (ErrorText ''timeout'')" "[]", folded sv_def]
  have "detect_error sv (text_request SurfaceToolDefinition ''s'' ''mail'' ''evil'') = Some (Wrap ''detect d'' (ErrorText ''timeout''))"
    by (simp add: sv_def sample_detect_error)
  from detector_error_fails_as_configured [OF doc this, of world0]
  have "fst (serve sv (text_request SurfaceToolDefinition ''s'' ''mail'' ''evil'') world0)
      = Inr \<lparr>v_action = OnError_Action (pol_on_error (sv_policy sv)), v_findings = [],
          v_redactions = [], v_taint_session = False, v_policy_version = pol_version (sv_policy sv)\<rparr>"
    "\<not> mem_blocked (w_mem (snd (serve sv (text_request SurfaceToolDefinition ''s'' ''mail'' ''evil'') world0))) ''s'' ''mail''"
    by (simp_all add: world0_def NewMemory_def mem_blocked_def live_entry_def)
  moreover have "OnError_Action (pol_on_error (sv_policy sv)) = ActionBlock"
    by (simp add: sv_def sample_policy_def OnError_Action_def go_consts)
  ultimately show ?thesis by (intro exI [of _ sv]) simp
qed

text \<open>Every hop is audited exactly once, whatever fails: a sequence of hops makes one write per
  hop, in order, and the event written names the session, surface, caller and source of the request
  as it was sent and carries nothing of its text but the content hash.\<close>

theorem every_hop_audited:
  "\<exists>evs. w_out (run_hops sv hs w) = fold (written (sv_line sv)) evs (w_out w)
     \<and> map (\<lambda>ev. (ev_session_id ev, ev_surface ev, ev_caller ev, ev_source ev, ev_content_hash ev)) evs
       = List.map_filter (\<lambda>h. case h of
            Hop req \<Rightarrow> Some (r_session req, r_surface req, r_caller req, r_source req, ContentHash (sv_sha sv) req)
          | Wait d \<Rightarrow> None) hs"
proof (induction hs arbitrary: w rule: waited.induct)
  case (2 req hs)
  obtain v start now cause where one: "w_out (snd (serve sv req w)) =
      written (sv_line sv) (make_event (sv_sha sv) req v start cause now) (w_out w)"
    using trail.one_event [of "sv_sha sv" "sv_lib sv" "sv_registry sv" "sv_policy sv" "sv_ttl sv" "sv_line sv" req w]
    unfolding serve_def by blast
  obtain evs where evs: "w_out (run_hops sv hs (snd (serve sv req w))) = fold (written (sv_line sv)) evs (w_out (snd (serve sv req w)))"
    "map (\<lambda>ev. (ev_session_id ev, ev_surface ev, ev_caller ev, ev_source ev, ev_content_hash ev)) evs
       = List.map_filter (\<lambda>h. case h of
            Hop req \<Rightarrow> Some (r_session req, r_surface req, r_caller req, r_source req, ContentHash (sv_sha sv) req)
          | Wait d \<Rightarrow> None) hs"
    using "2.IH" by blast
  show ?case
    by (rule exI [of _ "make_event (sv_sha sv) req v start cause now # evs"])
      (use one evs in \<open>simp add: List.map_filter_simps make_event_def\<close>)
next
  case (3 d hs)
  from "3.IH" [of "w\<lparr>w_mem := mem_advance d (w_mem w)\<rparr>"] show ?case by (simp add: List.map_filter_simps)
qed (simp add: List.map_filter_simps)

subsection \<open>Redactions\<close>

definition detectors_in_bounds :: "registry \<Rightarrow> bool" where
  "detectors_in_bounds reg = (\<forall>d \<in> set (reg_order reg). bounded_detector d)"

lemma Registry_Detect_in_bounds:
  "detectors_in_bounds reg \<Longrightarrow> f \<in> set (fst (Registry_Detect reg req)) \<Longrightarrow> span_in_parts (r_parts req) (f_span f)"
  unfolding detectors_in_bounds_def by (rule registry_bounded)

lemma all_findings_in_bounds:
  assumes doc: "nfkc_documented (sv_lib sv)" and det: "detectors_in_bounds (sv_registry sv)"
    and f: "f \<in> set (all_findings sv req)"
  shows "span_in_parts (r_parts req) (f_span f)"
proof -
  define n where "n = normalized sv req"
  obtain qs ms fs where parts: "normalize_parts (sv_lib sv) 0 (r_parts req) = Some (qs, ms, fs)"
    "length qs = length (r_parts req)" "length ms = length (r_parts req)"
    and wf: "\<forall>j < length (r_parts req).
        wf_map (int (length (p_text (qs ! j)))) (int (length (p_text (r_parts req ! j)))) (ms ! j)"
    and fs: "\<forall>f \<in> set fs. \<exists>j < length (r_parts req). span_part (f_span f) = int (0 + j)
        \<and> finding_within (int (length (p_text (r_parts req ! j)))) f"
    using normalize_parts_ok [OF doc, of 0 "r_parts req"] by blast
  then have n: "r_parts (n_request n) = qs" "n_maps n = ms" "n_findings n = fs"
    by (simp_all add: n_def normalized_def Normalizer_Normalize_def)
  from f consider "f \<in> set fs"
    | "f \<in> set (remapSpans (fst (Registry_Detect (sv_registry sv) (n_request n))) ms)"
    by (auto simp: all_findings_def n_def [symmetric] n)
  then show ?thesis
  proof cases
    case 1
    then show ?thesis using fs by (fastforce simp: span_in_parts_def finding_within_def)
  next
    case 2
    have in_norm: "span_in_parts qs (f_span g)" if "g \<in> set (fst (Registry_Detect (sv_registry sv) (n_request n)))" for g
      using Registry_Detect_in_bounds [OF det that] n by simp
    show ?thesis
    proof (cases "ms = []")
      case True
      with 2 in_norm parts(2,3) show ?thesis by (auto simp: remapSpans_def span_in_parts_def)
    next
      case False
      then obtain g where g: "f = remap_finding ms g" "span_in_parts qs (f_span g)"
        using 2 in_norm by (auto simp: remapSpans_def)
      define j where "j = nat (span_part (f_span g))"
      have j: "j < length (r_parts req)" "span_part (f_span g) = int j"
        using g(2) parts(2) by (auto simp: span_in_parts_def j_def)
      have "0 \<le> span_start (f_span g)" "span_start (f_span g) \<le> span_end (f_span g)"
        "span_end (f_span g) \<le> int (length (p_text (qs ! j)))"
        using g(2) by (auto simp: span_in_parts_def j_def)
      from map_Span_bounds [OF wf [rule_format, OF j(1)] this] j g(1) parts(3) show ?thesis
        by (auto simp: remap_finding_def Let_def span_in_parts_def split_beta)
    qed
  qed
qed

lemma span_in_parts_merge:
  "\<forall>s \<in> set ss. span_in_parts ps s \<Longrightarrow> \<forall>s \<in> set (MergeSpans ss). span_in_parts ps s"
  by (rule MergeSpans_all) (auto simp: span_in_parts_def)

lemma verdict_redactions_ok:
  assumes "nfkc_documented (sv_lib sv)" "detectors_in_bounds (sv_registry sv)"
  shows "separated (v_redactions (the_verdict sv req m)) \<and> (\<forall>s \<in> set (v_redactions (the_verdict sv req m)). span_in_parts (r_parts req) s)"
proof (cases "detect_error sv req = None \<and> \<not> is_blocked_call req m
    \<and> d_action (Evaluate (sv_policy sv) (decision_input sv req m)) = ActionRedact")
  case False
  have "v_redactions (the_verdict sv req m) = []"
    using False by (auto simp: the_verdict_def split: option.splits)
  then show ?thesis by (simp add: separated_def)
next
  case True
  let ?d = "Evaluate (sv_policy sv) (decision_input sv req m)"
  have red: "v_redactions (the_verdict sv req m) = MergeSpans (d_redactions ?d)" using True by (simp add: the_verdict_def)
  have sub: "set (d_redactions ?d) \<subseteq> f_span ` set (all_findings sv req)"
    using Evaluate_redactions_subset [of "sv_policy sv" "decision_input sv req m"] by (simp add: decision_input_def)
  have "\<forall>s \<in> set (v_redactions (the_verdict sv req m)). span_in_parts (r_parts req) s"
    unfolding red by (rule span_in_parts_merge) (use sub all_findings_in_bounds [OF assms] in auto)
  then show ?thesis using MergeSpans_separated by (simp add: red)
qed

text \<open>C1: with detectors that report spans inside the text they are given, the redactions of a verdict
  lie inside the parts of the request as it was sent, in order and apart; there are some only when
  the action is redact; they cover every byte of every finding that a matching redact rule selects
  and no byte outside the verdict's findings.\<close>

theorem redactions_sound:
  assumes "nfkc_documented (sv_lib sv)" "detectors_in_bounds (sv_registry sv)" "fst (serve sv req w) = Inr v"
  shows "(v_redactions v \<noteq> [] \<longrightarrow> v_action v = ActionRedact)
    \<and> separated (v_redactions v) \<and> (\<forall>s \<in> set (v_redactions v). span_in_parts (r_parts req) s)
    \<and> (\<forall>k x. covers (v_redactions v) k x \<longrightarrow> covers (map f_span (v_findings v)) k x)
    \<and> (v_action v = ActionRedact \<longrightarrow>
        (\<forall>r \<in> set (pol_rules (sv_policy sv)). rule_hit (decision_input sv req (w_mem w)) r \<and> ru_action r = ActionRedact \<longrightarrow>
          (\<forall>f \<in> set (rule_findings r (v_findings v)). \<forall>k x. covers [f_span f] k x \<longrightarrow> covers (v_redactions v) k x)))"
proof -
  define m where "m = w_mem w"
  have v: "v = the_verdict sv req m" using assms(3) by (simp add: serve_eq(1) [OF assms(1)] m_def)
  define d where "d = Evaluate (sv_policy sv) (decision_input sv req m)"
  show ?thesis
  proof (cases "detect_error sv req = None \<and> \<not> is_blocked_call req m \<and> d_action d = ActionRedact")
    case False
    have "v_redactions v = []" "v_action v \<noteq> ActionRedact"
      using False by (auto simp: v the_verdict_def d_def Policy_OnError_def OnError_Action_def split: option.splits)
    then show ?thesis by (simp add: separated_def covers_def)
  next
    case True
    then have red: "v_redactions v = MergeSpans (d_redactions d)" and fs: "v_findings v = all_findings sv req"
      and act: "v_action v = ActionRedact"
      by (simp_all add: v the_verdict_def d_def)
    have sub: "set (d_redactions d) \<subseteq> f_span ` set (all_findings sv req)"
      using Evaluate_redactions_subset [of "sv_policy sv" "decision_input sv req m"] by (simp add: d_def decision_input_def)
    have "\<forall>s \<in> set (v_redactions v). span_in_parts (r_parts req) s"
      unfolding red by (rule span_in_parts_merge) (use sub all_findings_in_bounds [OF assms(1,2)] in auto)
    moreover have "covers (v_redactions v) k x \<longrightarrow> covers (map f_span (v_findings v)) k x" for k x
    proof
      assume "covers (v_redactions v) k x"
      then have "covers (d_redactions d) k x" by (simp add: red MergeSpans_covers)
      then show "covers (map f_span (v_findings v)) k x" using sub by (auto simp: fs covers_def)
    qed
    moreover have "covers (v_redactions v) k x"
      if "r \<in> set (pol_rules (sv_policy sv))" "rule_hit (decision_input sv req m) r" "ru_action r = ActionRedact"
        "f \<in> set (rule_findings r (v_findings v))" "covers [f_span f] k x" for r f k x
    proof -
      have "f_span f \<in> set (d_redactions d)"
        using that(1-4) by (auto simp: d_def Evaluate_redactions fs decision_input_def)
      then have "covers (d_redactions d) k x" using that(5) by (auto simp: covers_def)
      then show ?thesis by (simp add: red MergeSpans_covers)
    qed
    ultimately show ?thesis using MergeSpans_separated act unfolding red m_def by auto
  qed
qed

text \<open>A detector that reports every part as a whole.\<close>

definition whole_detector :: detector where
  "whole_detector = \<lparr>det_Name = ''whole'',
     det_Detect = (\<lambda>req. (map (\<lambda>i. zero_finding\<lparr>f_span := \<lparr>span_part = int i, span_start = 0,
       span_end = int (length (p_text (r_parts req ! i)))\<rparr>\<rparr>) [0..<length (r_parts req)], None))\<rparr>"

definition redact_on :: "surface \<Rightarrow> rule" where
  "redact_on surf = \<lparr>ru_surface = [surf], ru_when = any_condition, ru_action = ActionRedact, ru_taint_session = False\<rparr>"

theorem redactions_sound_witness:
  "\<exists>sv v. fst (serve sv (text_request SurfaceInput ''s'' [] ''my card'') world0) = Inr v \<and> v_action v = ActionRedact
     \<and> (\<forall>s \<in> set (v_redactions v). span_in_parts (r_parts (text_request SurfaceInput ''s'' [] ''my card'')) s)"
proof -
  define sv where "sv = (sample_service [] None [redact_on SurfaceInput])\<lparr>sv_registry :=
    \<lparr>reg_byName = [''whole'' \<mapsto> whole_detector], reg_order = [whole_detector]\<rparr>\<rparr>"
  let ?req = "text_request SurfaceInput ''s'' [] ''my card''"
  have doc: "nfkc_documented (sv_lib sv)" by (simp add: sv_def sample_service_def ascii_lib_documented)
  have bounds: "detectors_in_bounds (sv_registry sv)"
    by (auto simp: sv_def detectors_in_bounds_def bounded_detector_def whole_detector_def span_in_parts_def)
  have noerr: "detect_error sv ?req = None"
    by (simp add: sv_def detect_error_def Registry_Detect_def Registry_Detect_scheduled_def Registry_one_def whole_detector_def)
  have rules: "pol_rules (sv_policy sv) = [redact_on SurfaceInput]" by (simp add: sv_def)
  have hit: "rule_hit (decision_input sv ?req m) (redact_on SurfaceInput)" for m
    using doc by (simp add: rule_hit_iff redact_on_def any_condition_def matchesSurface_def matchesRequest_def selectsFindings_def)
  have "\<not> is_blocked_call ?req (w_mem world0)" by (simp add: is_blocked_call_def names_tool_def go_consts)
  then have act: "v_action (the_verdict sv ?req (w_mem world0)) = ActionRedact"
    using hit by (simp add: the_verdict_def noerr Evaluate_action rules MostSevere_def redact_on_def)
  from redactions_sound [OF doc bounds serve_eq(1) [OF doc, of ?req world0]] act show ?thesis
    by (intro exI [of _ sv] exI [of _ "the_verdict sv ?req (w_mem world0)"]) (auto simp: serve_eq(1) [OF doc])
qed

end
