(* ===== verification/Mcp_Correct.thy ===== *)
theory Mcp_Correct
  imports Mcp Payloads Inspector_Correct
begin

text \<open>
  The ExtMcp server enforces the verdicts of its inspector: a blocked call is denied, a redacted
  payload is written back whole, a blocked tool leaves the list and stays blocked for calls of the
  same session.
\<close>

section \<open>Fields of calls and results\<close>

lemma call_fields_ok: "json_ok (JObject params) \<Longrightarrow> fields_ok (JObject params) (call_fields params)"
  unfolding call_fields_def by (intro fields_ok_key stringLeaves_ok json_ok_entry)

lemma stringField_at: "f \<in> set (field_list (stringField kvs k)) \<Longrightarrow> tf_path f = [Key k]"
  by (auto simp: field_list_def stringField_def field_here_def split: option.splits json.splits)

lemma item_fields_ok: "fields_ok item (item_fields item)"
proof (cases item)
  case (JObject kvs)
  define inner where "inner = (case value_at kvs ''resource'' of
      JObject res \<Rightarrow> map (under (Key ''resource'')) (field_list (stringField res ''text'')) | _ \<Rightarrow> [])"
  have "inner = map (under (Key ''resource'')) (case value_at kvs ''resource'' of
      JObject res \<Rightarrow> field_list (stringField res ''text'') | _ \<Rightarrow> [])"
    by (simp add: inner_def split: json.split)
  moreover have "fields_ok (value_at kvs ''resource'') (case value_at kvs ''resource'' of
      JObject res \<Rightarrow> field_list (stringField res ''text'') | _ \<Rightarrow> [])"
    by (simp add: no_fields_ok stringField_ok split: json.split)
  ultimately have inner: "fields_ok (JObject kvs) inner" "\<forall>f \<in> set inner. \<exists>p. tf_path f = Key ''resource'' # p"
    using fields_ok_key by auto
  have "fields_ok (JObject kvs) (field_list (stringField kvs ''text'') @ inner)"
    by (rule fields_ok_keys [where ks = "{''text''}"])
      (use inner in \<open>auto simp: stringField_ok stringField_at\<close>)
  then show ?thesis by (simp add: JObject item_fields_def inner_def)
qed (simp_all add: item_fields_def no_fields_ok)

lemma content_fields_ok: "fields_ok (JObject res) (content_fields res k)"
  unfolding content_fields_def Let_def by (rule fields_of_elements) (rule item_fields_ok)

lemma content_fields_at: "f \<in> set (content_fields res k) \<Longrightarrow> \<exists>p. tf_path f = Key k # p"
  by (auto simp: content_fields_def Let_def)

lemma result_fields_ok:
  assumes "json_ok (JObject res)"
  shows "fields_ok (JObject res) (result_fields res)"
proof -
  define str where "str = map (under (Key ''structuredContent'')) (stringLeaves (value_at res ''structuredContent''))"
  define c1 c2 where "c1 = content_fields res ''content''" and "c2 = content_fields res ''contents''"
  have at: "\<And>f. f \<in> set c1 \<Longrightarrow> \<exists>p. tf_path f = Key ''content'' # p" "\<And>f. f \<in> set c2 \<Longrightarrow> \<exists>p. tf_path f = Key ''contents'' # p"
    "\<And>f. f \<in> set str \<Longrightarrow> \<exists>p. tf_path f = Key ''structuredContent'' # p"
    using content_fields_at by (auto simp: c1_def c2_def str_def)
  have "fields_ok (JObject res) (c1 @ c2)"
  proof (rule fields_ok_append)
    show "fields_ok (JObject res) c1" "fields_ok (JObject res) c2" by (simp_all add: c1_def c2_def content_fields_ok)
    show "apart_paths (tf_path f) (tf_path g)" if "f \<in> set c1" "g \<in> set c2" for f g
      using at(1) [OF that(1)] at(2) [OF that(2)] by auto
  qed
  moreover have "fields_ok (JObject res) str"
    unfolding str_def by (intro fields_ok_key stringLeaves_ok json_ok_entry assms)
  ultimately have "fields_ok (JObject res) ((c1 @ c2) @ str)"
  proof (rule fields_ok_append)
    show "apart_paths (tf_path f) (tf_path g)" if "f \<in> set (c1 @ c2)" "g \<in> set str" for f g
      using at(1,2) [of f] at(3) [OF that(2)] that(1) by auto
  qed
  then show ?thesis by (simp add: result_fields_def c1_def c2_def str_def)
qed

section \<open>Calls\<close>

lemma decodeJSON_nonempty: "decodeJSON b = Inr v \<Longrightarrow> b \<noteq> []"
  by (auto simp: decodeJSON_def json_Decode_def decode_value.simps)

lemma redactions_outside:
  "\<not> fst (redactFields flds spans v) \<Longrightarrow> i < length flds \<Longrightarrow> field_after flds spans i = tf_text (flds ! i)"
  by (fastforce simp: redactFields_def field_after_def spans_of_part_def Let_def filter_empty_conv)

text \<open>C15: a tool call gets what its verdict says, for any inspector that answers: blocked, the denial; to be
  redacted, the parameters with every leaf under \<open>arguments\<close> redacted by the spans of its part and
  every other place as it was, encoded without an error (and read back as such when the redacted
  texts are valid UTF-8); otherwise the call passes as it is.\<close>

theorem mcp_call_enforced:
  assumes "mq_method r = methodToolsCall" "decodeJSON (mq_params r) = Inr v"
    "inspect (call_request r (as_object v)) \<sigma> = (Inr verdict, \<sigma>')"
  shows "\<exists>reply. CheckRequest inspect r \<sigma> = (Inr reply, \<sigma>')
    \<and> (v_action verdict = ActionBlock \<longrightarrow> reply = denied)
    \<and> (v_action verdict \<noteq> ActionBlock \<and> v_action verdict \<noteq> ActionRedact \<longrightarrow> reply = Pass)
    \<and> (v_action verdict = ActionRedact \<longrightarrow>
        (let flds = call_fields (as_object v) in
         if \<exists>s \<in> set (v_redactions verdict). 0 \<le> span_part s \<and> span_part s < int (length flds)
         then \<exists>b v'. reply = Mutated b \<and> redacted_payload_of flds (v_redactions verdict) (JObject (as_object v)) v'
            \<and> (valid_after flds (v_redactions verdict) \<longrightarrow> decodeJSON b = Inr v')
         else reply = Pass))"
proof -
  let ?params = "as_object v" and ?flds = "call_fields (as_object v)" and ?ss = "v_redactions verdict"
  have ok: "json_ok (JObject ?params)" using as_object_ok decodeJSON_ok [OF assms(2)] by blast
  have run: "CheckRequest inspect r \<sigma> =
     (if v_action verdict = ActionBlock then (Inr denied, \<sigma>')
      else if v_action verdict = ActionRedact then
        (if \<not> fst (redactFields ?flds ?ss (JObject ?params)) then (Inr Pass, \<sigma>')
         else case encodeJSON (snd (redactFields ?flds ?ss (JObject ?params))) of
           Inl err \<Rightarrow> (Inl (Status Internal ''encode params''), \<sigma>') | Inr b \<Rightarrow> (Inr (Mutated b), \<sigma>'))
      else (Inr Pass, \<sigma>'))"
    using assms decodeJSON_nonempty [OF assms(2)]
    by (simp add: CheckRequest_def Let_def split_beta split: sum.splits)
  obtain b where b: "encodeJSON (snd (redactFields ?flds ?ss (JObject ?params))) = Inr b"
    "valid_after ?flds ?ss \<longrightarrow> decodeJSON b = Inr (snd (redactFields ?flds ?ss (JObject ?params)))"
    using redacted_payload [OF ok] by blast
  show ?thesis
    using run b redacted_payload_of_fields [OF call_fields_ok [OF ok], of ?ss]
    by (auto simp: Let_def redactFields_fst ActionBlock_def ActionRedact_def)
qed

theorem mcp_call_enforced_witness:
  "fst (CheckRequest (\<lambda>req \<sigma>. (Inr (zero_verdict\<lparr>v_action := ActionBlock\<rparr>), \<sigma>))
     \<lparr>mq_method = methodToolsCall, mq_params = ''null'', mq_metadata = None, mq_headers = []\<rparr> ()) = Inr denied"
proof -
  have "decodeJSON ''null'' = Inr JNull" by (simp add: decodeJSON_def decode_eval maxNestingDepth_def)
  then show ?thesis
    using mcp_call_enforced [of "\<lparr>mq_method = methodToolsCall, mq_params = ''null'', mq_metadata = None, mq_headers = []\<rparr>"
        JNull "\<lambda>req \<sigma>. (Inr (zero_verdict\<lparr>v_action := ActionBlock\<rparr>), \<sigma>)" "()" "zero_verdict\<lparr>v_action := ActionBlock\<rparr>" "()"]
    by (auto simp: zero_verdict_def)
qed

section \<open>Tool lists\<close>

text \<open>The inspections of a list, one hop for each tool that is an object, and the verdict on each tool.\<close>

definition list_hops :: "string \<Rightarrow> string list \<Rightarrow> json list \<Rightarrow> hop list" where
  "list_hops sess services ts = map (\<lambda>t. Hop (definition_request sess services t)) (filter is_map ts)"

definition tool_verdict :: "service \<Rightarrow> string \<Rightarrow> string list \<Rightarrow> json list \<Rightarrow> world \<Rightarrow> nat \<Rightarrow> verdict" where
  "tool_verdict sv sess services ts w i =
     the_verdict sv (definition_request sess services (ts ! i))
       (w_mem (run_hops sv (list_hops sess services (take i ts)) w))"

definition kept_tool :: "json \<Rightarrow> verdict \<Rightarrow> json list" where
  "kept_tool t v =
     (if \<not> is_map t then [t]
      else if v_action v = ActionBlock then []
      else if v_action v = ActionRedact then [snd (redactFields (stringLeaves t) (v_redactions v) t)]
      else [t])"

definition kept_tools :: "service \<Rightarrow> string \<Rightarrow> string list \<Rightarrow> json list \<Rightarrow> world \<Rightarrow> json list" where
  "kept_tools sv sess services ts w =
     concat (map (\<lambda>i. kept_tool (ts ! i) (tool_verdict sv sess services ts w i)) [0..<length ts])"

lemma run_hops_append: "run_hops sv (hs @ gs) w = run_hops sv gs (run_hops sv hs w)"
  by (induction hs arbitrary: w rule: waited.induct) auto

lemma waited_append: "waited (hs @ gs) = waited hs + waited gs"
  by (induction hs rule: waited.induct) auto

lemma waited_list_hops [simp]: "waited (list_hops sess services ts) = 0"
  by (induction ts) (auto simp: list_hops_def)

definition after_tool :: "service \<Rightarrow> string \<Rightarrow> string list \<Rightarrow> json \<Rightarrow> world \<Rightarrow> world" where
  "after_tool sv sess services t w = run_hops sv (list_hops sess services [t]) w"

lemma list_hops_Cons: "run_hops sv (list_hops sess services (t # ts)) w
    = run_hops sv (list_hops sess services ts) (after_tool sv sess services t w)"
  by (simp add: list_hops_def after_tool_def)

lemma kept_tools_Cons: "kept_tools sv sess services (t # ts) w =
    kept_tool t (the_verdict sv (definition_request sess services t) (w_mem w))
      @ kept_tools sv sess services ts (after_tool sv sess services t w)"
proof -
  have first: "tool_verdict sv sess services (t # ts) w 0 = the_verdict sv (definition_request sess services t) (w_mem w)"
    by (simp add: tool_verdict_def list_hops_def)
  have rest: "tool_verdict sv sess services (t # ts) w (Suc i) = tool_verdict sv sess services ts (after_tool sv sess services t w) i" for i
    by (simp add: tool_verdict_def list_hops_Cons)
  have idx: "[0..<length (t # ts)] = 0 # map Suc [0..<length ts]" by (simp add: upt_conv_Cons map_Suc_upt del: upt_Suc)
  show ?thesis unfolding kept_tools_def idx by (simp add: first rest comp_def)
qed

lemma tools_loop_run:
  assumes doc: "nfkc_documented (sv_lib sv)"
  shows "\<exists>ch. tools_loop (serve sv) sess services ts kept c w =
      (Inr (kept @ kept_tools sv sess services ts w, c \<or> ch), run_hops sv (list_hops sess services ts) w)
    \<and> (\<not> ch \<longrightarrow> kept_tools sv sess services ts w = ts)"
proof (induction ts arbitrary: kept c w)
  case Nil
  then show ?case by (intro exI [of _ False]) (simp add: kept_tools_def list_hops_def)
next
  case (Cons t ts)
  let ?req = "definition_request sess services t" and ?w = "after_tool sv sess services t w"
  let ?v = "the_verdict sv ?req (w_mem w)"
  obtain w' where run: "serve sv ?req w = (Inr ?v, w')" using serve_eq(1) [OF doc, of ?req w] by (metis prod.collapse)
  have step: "\<exists>out ch. tools_loop (serve sv) sess services (t # ts) kept c w
      = tools_loop (serve sv) sess services ts (kept @ out) (c \<or> ch) ?w \<and> out = kept_tool t ?v \<and> (\<not> ch \<longrightarrow> out = [t])"
  proof (cases "is_map t")
    case False
    then show ?thesis by (intro exI [of _ "[t]"] exI [of _ False]) (simp add: kept_tool_def after_tool_def list_hops_def)
  next
    case True
    then have w: "?w = w'" by (simp add: after_tool_def list_hops_def run)
    note one = tools_loop.simps(2) [of "serve sv" sess services t ts kept c w] run
    consider (block) "v_action ?v = ActionBlock" | (redact) "v_action ?v \<noteq> ActionBlock" "v_action ?v = ActionRedact"
      | (other) "v_action ?v \<noteq> ActionBlock" "v_action ?v \<noteq> ActionRedact" by blast
    then show ?thesis
    proof cases
      case block
      then show ?thesis using True by (intro exI [of _ "[]"] exI [of _ True]) (simp add: one w kept_tool_def)
    next
      case redact
      define red where "red = redactFields (stringLeaves t) (v_redactions ?v) t"
      have "tools_loop (serve sv) sess services (t # ts) kept c w
          = tools_loop (serve sv) sess services ts (kept @ [snd red]) (c \<or> fst red) ?w"
        using True redact by (simp add: one w red_def [symmetric] split_beta Let_def)
      moreover have "[snd red] = kept_tool t ?v" using True redact by (simp add: kept_tool_def red_def)
      moreover have "\<not> fst red \<longrightarrow> [snd red] = [t]" using redactFields_unchanged by (simp add: red_def)
      ultimately show ?thesis by blast
    next
      case other
      then show ?thesis using True by (intro exI [of _ "[t]"] exI [of _ False]) (simp add: one w kept_tool_def)
    qed
  qed
  then obtain ch where step: "tools_loop (serve sv) sess services (t # ts) kept c w
      = tools_loop (serve sv) sess services ts (kept @ kept_tool t ?v) (c \<or> ch) ?w" "\<not> ch \<longrightarrow> kept_tool t ?v = [t]"
    by blast
  obtain ch' where rest: "tools_loop (serve sv) sess services ts (kept @ kept_tool t ?v) (c \<or> ch) ?w =
      (Inr ((kept @ kept_tool t ?v) @ kept_tools sv sess services ts ?w, (c \<or> ch) \<or> ch'), run_hops sv (list_hops sess services ts) ?w)"
    "\<not> ch' \<longrightarrow> kept_tools sv sess services ts ?w = ts"
    using Cons.IH by blast
  show ?case
    by (rule exI [of _ "ch \<or> ch'"]) (use step rest in \<open>simp add: kept_tools_Cons list_hops_Cons disj_assoc\<close>)
qed

lemma encodable_map_put: "encodable (JObject kvs) \<Longrightarrow> encodable v \<Longrightarrow> encodable (JObject (map_put k v kvs))"
  by (induction k v kvs rule: map_put.induct) auto

lemma json_ok_elements: "json_ok (JObject kvs) \<Longrightarrow> t \<in> set (as_array (value_at kvs k)) \<Longrightarrow> encodable t"
  using json_ok_entry [of kvs k] json_wf_encodable [of "value_at kvs k"]
  by (cases "value_at kvs k") (auto simp: as_array_def list_all_iff json_ok_def)

lemma encodable_kept:
  assumes "\<forall>t \<in> set ts. encodable t"
  shows "encodable (JArray (kept_tools sv sess services ts w))"
  using assms encodable_redactFields by (auto simp: kept_tools_def kept_tool_def list_all_iff split: if_splits)

text \<open>C16: the reply to a tool list holds exactly the tools the policy left: each tool that is an object is
  inspected once, in order; a blocked one is missing, a redacted one has its redacted leaves, all
  others are as they were and in their order, and the reply is never an error once the result is
  JSON. It passes unchanged only when the list is unchanged.\<close>

theorem mcp_list_enforced:
  assumes "nfkc_documented (sv_lib sv)" "mr_method r = methodToolsList" "decodeJSON (mr_result r) = Inr v"
    "ts = as_array (value_at (as_object v) ''tools'')" "sess = responseSession (mr_metadata r)"
  shows "\<exists>reply. CheckResponse (serve sv) r w = (Inr reply, run_hops sv (list_hops sess (mr_services r) ts) w)
    \<and> (reply = Pass \<and> kept_tools sv sess (mr_services r) ts w = ts
       \<or> (\<exists>b. reply = Mutated b
          \<and> encodeJSON (JObject (map_put ''tools'' (JArray (kept_tools sv sess (mr_services r) ts w)) (as_object v))) = Inr b))"
proof -
  let ?kept = "kept_tools sv sess (mr_services r) ts w" and ?w = "run_hops sv (list_hops sess (mr_services r) ts) w"
  have ok: "json_ok (JObject (as_object v))" using as_object_ok decodeJSON_ok [OF assms(3)] by blast
  have "encodable (JArray ?kept)" by (rule encodable_kept) (use json_ok_elements [OF ok] assms(4) in blast)
  then have "encodable (JObject (map_put ''tools'' (JArray ?kept) (as_object v)))"
    using ok json_wf_encodable [of "JObject (as_object v)"] by (intro encodable_map_put) (auto simp: json_ok_def)
  then obtain b where b: "encodeJSON (JObject (map_put ''tools'' (JArray ?kept) (as_object v))) = Inr b"
    using encodable_encodeJSON by blast
  obtain ch where loop: "tools_loop (serve sv) sess (mr_services r) ts [] False w = (Inr (?kept, ch), ?w)"
    "\<not> ch \<longrightarrow> ?kept = ts"
    using tools_loop_run [OF assms(1), of sess "mr_services r" ts "[]" False w] by auto
  have "CheckResponse (serve sv) r w = (if ch then Inr (Mutated b) else Inr Pass, ?w)"
    using assms loop(1) b by (simp add: CheckResponse_def Let_def mcp_methods toolsList_def encode_result_def)
  then show ?thesis using loop(2) b by (cases ch) auto
qed

section \<open>From the list to the call\<close>

lemma run_hops_later:
  "run_hops sv hs (run_hops sv (list_hops sess services ts) w)
     = run_hops sv (list_hops sess services (drop i ts) @ hs) (run_hops sv (list_hops sess services (take i ts)) w)"
proof -
  have "list_hops sess services ts = list_hops sess services (take i ts) @ list_hops sess services (drop i ts)"
    by (simp add: list_hops_def flip: map_append filter_append)
  then show ?thesis by (simp add: run_hops_append)
qed

text \<open>C14: a tool the policy removes from a tool list cannot be called: when the definition of a tool of a list
  response is blocked, then every tool call of the same session to the same bare name is denied until
  the ttl has passed, whatever else goes through the service in between.\<close>

theorem mcp_blocked_tool_denied:
  assumes "nfkc_documented (sv_lib sv)" "mr_method r = methodToolsList" "decodeJSON (mr_result r) = Inr v"
    "ts = as_array (value_at (as_object v) ''tools'')" "sess = responseSession (mr_metadata r)"
    "i < length ts" "is_map (ts ! i)"
    "v_action (tool_verdict sv sess (mr_services r) ts w i) = ActionBlock"
    "detect_error sv (definition_request sess (mr_services r) (ts ! i)) = None"
    "name = nativeToolName (as_string (value_at (as_object (ts ! i)) ''name'')) (mr_services r)" "name \<noteq> []" "sess \<noteq> []"
    "sv_ttl sv \<le> 0 \<or> waited hs < sv_ttl sv"
    "mq_method q = methodToolsCall" "decodeJSON (mq_params q) = Inr p"
    "as_string (value_at (as_object p) ''name'') = name" "requestSession (mq_metadata q) (mq_headers q) = sess"
    "detect_error sv (call_request q (as_object p)) = None"
  shows "fst (CheckRequest (serve sv) q (run_hops sv hs (snd (CheckResponse (serve sv) r w)))) = Inr denied"
proof -
  note doc = assms(1)
  let ?def = "definition_request sess (mr_services r) (ts ! i)" and ?call = "call_request q (as_object p)"
  define w0 where "w0 = run_hops sv (list_hops sess (mr_services r) (take i ts)) w"
  define gs where "gs = list_hops sess (mr_services r) (drop (Suc i) ts) @ hs"
  define w2 where "w2 = run_hops sv hs (snd (CheckResponse (serve sv) r w))"
  have "snd (CheckResponse (serve sv) r w) = run_hops sv (list_hops sess (mr_services r) ts) w"
  proof -
    obtain ch kept where "tools_loop (serve sv) sess (mr_services r) ts [] False w
        = (Inr (kept, ch), run_hops sv (list_hops sess (mr_services r) ts) w)"
      using tools_loop_run [OF doc, of sess "mr_services r" ts "[]" False w] by auto
    then show ?thesis
      using assms(2-5) by (simp add: CheckResponse_def Let_def toolsList_def mcp_methods split: if_splits)
  qed
  then have "w2 = run_hops sv (list_hops sess (mr_services r) (drop i ts) @ hs) w0"
    by (simp add: w2_def w0_def run_hops_later [of sv hs sess "mr_services r" ts w i])
  then have w2: "w2 = run_hops sv gs (snd (serve sv ?def w0))"
    using assms(6,7) by (simp add: gs_def list_hops_def flip: Cons_nth_drop_Suc)
  have "\<exists>v'. fst (serve sv ?call (run_hops sv gs (snd (serve sv ?def w0)))) = Inr v' \<and> v_action v' = ActionBlock
      \<and> tool_blocked_finding \<in> set (v_findings v')"
  proof (rule blocked_definition_blocks_call [OF doc _ assms(9) serve_eq(1) [OF doc]])
    show "names_tool SurfaceToolDefinition ?def" using assms(10-12) by (simp add: names_tool_def definition_request_def)
    show "v_action (the_verdict sv ?def (w_mem w0)) = ActionBlock" using assms(8) by (simp add: tool_verdict_def w0_def)
    show "sv_ttl sv \<le> 0 \<or> waited gs < sv_ttl sv" using assms(13) by (simp add: gs_def waited_append)
    show "r_surface ?call = SurfaceToolCall" "r_session ?call = r_session ?def" "r_source ?call = r_source ?def"
      using assms(10,16,17) by (simp_all add: call_request_def definition_request_def)
  qed (rule assms(18))
  then obtain v' w' where "serve sv ?call w2 = (Inr v', w')" "v_action v' = ActionBlock"
    unfolding w2 by (metis prod.collapse)
  then show ?thesis
    unfolding w2_def [symmetric] using assms(14,15) decodeJSON_nonempty [OF assms(15)]
    by (simp add: CheckRequest_def Let_def)
qed

subsection \<open>A list and a call\<close>

definition mail_list :: mcp_response where
  "mail_list = \<lparr>mr_method = methodToolsList, mr_result = ''{\"tools\":[{\"name\":\"mail\"}]}'',
     mr_metadata = Some [(''session'', StringValue ''s'')], mr_services = [''srv'']\<rparr>"

definition mail_call :: mcp_request where
  "mail_call = \<lparr>mq_method = methodToolsCall, mq_params = ''{\"name\":\"mail\"}'',
     mq_metadata = Some [(''session'', StringValue ''s'')], mq_headers = []\<rparr>"

lemmas decode_string_eval = decode_eval scan_string.simps(2) unquote.simps maxNestingDepth_def

lemma mail_decoded:
  "decodeJSON (mr_result mail_list) = Inr (JObject [(''tools'', JArray [JObject [(''name'', JString ''mail'')]])])"
  "decodeJSON (mq_params mail_call) = Inr (JObject [(''name'', JString ''mail'')])"
  by (simp_all add: mail_list_def mail_call_def decodeJSON_def decode_string_eval)

lemma mail_sessions: "responseSession (mr_metadata mail_list) = ''s''"
  "requestSession (mq_metadata mail_call) (mq_headers mail_call) = ''s''"
  by (simp_all add: mail_list_def mail_call_def responseSession_def requestSession_def metadataString_def)

lemma mail_parts: "mr_method mail_list = methodToolsList" "mr_services mail_list = [''srv'']" "mq_method mail_call = methodToolsCall"
  by (simp_all add: mail_list_def mail_call_def)

definition blocking_service :: service where
  "blocking_service = sample_service [] None [block_on SurfaceToolDefinition]"

lemma blocking_service_doc: "nfkc_documented (sv_lib blocking_service)"
  unfolding blocking_service_def by (rule sample_service_doc)

lemma blocking_service_blocks:
  "detect_error blocking_service req = None"
  "r_surface req = SurfaceToolDefinition \<Longrightarrow> v_action (the_verdict blocking_service req m) = ActionBlock"
proof -
  show noerr: "detect_error blocking_service req = None" for req by (simp add: blocking_service_def sample_detect_error)
  assume "r_surface req = SurfaceToolDefinition"
  then have "d_action (Evaluate (sv_policy blocking_service) (decision_input blocking_service req m)) = ActionBlock"
    by (intro block_rule_decides [of "block_on SurfaceToolDefinition"])
      (use blocking_service_doc in \<open>simp_all add: blocking_service_def sample_rule_hits\<close>)
  then show "v_action (the_verdict blocking_service req m) = ActionBlock" by (rule decided_block [OF noerr])
qed

lemma mail_verdict: "v_action (tool_verdict blocking_service sess services ts w i) = ActionBlock"
  by (simp add: tool_verdict_def blocking_service_blocks definition_request_def)

theorem mcp_list_enforced_witness:
  "\<exists>b. fst (CheckResponse (serve blocking_service) mail_list world0) = Inr (Mutated b)
     \<and> encodeJSON (JObject [(''tools'', JArray [])]) = Inr b"
proof -
  have "kept_tools blocking_service ''s'' [''srv''] [JObject [(''name'', JString ''mail'')]] world0 = []"
    by (simp add: kept_tools_def kept_tool_def is_map_def mail_verdict)
  then show ?thesis
    using mcp_list_enforced [OF blocking_service_doc mail_parts(1) mail_decoded(1) refl refl, of world0]
    by (simp add: mail_parts mail_sessions value_at_def as_object_def as_array_def) (metis fst_conv)
qed

theorem mcp_blocked_tool_denied_witness:
  "fst (CheckRequest (serve blocking_service) mail_call
     (run_hops blocking_service [Wait 99] (snd (CheckResponse (serve blocking_service) mail_list world0)))) = Inr denied"
  by (rule mcp_blocked_tool_denied [OF blocking_service_doc mail_parts(1) mail_decoded(1) refl refl,
        where i = 0 and p = "JObject [(''name'', JString ''mail'')]" and name = "''mail''"])
    (simp_all add: mail_sessions mail_parts mail_decoded value_at_def as_object_def as_array_def as_string_def is_map_def
      mail_verdict blocking_service_blocks nativeToolName_def, simp add: blocking_service_def)

section \<open>Session identity\<close>

text \<open>C23: with the metadata the gateway fills from the request's headers, requests and responses agree on the
  session except in one case: an agent that sends neither \<open>x-session-id\<close> nor \<open>mcp-session-id\<close> but a
  traceparent has its calls checked under the trace id and its lists and results recorded under no
  session, where nothing is pinned, blocked or tainted.\<close>

theorem mcp_sessions_agree_iff:
  assumes "metadataString md ''session'' = header_value hs ''x-session-id''"
    "metadataString md ''mcp_session'' = header_value hs ''mcp-session-id''"
  shows "(requestSession md hs \<noteq> responseSession md) =
      (header_value hs ''x-session-id'' = [] \<and> header_value hs ''mcp-session-id'' = []
        \<and> traceID (header_value hs ''traceparent'') \<noteq> [])
    \<and> (requestSession md hs \<noteq> responseSession md \<longrightarrow> responseSession md = [])"
proof (cases "header_value hs ''x-session-id'' = []")
  case True
  then show ?thesis using assms by (auto simp: requestSession_def responseSession_def sessionFrom_def)
next
  case False
  then show ?thesis using assms by (simp add: requestSession_def responseSession_def)
qed

lemma EqualFold_refl_ascii: "EqualFold ''x-session-id'' ''x-session-id'' = True" "EqualFold ''TraceParent'' ''traceparent'' = True"
  "EqualFold ''TraceParent'' ''x-session-id'' = False" "EqualFold ''TraceParent'' ''mcp-session-id'' = False"
  by (simp_all add: EqualFold_ascii byte_of_def fold_rune_def)

theorem mcp_sessions_agree_iff_witness:
  "let hs = [\<lparr>mh_key = ''TraceParent'', mh_value = ''00-0af7651916cd43dd8448eb211c80319c-b7ad6b7169203331-01''\<rparr>] in
     requestSession None hs = ''0af7651916cd43dd8448eb211c80319c'' \<and> responseSession None = []
     \<and> requestSession None hs \<noteq> responseSession None"
proof -
  let ?hs = "[\<lparr>mh_key = ''TraceParent'', mh_value = ''00-0af7651916cd43dd8448eb211c80319c-b7ad6b7169203331-01''\<rparr>]"
  have h: "header_value ?hs ''x-session-id'' = []" "header_value ?hs ''mcp-session-id'' = []"
    "traceID (header_value ?hs ''traceparent'') = ''0af7651916cd43dd8448eb211c80319c''"
    by (simp_all add: EqualFold_refl_ascii traceID_def Let_def)
  then have "requestSession None ?hs \<noteq> responseSession None"
    using mcp_sessions_agree_iff [of None ?hs] by (simp add: metadataString_def)
  with h show ?thesis by (simp add: requestSession_def responseSession_def sessionFrom_def metadataString_def)
qed

section \<open>Bare tool names\<close>

text \<open>
  The bare name comes back when no other service's prefix starts the name. A service whose name
  extends another's with an underscore loses: the tool \<open>x\<close> of \<open>a_b\<close>, listed as \<open>a_b_x\<close>, is pinned and
  blocked as \<open>b_x\<close> of \<open>a\<close>, and its calls, which carry \<open>x\<close>, are not.
\<close>

lemma native_loop_bare:
  "s \<in> set services \<Longrightarrow> (\<And>s'. s' \<in> set services \<Longrightarrow> has_prefix (s @ ''_'' @ t) (s' @ ''_'') \<Longrightarrow> s' = s) \<Longrightarrow>
     native_loop (s @ ''_'' @ t) services = t"
proof (induction services)
  case (Cons s' services)
  show ?case
  proof (cases "s' = s")
    case True
    have "cut_prefix (s @ ''_'' @ t) (s @ ''_'') = Some t" by (simp add: cut_prefix_iff)
    then show ?thesis by (simp add: True)
  next
    case False
    then have "cut_prefix (s @ ''_'' @ t) (s' @ ''_'') = None" using Cons.prems(2) [of s'] by (auto simp: cut_prefix_def)
    then show ?thesis using Cons False by simp
  qed
qed simp

text \<open>With one server a listed name is the bare name; with more, the bare name comes back when the name
  starts with no other server's prefix. When one server's name extends another's, it does not:
  the tool \<open>x\<close> of \<open>a_b\<close> is keyed as \<open>b_x\<close>.\<close>

theorem native_tool_name_bare:
  "nativeToolName t [s] = t
   \<and> (\<forall>services. 2 \<le> length services \<and> s \<in> set services
        \<and> (\<forall>s' \<in> set services. has_prefix (s @ ''_'' @ t) (s' @ ''_'') \<longrightarrow> s' = s) \<longrightarrow>
        nativeToolName (s @ ''_'' @ t) services = t)
   \<and> nativeToolName ''a_b_x'' [''a'', ''a_b''] = ''b_x''"
proof -
  have "nativeToolName (s @ ''_'' @ t) services = t"
    if "2 \<le> length services" "s \<in> set services"
      "\<forall>s' \<in> set services. has_prefix (s @ ''_'' @ t) (s' @ ''_'') \<longrightarrow> s' = s" for services
    using that native_loop_bare [of s services t] by (simp add: nativeToolName_def)
  moreover have "cut_prefix ''a_b_x'' ''a_'' = Some ''b_x''" by (simp add: cut_prefix_iff)
  ultimately show ?thesis by (simp add: nativeToolName_def)
qed

theorem native_tool_name_bare_witness:
  "nativeToolName ''mail_send'' [''files'', ''mail''] = ''send''"
proof -
  have "nativeToolName (''mail'' @ ''_'' @ ''send'') [''files'', ''mail''] = ''send''"
    using conjunct1 [OF conjunct2 [OF native_tool_name_bare [of "''send''" "''mail''"]]]
    by (auto simp: has_prefix_iff dest!: spec [of _ "[''files'', ''mail'']"])
  then show ?thesis by simp
qed

end
