(* ===== verification/Llm.thy ===== *)
theory Llm
  imports Wire
begin

text \<open>
  \<open>internal/adapters/agentgateway/llm.go\<close>: the ext_proc server on LLM routes. One exchange is a
  sequence of messages; the server keeps a buffer for each body and answers with replies. Of the
  Envoy messages the model keeps the fields the code reads and builds. \<open>mime.ParseMediaType\<close> is a
  parameter: the media type it gives, or nothing when it gives an error.
\<close>

section \<open>Messages and replies\<close>

record header =
  hd_key :: string
  hd_value :: string
  hd_raw_value :: string

datatype ext_message =
    RequestHeaders "header list"
  | RequestBody string bool
  | ResponseHeaders "header list" bool
  | ResponseBody string bool
  | RequestTrailers
  | ResponseTrailers
  | OtherMessage

datatype ext_reply =
    RequestHeadersReply
  | RequestBodyReply string bool
  | ResponseHeadersReply
  | ResponseBodyReply string bool
  | RequestTrailersReply
  | ResponseTrailersReply
  | ImmediateResponse nat "(string \<times> string) list" string string

definition blockBody :: string where
  "blockBody = ''{\"error\":{\"message\":\"blocked by ai_security policy\",\"type\":\"ai_security_block\",\"code\":\"content_blocked\"}}''"

definition blockResponse :: ext_reply where
  "blockResponse = ImmediateResponse 403 [(''content-type'', ''application/json'')] blockBody ''ai_security''"

record llm_stream =
  ls_session :: string
  ls_path :: string
  ls_reqBody :: string
  ls_inspectResponse :: bool
  ls_heldHeaders :: bool
  ls_respBody :: string

definition new_stream :: llm_stream where
  "new_stream = \<lparr>ls_session = [], ls_path = [], ls_reqBody = [], ls_inspectResponse = False,
     ls_heldHeaders = False, ls_respBody = []\<rparr>"

section \<open>Headers\<close>

text \<open>
  \<open>strings.ToLower\<close> as far as the look-ups can see it: ASCII letters, and the two runes outside ASCII
  whose lower case is an ASCII letter, the Kelvin sign and the dotted capital I. Keys are lists of
  runes, and the code only looks ASCII keys up.
\<close>

definition lower_rune :: "nat \<Rightarrow> nat" where
  "lower_rune r = (if 65 \<le> r \<and> r \<le> 90 then r + 32 else if r = 0x212A then 107 else if r = 0x130 then 105 else r)"

definition lower_key :: "string \<Rightarrow> nat list" where
  "lower_key k = map (\<lambda>(i, r). lower_rune r) (runes k)"

fun headerMap_loop :: "header list \<Rightarrow> (nat list \<rightharpoonup> string) \<Rightarrow> (nat list \<rightharpoonup> string)" where
  "headerMap_loop [] out = out"
| "headerMap_loop (h # hs) out =
     (let v = (if length (hd_raw_value h) > 0 then hd_raw_value h else hd_value h) in
      headerMap_loop hs (out(lower_key (hd_key h) \<mapsto> v)))"

definition headerMap :: "header list \<Rightarrow> nat list \<rightharpoonup> string" where
  "headerMap hs = headerMap_loop hs (\<lambda>_. None)"

text \<open>\<open>h[k]\<close>, the empty string when the map has no such key.\<close>

definition header_get :: "(nat list \<rightharpoonup> string) \<Rightarrow> string \<Rightarrow> string" where
  "header_get h k = (case h (map byte_of k) of Some v \<Rightarrow> v | None \<Rightarrow> [])"

definition isChat :: "string \<Rightarrow> bool" where
  "isChat path = has_suffix (takeWhile (\<lambda>c. c \<noteq> CHR ''?'') path) ''/chat/completions''"

definition isJSON :: "(string \<Rightarrow> string option) \<Rightarrow> string \<Rightarrow> bool" where
  "isJSON parse_media_type content_type = (parse_media_type content_type = Some ''application/json'')"

text \<open>\<open>strconv.Atoi\<close>: an optional sign and decimal digits, in the range of a 64-bit integer.\<close>

fun digits_value :: "int \<Rightarrow> string \<Rightarrow> int option" where
  "digits_value acc [] = Some acc"
| "digits_value acc (c # cs) =
     (if 48 \<le> byte_of c \<and> byte_of c \<le> 57 then digits_value (10 * acc + int (byte_of c - 48)) cs else None)"

definition Atoi :: "string \<Rightarrow> int option" where
  "Atoi s =
     (let neg = has_prefix s ''-''; ds = (if neg \<or> has_prefix s ''+'' then tl s else s) in
      if ds = [] then None
      else case digits_value 0 ds of
        None \<Rightarrow> None
      | Some n \<Rightarrow> (let v = (if neg then - n else n) in if - (2 ^ 63) \<le> v \<and> v < 2 ^ 63 then Some v else None))"

definition success :: "string \<Rightarrow> bool" where
  "success status = (case Atoi status of Some n \<Rightarrow> n \<ge> 200 \<and> n < 300 | None \<Rightarrow> False)"

section \<open>Bodies\<close>

definition text_part_fields :: "json \<Rightarrow> text_field list" where
  "text_part_fields it =
     (case it of
        JObject part \<Rightarrow> (if value_at part ''type'' \<noteq> JString ''text'' then [] else field_list (stringField part ''text''))
      | _ \<Rightarrow> [])"

definition messageText :: "(string \<times> json) list \<Rightarrow> text_field list" where
  "messageText msg =
     (case stringField msg ''content'' of
        Some f \<Rightarrow> [f]
      | None \<Rightarrow>
          (let items = as_array (value_at msg ''content'') in
           map (under (Key ''content''))
             (concat (map (\<lambda>iv. map (under (Index (fst iv))) (text_part_fields (snd iv))) (zip [0..<length items] items)))))"

text \<open>The body to send back, and whether the exchange is blocked.\<close>

type_synonym 's body_result = "(go_error + string \<times> bool) \<times> 's"

definition encoded_body :: "json \<Rightarrow> go_error + string \<times> bool" where
  "encoded_body v = (case encodeJSON v of Inl err \<Rightarrow> Inl err | Inr b \<Rightarrow> Inr (b, False))"

definition any_request :: "llm_stream \<Rightarrow> surface \<Rightarrow> json \<Rightarrow> request" where
  "any_request st surf v =
     zero_request\<lparr>r_surface := surf, r_session := ls_session st,
       r_source := as_string (value_at (as_object v) ''model''), r_parts := parts (textLeaves v) [] TrustTrusted\<rparr>"

definition inspectAny :: "'s inspector \<Rightarrow> llm_stream \<Rightarrow> surface \<Rightarrow> json \<Rightarrow> string \<Rightarrow> 's \<Rightarrow> 's body_result" where
  "inspectAny inspect st surf v raw \<sigma> =
     (let flds = textLeaves v in
      if length flds = 0 then (Inr (raw, False), \<sigma>)
      else case inspect (any_request st surf v) \<sigma> of
        (Inl err, \<sigma>) \<Rightarrow> (Inl err, \<sigma>)
      | (Inr verdict, \<sigma>) \<Rightarrow>
          if v_action verdict = ActionBlock then (Inr ([], True), \<sigma>)
          else if v_action verdict = ActionRedact then
            (let (changed, v') = redactFields flds (v_redactions verdict) v in
             (if changed then encoded_body v' else Inr (raw, False), \<sigma>))
          else (Inr (raw, False), \<sigma>))"

subsection \<open>Requests\<close>

text \<open>Each text of a conversation with the role of its message.\<close>

definition message_fields :: "json \<Rightarrow> (string \<times> text_field) list" where
  "message_fields m =
     (case m of JObject msg \<Rightarrow> map (\<lambda>f. (as_string (value_at msg ''role''), f)) (messageText msg) | _ \<Rightarrow> [])"

definition chat_fields :: "(string \<times> json) list \<Rightarrow> (string \<times> text_field) list" where
  "chat_fields chat =
     (let messages = as_array (value_at chat ''messages'') in
      map (\<lambda>(role, f). (role, under (Key ''messages'') f))
        (concat (map (\<lambda>im. map (\<lambda>(role, f). (role, under (Index (fst im)) f)) (message_fields (snd im)))
          (zip [0..<length messages] messages))))"

record batch =
  b_surface :: surface
  b_fields :: "(string \<times> text_field) list"
  b_trust :: trust

definition chat_batches :: "(string \<times> json) list \<Rightarrow> batch list" where
  "chat_batches chat =
     [\<lparr>b_surface = SurfaceInput, b_fields = filter (\<lambda>(role, f). role \<noteq> ''tool'') (chat_fields chat), b_trust = TrustTrusted\<rparr>,
      \<lparr>b_surface = SurfaceToolResult, b_fields = filter (\<lambda>(role, f). role = ''tool'') (chat_fields chat), b_trust = TrustUntrusted\<rparr>]"

definition batch_request :: "llm_stream \<Rightarrow> string \<Rightarrow> batch \<Rightarrow> request" where
  "batch_request st model b =
     zero_request\<lparr>r_surface := b_surface b, r_session := ls_session st, r_source := model,
       r_parts := map (\<lambda>(role, f). \<lparr>p_role = role, p_text = tf_text f, p_trust = b_trust b\<rparr>) (b_fields b)\<rparr>"

text \<open>The loop over the batches: blocked, or whether the conversation changed and what it is then.\<close>

fun batches_loop ::
  "'s inspector \<Rightarrow> llm_stream \<Rightarrow> string \<Rightarrow> batch list \<Rightarrow> bool \<Rightarrow> json \<Rightarrow> 's \<Rightarrow> (go_error + (bool \<times> json) option) \<times> 's" where
  "batches_loop inspect st model [] changed chat \<sigma> = (Inr (Some (changed, chat)), \<sigma>)"
| "batches_loop inspect st model (b # bs) changed chat \<sigma> =
     (if length (b_fields b) = 0 then batches_loop inspect st model bs changed chat \<sigma>
      else case inspect (batch_request st model b) \<sigma> of
        (Inl err, \<sigma>) \<Rightarrow> (Inl err, \<sigma>)
      | (Inr verdict, \<sigma>) \<Rightarrow>
          if v_action verdict = ActionBlock then (Inr None, \<sigma>)
          else if v_action verdict = ActionRedact then
            (let (ch, chat') = redactFields (map snd (b_fields b)) (v_redactions verdict) chat in
             batches_loop inspect st model bs (changed \<or> ch) chat' \<sigma>)
          else batches_loop inspect st model bs changed chat \<sigma>)"

definition inspectRequest :: "'s inspector \<Rightarrow> llm_stream \<Rightarrow> 's \<Rightarrow> 's body_result" where
  "inspectRequest inspect st \<sigma> =
     (case decodeJSON (ls_reqBody st) of
        Inl err \<Rightarrow> (Inr (ls_reqBody st, False), \<sigma>)
      | Inr v \<Rightarrow>
          if \<not> isChat (ls_path st) then inspectAny inspect st SurfaceInput v (ls_reqBody st) \<sigma>
          else
            (let chat = as_object v; model = as_string (value_at chat ''model'') in
             case batches_loop inspect st model (chat_batches chat) False (JObject chat) \<sigma> of
               (Inl err, \<sigma>) \<Rightarrow> (Inl err, \<sigma>)
             | (Inr None, \<sigma>) \<Rightarrow> (Inr ([], True), \<sigma>)
             | (Inr (Some (changed, chat')), \<sigma>) \<Rightarrow>
                 (if \<not> changed then Inr (ls_reqBody st, False) else encoded_body chat', \<sigma>)))"

subsection \<open>Responses\<close>

definition choice_fields :: "json \<Rightarrow> text_field list" where
  "choice_fields c =
     (case value_at (as_object c) ''message'' of
        JObject msg \<Rightarrow> map (under (Key ''message'')) (messageText msg) | _ \<Rightarrow> [])"

definition answer_fields :: "(string \<times> json) list \<Rightarrow> text_field list" where
  "answer_fields resp =
     (let choices = as_array (value_at resp ''choices'') in
      map (under (Key ''choices''))
        (concat (map (\<lambda>ic. map (under (Index (fst ic))) (choice_fields (snd ic))) (zip [0..<length choices] choices))))"

definition answer_request :: "llm_stream \<Rightarrow> (string \<times> json) list \<Rightarrow> request" where
  "answer_request st resp =
     zero_request\<lparr>r_surface := SurfaceOutput, r_session := ls_session st,
       r_source := as_string (value_at resp ''model''), r_parts := parts (answer_fields resp) ''assistant'' TrustTrusted\<rparr>"

definition inspectResponse :: "'s inspector \<Rightarrow> llm_stream \<Rightarrow> 's \<Rightarrow> 's body_result" where
  "inspectResponse inspect st \<sigma> =
     (case decodeJSON (ls_respBody st) of
        Inl err \<Rightarrow> (Inr (ls_respBody st, False), \<sigma>)
      | Inr v \<Rightarrow>
          if \<not> isChat (ls_path st) then inspectAny inspect st SurfaceOutput v (ls_respBody st) \<sigma>
          else
            (let resp = as_object v; flds = answer_fields resp in
             if length flds = 0 then (Inr (ls_respBody st, False), \<sigma>)
             else case inspect (answer_request st resp) \<sigma> of
               (Inl err, \<sigma>) \<Rightarrow> (Inl err, \<sigma>)
             | (Inr verdict, \<sigma>) \<Rightarrow>
                 if v_action verdict = ActionBlock then (Inr ([], True), \<sigma>)
                 else if v_action verdict = ActionRedact then
                   (let (changed, resp') = redactFields flds (v_redactions verdict) (JObject resp) in
                    (if changed then encoded_body resp' else Inr (ls_respBody st, False), \<sigma>))
                 else (Inr (ls_respBody st, False), \<sigma>)))"

section \<open>The exchange\<close>

text \<open>The replies to one message and whether the exchange is over, or an error; and the stream's state.\<close>

definition handle ::
  "'s inspector \<Rightarrow> (string \<Rightarrow> string option) \<Rightarrow> llm_stream \<Rightarrow> ext_message \<Rightarrow> 's \<Rightarrow>
     (go_error + ext_reply list \<times> bool) \<times> llm_stream \<times> 's" where
  "handle inspect parse_media_type st msg \<sigma> =
     (case msg of
        RequestHeaders hs \<Rightarrow>
          (let h = headerMap hs; st = st\<lparr>ls_path := header_get h '':path'', ls_session := sessionFrom (header_get h)\<rparr> in
           (Inr ([RequestHeadersReply], False), st, \<sigma>))
      | RequestBody body eos \<Rightarrow>
          (let st = st\<lparr>ls_reqBody := ls_reqBody st @ body\<rparr> in
           if \<not> eos then (Inr ([], False), st, \<sigma>)
           else case inspectRequest inspect st \<sigma> of
             (Inl err, \<sigma>) \<Rightarrow> (Inl err, st, \<sigma>)
           | (Inr (body, blocked), \<sigma>) \<Rightarrow>
               if blocked then (Inr ([blockResponse], True), st, \<sigma>)
               else (Inr ([RequestBodyReply body True], False), st, \<sigma>))
      | ResponseHeaders hs eos \<Rightarrow>
          (let h = headerMap hs;
             st = st\<lparr>ls_inspectResponse :=
               \<not> eos \<and> success (header_get h '':status'') \<and> isJSON parse_media_type (header_get h ''content-type'')\<rparr> in
           if ls_inspectResponse st then (Inr ([], False), st\<lparr>ls_heldHeaders := True\<rparr>, \<sigma>)
           else (Inr ([ResponseHeadersReply], False), st, \<sigma>))
      | ResponseBody chunk eos \<Rightarrow>
          if \<not> ls_inspectResponse st then (Inr ([ResponseBodyReply chunk eos], False), st, \<sigma>)
          else
            (let st = st\<lparr>ls_respBody := ls_respBody st @ chunk\<rparr> in
             if \<not> eos then (Inr ([], False), st, \<sigma>)
             else case inspectResponse inspect st \<sigma> of
               (Inl err, \<sigma>) \<Rightarrow> (Inl err, st, \<sigma>)
             | (Inr (body, blocked), \<sigma>) \<Rightarrow>
                 if blocked then (Inr ([blockResponse], True), st, \<sigma>)
                 else (Inr ((if ls_heldHeaders st then [ResponseHeadersReply] else []) @ [ResponseBodyReply body True], False),
                   st\<lparr>ls_heldHeaders := False\<rparr>, \<sigma>))
      | RequestTrailers \<Rightarrow> (Inr ([RequestTrailersReply], False), st, \<sigma>)
      | ResponseTrailers \<Rightarrow> (Inr ([ResponseTrailersReply], False), st, \<sigma>)
      | OtherMessage \<Rightarrow> (Inr ([], False), st, \<sigma>))"

text \<open>
  The gRPC stream is a parameter: what \<open>Recv\<close> returns until it returns \<open>io.EOF\<close> at the end of the
  list, and the error, if any, with which it refuses the n-th reply.
\<close>

fun send_all :: "(nat \<Rightarrow> go_error option) \<Rightarrow> ext_reply list \<Rightarrow> ext_reply list \<Rightarrow> go_error option \<times> ext_reply list" where
  "send_all send_error sent [] = (None, sent)"
| "send_all send_error sent (r # rs) =
     (case send_error (length sent) of
        Some err \<Rightarrow> (Some err, sent)
      | None \<Rightarrow> send_all send_error (sent @ [r]) rs)"

fun Process_loop ::
  "'s inspector \<Rightarrow> (string \<Rightarrow> string option) \<Rightarrow> (nat \<Rightarrow> go_error option) \<Rightarrow> llm_stream \<Rightarrow> ext_reply list
     \<Rightarrow> ext_message result list \<Rightarrow> 's \<Rightarrow> ext_reply list \<times> go_error option \<times> 's" where
  "Process_loop inspect parse_media_type send_error st sent [] \<sigma> = (sent, None, \<sigma>)"
| "Process_loop inspect parse_media_type send_error st sent (received # rest) \<sigma> =
     (case received of
        Inl err \<Rightarrow> (sent, Some err, \<sigma>)
      | Inr msg \<Rightarrow>
          (case handle inspect parse_media_type st msg \<sigma> of
             (Inl err, st, \<sigma>) \<Rightarrow> (sent, Some err, \<sigma>)
           | (Inr (replies, fin), st, \<sigma>) \<Rightarrow>
               (case send_all send_error sent replies of
                  (Some err, sent) \<Rightarrow> (sent, Some err, \<sigma>)
                | (None, sent) \<Rightarrow>
                    if fin then (sent, None, \<sigma>)
                    else Process_loop inspect parse_media_type send_error st sent rest \<sigma>)))"

definition Process ::
  "'s inspector \<Rightarrow> (string \<Rightarrow> string option) \<Rightarrow> (nat \<Rightarrow> go_error option) \<Rightarrow> ext_message result list \<Rightarrow> 's
     \<Rightarrow> ext_reply list \<times> go_error option \<times> 's" where
  "Process inspect parse_media_type send_error received \<sigma> =
     Process_loop inspect parse_media_type send_error new_stream [] received \<sigma>"

end
