(* ===== verification/Llm_Correct.thy ===== *)
theory Llm_Correct
  imports Llm Payloads
begin

text \<open>
  The ext_proc server sends every inspected body back, whole or redacted, or ends the exchange with
  an error; how the body is cut into chunks does not matter; streamed responses pass as they come.
\<close>

section \<open>The fields of a conversation\<close>

lemma text_part_ok: "fields_ok it (text_part_fields it)"
  by (cases it) (simp_all add: text_part_fields_def no_fields_ok stringField_ok)

lemma messageText_ok: "fields_ok (JObject msg) (messageText msg)"
proof (cases "stringField msg ''content''")
  case None
  then show ?thesis
    using fields_of_elements [of text_part_fields msg "''content''", OF text_part_ok]
    by (simp add: messageText_def Let_def)
next
  case (Some f)
  then show ?thesis using stringField_ok [of msg "''content''"] by (simp add: messageText_def field_list_def)
qed

lemma message_fields_ok: "fields_ok m (map snd (message_fields m))"
  by (cases m) (simp_all add: message_fields_def no_fields_ok messageText_ok comp_def)

lemma chat_fields_snd: "map snd (chat_fields chat) = map (under (Key ''messages''))
    (concat (map (\<lambda>im. map (under (Index (fst im))) (map snd (message_fields (snd im))))
      (zip [0..<length (as_array (value_at chat ''messages''))] (as_array (value_at chat ''messages'')))))"
proof -
  have under_snd: "snd \<circ> (\<lambda>(role, f). (role, under s f)) = under s \<circ> snd" for s :: path_step
    by (simp add: fun_eq_iff split_beta)
  show ?thesis by (simp add: chat_fields_def Let_def under_snd map_concat) (simp add: comp_assoc [symmetric] under_snd comp_def split_beta)
qed

lemma chat_fields_ok: "fields_ok (JObject chat) (map snd (chat_fields chat))"
  unfolding chat_fields_snd by (rule fields_of_elements) (rule message_fields_ok)

lemma choice_fields_ok: "fields_ok c (choice_fields c)"
proof (cases c)
  case (JObject kvs)
  have "choice_fields c = map (under (Key ''message''))
      (case value_at kvs ''message'' of JObject msg \<Rightarrow> messageText msg | _ \<Rightarrow> [])"
    by (simp add: choice_fields_def JObject as_object_def split: json.split)
  moreover have "fields_ok (value_at kvs ''message'') (case value_at kvs ''message'' of JObject msg \<Rightarrow> messageText msg | _ \<Rightarrow> [])"
    by (simp add: messageText_ok no_fields_ok split: json.split)
  ultimately show ?thesis unfolding JObject using fields_ok_key by simp
qed (simp_all add: choice_fields_def as_object_def value_at_def no_fields_ok)

lemma answer_fields_ok: "fields_ok (JObject resp) (answer_fields resp)"
  unfolding answer_fields_def Let_def by (rule fields_of_elements) (rule choice_fields_ok)

section \<open>Redacting a conversation twice\<close>

text \<open>
  The two batches of a conversation are redacted one after the other in the same value. Their fields
  are different places, so each keeps its own redaction.
\<close>

lemma fields_ok_filter: "fields_ok v (map h xs) \<Longrightarrow> fields_ok v (map h (filter P xs))"
  by (auto simp: fields_ok_def sorted_wrt_map sorted_wrt_filter)

lemma fields_ok_apart_sets:
  assumes "fields_ok v (map h xs)" "f \<in> set (map h (filter P xs))" "g \<in> set (map h (filter (\<lambda>x. \<not> P x) xs))"
  shows "apart_paths (tf_path f) (tf_path g)"
proof -
  obtain x y where xy: "x \<in> set xs" "P x" "f = h x" "y \<in> set xs" "\<not> P y" "g = h y" using assms(2,3) by auto
  then obtain i j where ij: "i < length xs" "xs ! i = x" "j < length xs" "xs ! j = y" by (meson in_set_conv_nth)
  then have "i \<noteq> j" using xy by auto
  then show ?thesis using fields_ok_apart [OF assms(1), of i j] ij xy by simp
qed

definition place_texts :: "text_field list \<Rightarrow> span list \<Rightarrow> json \<Rightarrow> bool" where
  "place_texts flds spans v = (\<forall>i < length flds. get_at (tf_path (flds ! i)) v = Some (JString (field_after flds spans i)))"

lemma redact_twice:
  fixes ss ts :: "span list"
  assumes "fields_ok v fs" "fields_ok v gs" "\<And>f g. f \<in> set fs \<Longrightarrow> g \<in> set gs \<Longrightarrow> apart_paths (tf_path f) (tf_path g)"
  defines "v1 \<equiv> snd (redactFields fs ss v)"
  defines "v2 \<equiv> snd (redactFields gs ts v1)"
  shows "place_texts fs ss v2 \<and> place_texts gs ts v2
    \<and> (\<forall>q. (\<forall>f \<in> set fs \<union> set gs. apart_paths (tf_path f) q) \<longrightarrow> get_at q v2 = get_at q v)"
proof -
  have keep1: "get_at q v1 = get_at q v" if "\<forall>f \<in> set fs. apart_paths (tf_path f) q" for q
    unfolding v1_def using redactFields_get(2) [OF assms(1)] that by blast
  have gs1: "fields_ok v1 gs"
    using assms(2,3) by (auto simp: fields_ok_def keep1)
  have keep2: "get_at q v2 = get_at q v1" if "\<forall>g \<in> set gs. apart_paths (tf_path g) q" for q
    unfolding v2_def using redactFields_get(2) [OF gs1] that by blast
  have "get_at (tf_path (fs ! i)) v2 = Some (JString (field_after fs ss i))" if "i < length fs" for i
  proof -
    have "get_at (tf_path (fs ! i)) v2 = get_at (tf_path (fs ! i)) v1"
      using assms(3) that apart_paths_sym by (intro keep2) (metis nth_mem)
    then show ?thesis using redactFields_get(1) [OF assms(1) that] by (simp add: v1_def)
  qed
  moreover have "place_texts gs ts v2"
    using redactFields_get(1) [OF gs1] by (simp add: place_texts_def v2_def)
  ultimately show ?thesis using keep1 keep2 by (auto simp: place_texts_def)
qed

section \<open>Chat requests\<close>

text \<open>What the inspector says of a batch; a batch without fields is not inspected.\<close>

definition batch_spans :: "'s inspector \<Rightarrow> llm_stream \<Rightarrow> string \<Rightarrow> batch \<Rightarrow> 's \<Rightarrow> span list" where
  "batch_spans inspect st model b \<sigma> =
     (if b_fields b = [] then []
      else case fst (inspect (batch_request st model b) \<sigma>) of
        Inr v \<Rightarrow> if v_action v = ActionRedact then v_redactions v else [] | Inl _ \<Rightarrow> [])"

definition batch_blocked :: "'s inspector \<Rightarrow> llm_stream \<Rightarrow> string \<Rightarrow> batch \<Rightarrow> 's \<Rightarrow> bool" where
  "batch_blocked inspect st model b \<sigma> =
     (b_fields b \<noteq> [] \<and> (case fst (inspect (batch_request st model b) \<sigma>) of Inr v \<Rightarrow> v_action v = ActionBlock | Inl _ \<Rightarrow> False))"

definition after_batch :: "'s inspector \<Rightarrow> llm_stream \<Rightarrow> string \<Rightarrow> batch \<Rightarrow> 's \<Rightarrow> 's" where
  "after_batch inspect st model b \<sigma> =
     (if b_fields b = [] then \<sigma> else snd (inspect (batch_request st model b) \<sigma>))"

definition answers :: "'s inspector \<Rightarrow> bool" where
  "answers inspect = (\<forall>req \<sigma>. \<exists>v \<sigma>'. inspect req \<sigma> = (Inr v, \<sigma>'))"

lemma redactFields_none [simp]: "redactFields flds [] v = (False, v)"
  using redactFields_unchanged [of flds "[]" v] by (simp add: redactFields_fst prod_eq_iff)

lemma batches_loop_step:
  assumes "answers inspect"
  shows "batches_loop inspect st model (b # bs) changed chat \<sigma> =
    (if batch_blocked inspect st model b \<sigma> then (Inr None, after_batch inspect st model b \<sigma>)
     else (let red = redactFields (map snd (b_fields b)) (batch_spans inspect st model b \<sigma>) chat in
       batches_loop inspect st model bs (changed \<or> fst red) (snd red) (after_batch inspect st model b \<sigma>)))"
proof (cases "b_fields b = []")
  case True
  then show ?thesis by (simp add: batch_blocked_def batch_spans_def after_batch_def)
next
  case False
  obtain v \<sigma>' where run: "inspect (batch_request st model b) \<sigma> = (Inr v, \<sigma>')"
    using assms unfolding answers_def by blast
  show ?thesis
    using False by (simp add: run batch_blocked_def batch_spans_def after_batch_def Let_def split_beta)
qed

text \<open>C17: a chat request is inspected as the conversation on the input surface and then its \<open>tool\<close>
  messages as untrusted tool results. If either is blocked so is the exchange, and the tool results
  are not inspected after a blocked conversation. Otherwise a body goes upstream: the one received,
  when nothing was redacted, or the encoding of the conversation in which every text holds its own
  redaction and every other place what it held; the encoding never fails.\<close>

theorem llm_chat_request_enforced:
  assumes "answers inspect" "decodeJSON (ls_reqBody st) = Inr v" "isChat (ls_path st)"
    "chat_batches (as_object v) = [b1, b2]" "model = as_string (value_at (as_object v) ''model'')"
    "\<sigma>1 = after_batch inspect st model b1 \<sigma>" "\<sigma>2 = after_batch inspect st model b2 \<sigma>1"
    "ss1 = batch_spans inspect st model b1 \<sigma>" "ss2 = batch_spans inspect st model b2 \<sigma>1"
  shows "if batch_blocked inspect st model b1 \<sigma> then inspectRequest inspect st \<sigma> = (Inr ([], True), \<sigma>1)
    else if batch_blocked inspect st model b2 \<sigma>1 then inspectRequest inspect st \<sigma> = (Inr ([], True), \<sigma>2)
    else \<exists>body chat'. inspectRequest inspect st \<sigma> = (Inr (body, False), \<sigma>2)
      \<and> (body = ls_reqBody st \<and> chat' = JObject (as_object v) \<or> encodeJSON chat' = Inr body)
      \<and> place_texts (map snd (b_fields b1)) ss1 chat' \<and> place_texts (map snd (b_fields b2)) ss2 chat'
      \<and> (\<forall>q. (\<forall>f \<in> set (map snd (b_fields b1)) \<union> set (map snd (b_fields b2)). apart_paths (tf_path f) q) \<longrightarrow>
            get_at q chat' = get_at q (JObject (as_object v)))"
proof -
  let ?chat = "JObject (as_object v)"
  define f1 f2 where "f1 = map snd (b_fields b1)" and "f2 = map snd (b_fields b2)"
  define r1 where "r1 = redactFields f1 ss1 ?chat"
  define r2 where "r2 = redactFields f2 ss2 (snd r1)"
  have ok: "json_ok ?chat" using as_object_ok decodeJSON_ok [OF assms(2)] by blast
  have loop: "batches_loop inspect st model [b1, b2] False ?chat \<sigma> =
    (if batch_blocked inspect st model b1 \<sigma> then (Inr None, \<sigma>1)
     else if batch_blocked inspect st model b2 \<sigma>1 then (Inr None, \<sigma>2)
     else (Inr (Some (fst r1 \<or> fst r2, snd r2)), \<sigma>2))"
    by (simp add: batches_loop_step [OF assms(1)] Let_def r2_def r1_def f1_def f2_def assms(6-9) del: batches_loop.simps(2))
  have run: "inspectRequest inspect st \<sigma> =
    (if batch_blocked inspect st model b1 \<sigma> then (Inr ([], True), \<sigma>1)
     else if batch_blocked inspect st model b2 \<sigma>1 then (Inr ([], True), \<sigma>2)
     else (if \<not> (fst r1 \<or> fst r2) then Inr (ls_reqBody st, False) else encoded_body (snd r2), \<sigma>2))"
    using assms(2,3) by (simp add: inspectRequest_def Let_def assms(4) loop del: batches_loop.simps flip: assms(5))
  have enc: "encodable (snd r2)"
    unfolding r2_def r1_def by (intro encodable_redactFields) (use ok json_wf_encodable json_ok_def in blast)
  have all: "fields_ok ?chat (map snd (chat_fields (as_object v)))" by (rule chat_fields_ok)
  have f12: "f1 = map snd (filter (\<lambda>(role, f). role \<noteq> ''tool'') (chat_fields (as_object v)))"
    "f2 = map snd (filter (\<lambda>x. \<not> (\<lambda>(role, f). role \<noteq> ''tool'') x) (chat_fields (as_object v)))"
    using assms(4) by (auto simp: f1_def f2_def chat_batches_def split_beta intro!: arg_cong [of _ _ "map snd"] filter_cong)
  have texts: "place_texts f1 ss1 (snd r2) \<and> place_texts f2 ss2 (snd r2)
      \<and> (\<forall>q. (\<forall>f \<in> set f1 \<union> set f2. apart_paths (tf_path f) q) \<longrightarrow> get_at q (snd r2) = get_at q ?chat)"
    unfolding r2_def r1_def
  proof (rule redact_twice)
    show "fields_ok ?chat f1" "fields_ok ?chat f2" unfolding f12 by (rule fields_ok_filter [OF all])+
    show "\<And>f g. f \<in> set f1 \<Longrightarrow> g \<in> set f2 \<Longrightarrow> apart_paths (tf_path f) (tf_path g)"
      unfolding f12 by (rule fields_ok_apart_sets [OF all])
  qed
  have same: "snd r2 = ?chat" if "\<not> (fst r1 \<or> fst r2)"
    using that redactFields_unchanged unfolding r2_def r1_def by metis
  obtain b where b: "encodeJSON (snd r2) = Inr b" using encodable_encodeJSON [OF enc] by blast
  show ?thesis
    unfolding f1_def [symmetric] f2_def [symmetric] run
    using texts same b by (auto simp: encoded_body_def intro!: exI [of _ "snd r2"])
qed

definition redact_all :: "unit inspector" where
  "redact_all req \<sigma> =
     (Inr (zero_verdict\<lparr>v_action := ActionRedact, v_redactions := [\<lparr>span_part = 0, span_start = 0, span_end = 2\<rparr>]\<rparr>), \<sigma>)"

definition chat_stream :: llm_stream where
  "chat_stream = new_stream\<lparr>ls_path := ''/v1/chat/completions'', ls_reqBody := ''{\"messages\":[{\"content\":\"hi\"}]}''\<rparr>"

theorem llm_chat_request_enforced_witness:
  "\<exists>body chat'. inspectRequest redact_all chat_stream () = (Inr (body, False), ())
     \<and> get_at [Key ''messages'', Index 0, Key ''content''] chat' = Some (JString ''[REDACTED]'')
     \<and> encodeJSON chat' = Inr body"
proof -
  let ?v = "JObject [(''messages'', JArray [JObject [(''content'', JString ''hi'')]])]"
  let ?f = "\<lparr>tf_text = ''hi'', tf_path = [Key ''messages'', Index 0, Key ''content'']\<rparr>"
  have dec: "decodeJSON (ls_reqBody chat_stream) = Inr ?v"
    by (simp add: chat_stream_def decodeJSON_def decode_eval scan_string.simps(2) unquote.simps maxNestingDepth_def)
  have ans: "answers redact_all" by (simp add: answers_def redact_all_def)
  have path: "isChat (ls_path chat_stream)" by (simp add: isChat_def chat_stream_def has_suffix_def)
  define b1 b2 where "b1 = \<lparr>b_surface = SurfaceInput, b_fields = [([], ?f)], b_trust = TrustTrusted\<rparr>"
    and "b2 = \<lparr>b_surface = SurfaceToolResult, b_fields = [], b_trust = TrustUntrusted\<rparr>"
  have bs: "chat_batches (as_object ?v) = [b1, b2]"
    by (simp add: chat_batches_def chat_fields_def message_fields_def messageText_def as_object_def as_array_def value_at_def
        stringField_def as_string_def under_def field_here_def b1_def b2_def)
  have spans: "batch_spans redact_all chat_stream m b1 () = [\<lparr>span_part = 0, span_start = 0, span_end = 2\<rparr>]"
    "\<not> batch_blocked redact_all chat_stream m b1 ()" "\<not> batch_blocked redact_all chat_stream m b2 ()" for m
    by (simp_all add: batch_spans_def batch_blocked_def b1_def b2_def redact_all_def ActionBlock_def ActionRedact_def)
  have after: "field_after [?f] [\<lparr>span_part = 0, span_start = 0, span_end = 2\<rparr>] 0 = ''[REDACTED]''"
    by (simp add: field_after_def spans_of_part_def redact_def clamp_def replacement_def)
  obtain body chat' where out: "inspectRequest redact_all chat_stream () = (Inr (body, False), ())"
    "body = ls_reqBody chat_stream \<and> chat' = JObject (as_object ?v) \<or> encodeJSON chat' = Inr body"
    "get_at [Key ''messages'', Index 0, Key ''content''] chat' = Some (JString ''[REDACTED]'')"
    using llm_chat_request_enforced [OF ans dec path bs refl refl refl refl refl, of "()"] spans after
    by (auto simp: place_texts_def b1_def)
  then have "chat' \<noteq> JObject (as_object ?v)" by (auto simp: as_object_def)
  with out show ?thesis by blast
qed

section \<open>The exchange\<close>

lemma body_chunks:
  "Process_loop inspect pm se st sent (map (\<lambda>c. Inr (RequestBody c False)) cs @ rest) \<sigma>
     = Process_loop inspect pm se (st\<lparr>ls_reqBody := ls_reqBody st @ concat cs\<rparr>) sent rest \<sigma>"
  by (induction cs arbitrary: st) (simp_all add: handle_def Let_def)

text \<open>C18: however a request body is cut into chunks, one inspection of the whole decides: the gateway gets the
  headers reply and then either the block response, after which nothing more is read from the
  stream, or the whole body in one piece, and nothing of the body before. An error of the inspector
  ends the stream without a body.\<close>

theorem llm_request_exchange:
  "Process inspect pm (\<lambda>_. None)
       (Inr (RequestHeaders hs) # map (\<lambda>c. Inr (RequestBody c False)) cs @ Inr (RequestBody c True) # rest) \<sigma> =
   (let st = new_stream\<lparr>ls_path := header_get (headerMap hs) '':path'',
        ls_session := sessionFrom (header_get (headerMap hs)), ls_reqBody := concat cs @ c\<rparr> in
    case inspectRequest inspect st \<sigma> of
      (Inl err, \<sigma>) \<Rightarrow> ([RequestHeadersReply], Some err, \<sigma>)
    | (Inr (body, True), \<sigma>) \<Rightarrow> ([RequestHeadersReply, blockResponse], None, \<sigma>)
    | (Inr (body, False), \<sigma>) \<Rightarrow>
        Process_loop inspect pm (\<lambda>_. None) st [RequestHeadersReply, RequestBodyReply body True] rest \<sigma>)"
  by (simp add: Process_def handle_def Let_def body_chunks new_stream_def split: prod.splits sum.splits bool.splits)

lemma response_chunks:
  "ls_inspectResponse st \<Longrightarrow>
     Process_loop inspect pm se st sent (map (\<lambda>c. Inr (ResponseBody c False)) cs @ rest) \<sigma>
       = Process_loop inspect pm se (st\<lparr>ls_respBody := ls_respBody st @ concat cs\<rparr>) sent rest \<sigma>"
  by (induction cs arbitrary: st) (simp_all add: handle_def Let_def)

lemma response_chunks_pass:
  "\<not> ls_inspectResponse st \<Longrightarrow>
     Process_loop inspect pm (\<lambda>_. None) st sent (map (\<lambda>c. Inr (ResponseBody c False)) cs @ rest) \<sigma>
       = Process_loop inspect pm (\<lambda>_. None) st (sent @ map (\<lambda>c. ResponseBodyReply c False) cs) rest \<sigma>"
  by (induction cs arbitrary: sent) (simp_all add: handle_def)

definition inspected_response :: "(string \<Rightarrow> string option) \<Rightarrow> header list \<Rightarrow> bool" where
  "inspected_response pm hs =
     (success (header_get (headerMap hs) '':status'') \<and> isJSON pm (header_get (headerMap hs) ''content-type''))"

text \<open>C19: the reply to the headers of a successful JSON response waits for the verdict on its whole body:
  headers and body go out together, or the block response alone, so that a block is still a clean
  error. Any other response passes chunk by chunk, unread.\<close>

theorem llm_response_exchange:
  "ls_respBody st = [] \<Longrightarrow>
   Process_loop inspect pm (\<lambda>_. None) st sent
       (Inr (ResponseHeaders hs False) # map (\<lambda>c. Inr (ResponseBody c False)) cs @ [Inr (ResponseBody c True)]) \<sigma> =
   (if inspected_response pm hs then
      (case inspectResponse inspect (st\<lparr>ls_inspectResponse := True, ls_heldHeaders := True, ls_respBody := concat cs @ c\<rparr>) \<sigma> of
         (Inl err, \<sigma>) \<Rightarrow> (sent, Some err, \<sigma>)
       | (Inr (body, True), \<sigma>) \<Rightarrow> (sent @ [blockResponse], None, \<sigma>)
       | (Inr (body, False), \<sigma>) \<Rightarrow> (sent @ [ResponseHeadersReply, ResponseBodyReply body True], None, \<sigma>))
    else (sent @ ResponseHeadersReply # map (\<lambda>c. ResponseBodyReply c False) cs @ [ResponseBodyReply c True], None, \<sigma>))"
  by (simp add: handle_def Let_def response_chunks response_chunks_pass inspected_response_def
      split: prod.splits sum.splits bool.splits)

lemma lower_key_ascii:
  assumes "list_all (\<lambda>c. byte_of c < 0x80) k"
  shows "lower_key k = map (\<lambda>c. lower_rune (byte_of c)) k"
proof -
  have "map (\<lambda>(i, r). lower_rune r) (runes k) = map lower_rune (map snd (runes_from 0 k))"
    by (simp add: runes_def split_beta comp_def)
  then show ?thesis by (simp add: lower_key_def runes_from_ascii [OF assms] comp_def)
qed

definition json_headers :: "header list" where
  "json_headers = [\<lparr>hd_key = '':status'', hd_value = ''200'', hd_raw_value = []\<rparr>,
     \<lparr>hd_key = ''Content-Type'', hd_value = [], hd_raw_value = ''application/json''\<rparr>]"

lemma json_headers_inspected: "inspected_response Some json_headers"
  by (simp add: inspected_response_def json_headers_def headerMap_def header_get_def lower_key_ascii lower_rune_def byte_of_def
      success_def Atoi_def isJSON_def)

theorem llm_response_exchange_witness:
  "Process_loop redact_all Some (\<lambda>_. None) new_stream []
      [Inr (ResponseHeaders json_headers False), Inr (ResponseBody ''not '' False), Inr (ResponseBody ''json'' True)] ()
   = ([ResponseHeadersReply, ResponseBodyReply ''not json'' True], None, ())"
proof -
  have "decodeJSON ''not json'' = Inl (ErrorText ''json'')"
    by (simp add: decodeJSON_def decode_eval)
  then have "inspectResponse redact_all (new_stream\<lparr>ls_inspectResponse := True, ls_heldHeaders := True, ls_respBody := ''not json''\<rparr>) ()
      = (Inr (''not json'', False), ())"
    by (simp add: inspectResponse_def)
  then show ?thesis
    using llm_response_exchange [of new_stream redact_all Some "[]" json_headers "[''not '']" "''json''" "()"] json_headers_inspected
    by (simp add: new_stream_def)
qed

section \<open>Bodies that are not inspected\<close>

text \<open>
  With trailers the body ends without an end-of-stream mark, and then it is neither inspected nor sent
  back: the request that goes upstream is empty.
\<close>

theorem llm_trailers_drop_body:
  "Process inspect pm (\<lambda>_. None)
     (Inr (RequestHeaders hs) # map (\<lambda>c. Inr (RequestBody c False)) cs @ [Inr RequestTrailers]) \<sigma>
   = ([RequestHeadersReply, RequestTrailersReply], None, \<sigma>)"
  by (simp add: Process_def handle_def Let_def body_chunks)

text \<open>
  Only the first JSON value of a body is looked at, and the whole body is sent: what follows the value
  reaches the model uninspected.
\<close>

theorem llm_trailing_data_uninspected:
  "inspectRequest inspect (chat_stream\<lparr>ls_reqBody := ''null {\"messages\":[{\"content\":\"secret\"}]}''\<rparr>) \<sigma>
     = (Inr (''null {\"messages\":[{\"content\":\"secret\"}]}'', False), \<sigma>)"
proof -
  have "decodeJSON ''null {\"messages\":[{\"content\":\"secret\"}]}'' = Inr JNull"
    by (simp add: decodeJSON_def decode_eval)
  moreover have "isChat (ls_path chat_stream)" by (simp add: isChat_def chat_stream_def has_suffix_def)
  ultimately show ?thesis
    by (simp add: inspectRequest_def Let_def as_object_def as_array_def value_at_def chat_batches_def chat_fields_def)
qed

end
