(* ===== verification/Aho_Corasick.thy ===== *)
theory Aho_Corasick
  imports Prelude
begin

text \<open>
  \<open>internal/detect/ahocorasick.go\<close>: the automaton of the custom dictionary. A node's \<open>next\<close> map is
  the list of its edges in the order they were added; Go ranges over the map in some order, and the
  breadth-first search here takes the edges in the order of the list. A node index is a position in
  the list of nodes; the code never follows an index outside it.
\<close>

section \<open>The automaton\<close>

record ac_node =
  ac_next :: "(char \<times> nat) list"
  ac_fail :: nat
  ac_output :: "nat list"

record aho_corasick =
  ac_nodes :: "ac_node list"
  ac_terms :: "string list"

definition empty_node :: ac_node where
  "empty_node = \<lparr>ac_next = [], ac_fail = 0, ac_output = []\<rparr>"

definition node :: "ac_node list \<Rightarrow> nat \<Rightarrow> ac_node" where
  "node ns i = ns ! i"

definition edge :: "ac_node list \<Rightarrow> nat \<Rightarrow> char \<Rightarrow> nat option" where
  "edge ns i c = map_of (ac_next (node ns i)) c"

definition lower :: "string \<Rightarrow> string" where
  "lower s = map lower_byte s"

section \<open>Adding terms\<close>

fun add_loop :: "ac_node list \<Rightarrow> nat \<Rightarrow> string \<Rightarrow> ac_node list \<times> nat" where
  "add_loop ns cur [] = (ns, cur)"
| "add_loop ns cur (c # cs) =
     (case edge ns cur c of
        Some next \<Rightarrow> add_loop ns next cs
      | None \<Rightarrow>
          (let next = length ns; ns = ns @ [empty_node];
               ns = ns[cur := (node ns cur)\<lparr>ac_next := ac_next (node ns cur) @ [(c, next)]\<rparr>]
           in add_loop ns next cs))"

definition ac_add :: "string \<Rightarrow> aho_corasick \<Rightarrow> aho_corasick" where
  "ac_add term ac =
     (let (ns, cur) = add_loop (ac_nodes ac) 0 term;
          terms = ac_terms ac @ [term]
      in \<lparr>ac_nodes = ns[cur := (node ns cur)\<lparr>ac_output := ac_output (node ns cur) @ [length terms - 1]\<rparr>],
          ac_terms = terms\<rparr>)"

fun add_terms :: "string list \<Rightarrow> aho_corasick \<Rightarrow> aho_corasick" where
  "add_terms [] ac = ac"
| "add_terms (t # ts) ac = (if t = [] then add_terms ts ac else add_terms ts (ac_add (lower t) ac))"

section \<open>Failure links\<close>

text \<open>
  The loop that climbs the failure links, and the same loop in \<open>find\<close>. The links of a built
  automaton lead to shallower nodes, so as many rounds as there are nodes are enough.
\<close>

fun climb :: "nat \<Rightarrow> ac_node list \<Rightarrow> nat \<Rightarrow> char \<Rightarrow> nat" where
  "climb 0 ns f c = f"
| "climb (Suc k) ns f c =
     (if f \<noteq> 0 then (if edge ns f c \<noteq> None then f else climb k ns (ac_fail (node ns f)) c) else f)"

definition fail_of :: "ac_node list \<Rightarrow> nat \<Rightarrow> char \<Rightarrow> nat \<Rightarrow> nat" where
  "fail_of ns cur c n =
     (let f = climb (length ns) ns (ac_fail (node ns cur)) c in
      case edge ns f c of Some nf \<Rightarrow> if nf \<noteq> n then nf else 0 | None \<Rightarrow> 0)"

definition link_child :: "nat \<Rightarrow> char \<times> nat \<Rightarrow> ac_node list \<Rightarrow> ac_node list" where
  "link_child cur cn ns =
     (let (c, n) = cn; ns = ns[n := (node ns n)\<lparr>ac_fail := fail_of ns cur c n\<rparr>]
      in ns[n := (node ns n)\<lparr>ac_output := ac_output (node ns n) @ ac_output (node ns (ac_fail (node ns n)))\<rparr>])"

fun link_children :: "nat \<Rightarrow> (char \<times> nat) list \<Rightarrow> ac_node list \<Rightarrow> ac_node list" where
  "link_children cur [] ns = ns"
| "link_children cur (e # es) ns = link_children cur es (link_child cur e ns)"

text \<open>Each node enters the queue once, so as many rounds as there are nodes empty it.\<close>

fun bfs :: "nat \<Rightarrow> nat list \<Rightarrow> ac_node list \<Rightarrow> ac_node list" where
  "bfs k [] ns = ns"
| "bfs 0 (cur # queue) ns = ns"
| "bfs (Suc k) (cur # queue) ns =
     (let es = ac_next (node ns cur) in bfs k (queue @ map snd es) (link_children cur es ns))"

fun reset_fails :: "(char \<times> nat) list \<Rightarrow> ac_node list \<Rightarrow> ac_node list" where
  "reset_fails [] ns = ns"
| "reset_fails ((c, n) # es) ns = reset_fails es (ns[n := (node ns n)\<lparr>ac_fail := 0\<rparr>])"

definition ac_build :: "aho_corasick \<Rightarrow> aho_corasick" where
  "ac_build ac =
     (let es = ac_next (node (ac_nodes ac) 0); ns = reset_fails es (ac_nodes ac)
      in ac\<lparr>ac_nodes := bfs (length ns) (map snd es) ns\<rparr>)"

definition newAhoCorasick :: "string list \<Rightarrow> aho_corasick" where
  "newAhoCorasick terms = ac_build (add_terms terms \<lparr>ac_nodes = [empty_node], ac_terms = []\<rparr>)"

section \<open>Searching\<close>

record ac_match =
  am_start :: int
  am_end :: int
  am_term :: nat

definition ac_step :: "ac_node list \<Rightarrow> nat \<Rightarrow> char \<Rightarrow> nat" where
  "ac_step ns cur c =
     (let f = climb (length ns) ns cur c in case edge ns f c of Some n \<Rightarrow> n | None \<Rightarrow> 0)"

fun find_loop :: "aho_corasick \<Rightarrow> nat \<Rightarrow> nat \<Rightarrow> string \<Rightarrow> ac_match list" where
  "find_loop ac cur i [] = []"
| "find_loop ac cur i (b # bs) =
     (let cur = ac_step (ac_nodes ac) cur (lower_byte b) in
      map (\<lambda>t. \<lparr>am_start = int i + 1 - int (length (ac_terms ac ! t)), am_end = int i + 1, am_term = t\<rparr>)
        (ac_output (node (ac_nodes ac) cur))
      @ find_loop ac cur (i + 1) bs)"

definition ac_find :: "aho_corasick \<Rightarrow> string \<Rightarrow> ac_match list" where
  "ac_find ac body = (if length (ac_terms ac) = 0 then [] else find_loop ac 0 0 body)"

end
