(* ===== verification/Aho_Corasick_Correct.thy ===== *)
theory Aho_Corasick_Correct
  imports Aho_Corasick "HOL-Library.Sublist"
begin

text \<open>
  The automaton of the custom dictionary is correct: a node stands for a string, its failure link
  for the longest proper suffix that is a node too, its outputs for the terms that end its string,
  and the search reports every occurrence of every term exactly once.
\<close>

section \<open>Longest suffixes\<close>

definition longest :: "string set \<Rightarrow> string \<Rightarrow> string \<Rightarrow> bool" where
  "longest W w u = (u \<in> W \<and> suffix u w \<and> (\<forall>v \<in> W. suffix v w \<longrightarrow> suffix v u))"

definition prefix_closed :: "string set \<Rightarrow> bool" where
  "prefix_closed W = ([] \<in> W \<and> (\<forall>w c. w @ [c] \<in> W \<longrightarrow> w \<in> W))"

lemma longest_snoc:
  assumes W: "prefix_closed W" and s: "longest W w s" and g: "suffix g s" "g @ [c] \<in> W"
    and best: "\<And>v. v \<in> W \<Longrightarrow> suffix v s \<Longrightarrow> v @ [c] \<in> W \<Longrightarrow> suffix v g"
  shows "longest W (w @ [c]) (g @ [c])"
  unfolding longest_def
proof (intro conjI ballI impI)
  show "g @ [c] \<in> W" by (rule g(2))
  have "suffix g w" using g(1) s by (auto simp: longest_def dest: suffix_order.trans)
  then show "suffix (g @ [c]) (w @ [c])" by (auto simp: suffix_def)
  fix v assume v: "v \<in> W" "suffix v (w @ [c])"
  show "suffix v (g @ [c])"
  proof (cases v rule: rev_cases)
    case (snoc v' c')
    with v(2) have "c' = c" "suffix v' w" by (auto simp: suffix_def)
    moreover have "v' \<in> W" using v(1) snoc W by (auto simp: prefix_closed_def)
    ultimately have "suffix v' s" "v' @ [c] \<in> W" using s v(1) snoc by (auto simp: longest_def)
    then have "suffix v' g" using best \<open>v' \<in> W\<close> by blast
    then show ?thesis using snoc \<open>c' = c\<close> by (auto simp: suffix_def)
  qed simp
qed

lemma longest_snoc_none:
  assumes W: "prefix_closed W" and s: "longest W w s"
    and none: "\<And>v. v \<in> W \<Longrightarrow> suffix v s \<Longrightarrow> v @ [c] \<notin> W"
  shows "longest W (w @ [c]) []"
  unfolding longest_def
proof (intro conjI ballI impI)
  show "[] \<in> W" using W by (simp add: prefix_closed_def)
  fix v assume v: "v \<in> W" "suffix v (w @ [c])"
  show "suffix v []"
  proof (cases v rule: rev_cases)
    case (snoc v' c')
    with v(2) have "c' = c" "suffix v' w" by (auto simp: suffix_def)
    moreover have "v' \<in> W" using v(1) snoc W by (auto simp: prefix_closed_def)
    ultimately have False using s none v(1) snoc by (auto simp: longest_def)
    then show ?thesis ..
  qed simp
qed simp

lemma suffix_tl_self: "suffix (tl v) v"
  by (cases v) (auto simp: suffix_Cons)

lemma suffix_tl: "suffix u v \<Longrightarrow> u \<noteq> v \<Longrightarrow> suffix u (tl v)"
  by (cases v) (auto simp: suffix_Cons)

section \<open>The trie\<close>

text \<open>\<open>path i\<close> is the string of node \<open>i\<close>.\<close>

definition trie :: "ac_node list \<Rightarrow> (nat \<Rightarrow> string) \<Rightarrow> bool" where
  "trie ns path =
     (ns \<noteq> [] \<and> path 0 = [] \<and> inj_on path {..<length ns}
      \<and> (\<forall>i < length ns. distinct (map fst (ac_next (node ns i))))
      \<and> (\<forall>i < length ns. \<forall>c j. edge ns i c = Some j \<longleftrightarrow> j < length ns \<and> path j = path i @ [c])
      \<and> (\<forall>j < length ns. path j \<noteq> [] \<longrightarrow> (\<exists>i < length ns. path i = butlast (path j))))"

definition node_words :: "ac_node list \<Rightarrow> (nat \<Rightarrow> string) \<Rightarrow> string set" where
  "node_words ns path = path ` {..<length ns}"

lemma trie_edge: "trie ns path \<Longrightarrow> i < length ns \<Longrightarrow> edge ns i c = Some j \<longleftrightarrow> j < length ns \<and> path j = path i @ [c]"
  by (simp add: trie_def)

lemma trie_parent:
  assumes "trie ns path" "j < length ns" "path j = w @ [c]"
  shows "\<exists>i < length ns. path i = w"
proof -
  have "path j \<noteq> []" using assms(3) by simp
  then have "\<exists>i < length ns. path i = butlast (path j)" using assms(1,2) by (simp add: trie_def)
  then show ?thesis using assms(3) by simp
qed

lemma trie_no_edge:
  assumes "trie ns path" "i < length ns"
  shows "edge ns i c = None \<longleftrightarrow> path i @ [c] \<notin> node_words ns path"
proof -
  have "edge ns i c \<noteq> None \<longleftrightarrow> (\<exists>j < length ns. path j = path i @ [c])" using trie_edge [OF assms, of c] by auto
  also have "\<dots> \<longleftrightarrow> path i @ [c] \<in> node_words ns path" unfolding node_words_def image_iff by (metis lessThan_iff)
  finally show ?thesis by blast
qed

lemma node_words_prefix_closed: "trie ns path \<Longrightarrow> prefix_closed (node_words ns path)"
  unfolding prefix_closed_def
proof (intro conjI allI impI)
  assume t: "trie ns path"
  then show "[] \<in> node_words ns path" by (auto simp: trie_def node_words_def intro!: image_eqI [of _ _ 0])
  fix w c assume "w @ [c] \<in> node_words ns path"
  then obtain j where "j < length ns" "path j = w @ [c]" by (metis (no_types) imageE lessThan_iff node_words_def)
  then obtain i where "i < length ns" "path i = w" using trie_parent [OF t] by blast
  then show "w \<in> node_words ns path" by (auto simp: node_words_def)
qed

lemma path_inj: "trie ns path \<Longrightarrow> i < length ns \<Longrightarrow> j < length ns \<Longrightarrow> path i = path j \<Longrightarrow> i = j"
  by (auto simp: trie_def dest: inj_onD)

lemma path_nil: "trie ns path \<Longrightarrow> i < length ns \<Longrightarrow> path i = [] \<longleftrightarrow> i = 0"
  using path_inj [of ns path i 0] by (auto simp: trie_def)

lemma prefix_closed_take: "prefix_closed W \<Longrightarrow> w \<in> W \<Longrightarrow> take k w \<in> W"
proof (induction w rule: rev_induct)
  case (snoc c w)
  then show ?case by (cases "k \<le> length w") (auto simp: prefix_closed_def)
qed simp

text \<open>A node is not deeper than there are nodes.\<close>

lemma path_length:
  assumes "trie ns path" "i < length ns"
  shows "length (path i) < length ns"
proof -
  let ?W = "node_words ns path" and ?p = "path i"
  have fin: "finite ?W" by (simp add: node_words_def)
  have "card ?W \<le> length ns" unfolding node_words_def by (metis card_image_le card_lessThan finite_lessThan)
  moreover have "(\<lambda>k. take k ?p) ` {..length ?p} \<subseteq> ?W"
    using prefix_closed_take [OF node_words_prefix_closed [OF assms(1)]] assms(2) by (auto simp: node_words_def)
  then have "card ((\<lambda>k. take k ?p) ` {..length ?p}) \<le> card ?W" by (rule card_mono [OF fin])
  moreover have "inj_on (\<lambda>k. take k ?p) {..length ?p}"
    by (rule inj_onI) (metis atMost_iff length_take min.absorb2)
  then have "card ((\<lambda>k. take k ?p) ` {..length ?p}) = Suc (length ?p)" by (simp add: card_image)
  ultimately show ?thesis by linarith
qed

section \<open>Adding terms keeps a trie\<close>

lemma node_update: "i < length ns \<Longrightarrow> node (ns[i := x]) j = (if j = i then x else node ns j)"
  by (simp add: node_def nth_list_update)

lemma node_append: "i < length ns \<Longrightarrow> node (ns @ xs) i = node ns i" "node (ns @ [x]) (length ns) = x"
  by (simp_all add: node_def nth_append)

lemma edge_cong: "ac_next (node ns i) = ac_next (node ms i) \<Longrightarrow> edge ns i = edge ms i"
  by (simp add: edge_def fun_eq_iff)

definition grown :: "ac_node list \<Rightarrow> nat \<Rightarrow> char \<Rightarrow> ac_node list" where
  "grown ns cur c =
     (ns @ [empty_node])[cur := (node (ns @ [empty_node]) cur)\<lparr>ac_next := ac_next (node (ns @ [empty_node]) cur) @ [(c, length ns)]\<rparr>]"

lemma grown_facts:
  assumes "cur < length ns"
  shows "length (grown ns cur c) = Suc (length ns)"
    "i < length ns \<Longrightarrow> ac_output (node (grown ns cur c) i) = ac_output (node ns i)"
    "ac_output (node (grown ns cur c) (length ns)) = []"
    "ac_next (node (grown ns cur c) cur) = ac_next (node ns cur) @ [(c, length ns)]"
    "i < length ns \<Longrightarrow> i \<noteq> cur \<Longrightarrow> ac_next (node (grown ns cur c) i) = ac_next (node ns i)"
    "ac_next (node (grown ns cur c) (length ns)) = []"
  using assms by (auto simp: grown_def node_update node_append empty_node_def)

lemma edge_None_fst: "edge ns i c = None \<longleftrightarrow> c \<notin> fst ` set (ac_next (node ns i))"
  by (simp add: edge_def map_of_eq_None_iff)

lemma grown_edge:
  assumes "cur < length ns" "edge ns cur c = None"
  shows "edge (grown ns cur c) cur d = (if d = c then Some (length ns) else edge ns cur d)"
    "i < length ns \<Longrightarrow> i \<noteq> cur \<Longrightarrow> edge (grown ns cur c) i d = edge ns i d"
    "edge (grown ns cur c) (length ns) d = None"
  using assms by (auto simp: edge_def grown_facts [OF assms(1)] map_add_def split: option.splits)

lemma grown_trie:
  assumes t: "trie ns path" and cur: "cur < length ns" and none: "edge ns cur c = None"
  shows "trie (grown ns cur c) (path(length ns := path cur @ [c]))"
proof -
  let ?n = "length ns" and ?ns = "grown ns cur c" and ?path = "path(length ns := path cur @ [c])"
  have new: "path cur @ [c] \<noteq> path j" if "j < ?n" for j
    using none trie_edge [OF t cur, of c j] that by auto
  have e: "edge ?ns i d = Some j \<longleftrightarrow> j < Suc ?n \<and> ?path j = ?path i @ [d]" if i: "i < Suc ?n" for i d j
  proof (cases "i = ?n")
    case True
    have "?path j \<noteq> path cur @ [c] @ [d]" if "j < Suc ?n"
    proof
      assume eq: "?path j = path cur @ [c] @ [d]"
      show False
      proof (cases "j = ?n")
        case False
        with eq that have "path j = (path cur @ [c]) @ [d]" "j < ?n" by auto
        then obtain k where "k < ?n" "path k = path cur @ [c]" using trie_parent [OF t] by blast
        then show False using new by metis
      qed (use eq in simp)
    qed
    with True grown_edge(3) [OF cur none] show ?thesis by auto
  next
    case False
    with i have i: "i < ?n" by simp
    show ?thesis
    proof (cases "j = ?n")
      case True
      have "path cur @ [c] = path i @ [d] \<longleftrightarrow> i = cur \<and> d = c" using path_inj [OF t i cur] by auto
      moreover have "edge ns i d \<noteq> Some ?n" using trie_edge [OF t i, of d ?n] by simp
      ultimately show ?thesis
        using True i grown_edge(1,2) [OF cur none] by (cases "i = cur") auto
    next
      case False
      then show ?thesis
        using i trie_edge [OF t i, of d j] grown_edge(1,2) [OF cur none] new none trie_edge [OF t cur, of c j]
        by (cases "i = cur") auto
    qed
  qed
  have "distinct (map fst (ac_next (node ?ns i)))" if "i < Suc ?n" for i
  proof -
    consider "i = ?n" | "i = cur" | "i < ?n" "i \<noteq> cur" using \<open>i < Suc ?n\<close> by linarith
    then show ?thesis
      by cases (use t cur none in \<open>auto simp: grown_facts [OF cur] trie_def edge_None_fst\<close>)
  qed
  moreover have "inj_on ?path {..<Suc ?n}"
    unfolding lessThan_Suc using path_inj [OF t] new by (auto simp: inj_on_def) metis+
  moreover have "\<exists>i < Suc ?n. ?path i = butlast (?path j)" if "j < Suc ?n" "?path j \<noteq> []" for j
  proof (cases "j = ?n")
    case True
    with cur show ?thesis by (intro exI [of _ cur]) auto
  next
    case False
    with that obtain i where "i < ?n" "path i = butlast (path j)"
      using trie_parent [OF t, of j "butlast (path j)" "last (path j)"] by auto
    with False show ?thesis by (intro exI [of _ i]) auto
  qed
  moreover have "?path 0 = []" using t cur by (auto simp: trie_def)
  moreover have "?ns \<noteq> []" using grown_facts(1) [OF cur, of c] by auto
  ultimately show ?thesis using e by (simp add: trie_def grown_facts(1) [OF cur])
qed

lemma add_loop_Cons: "add_loop ns cur (c # cs) =
    (case edge ns cur c of Some j \<Rightarrow> add_loop ns j cs | None \<Rightarrow> add_loop (grown ns cur c) (length ns) cs)"
  by (cases "edge ns cur c") (simp_all add: grown_def Let_def)

lemma add_loop_trie:
  "trie ns path \<Longrightarrow> cur < length ns \<Longrightarrow> add_loop ns cur term = (ns', cur') \<Longrightarrow>
   \<exists>path'. trie ns' path' \<and> cur' < length ns' \<and> path' cur' = path cur @ term \<and> length ns \<le> length ns'
     \<and> (\<forall>i < length ns. path' i = path i)
     \<and> (\<forall>i < length ns'. ac_output (node ns' i) = (if i < length ns then ac_output (node ns i) else []))"
proof (induction "term" arbitrary: path ns cur)
  case (Cons c cs)
  show ?case
  proof (cases "edge ns cur c")
    case (Some j)
    then have j: "j < length ns" "path j = path cur @ [c]" using trie_edge [OF Cons.prems(1,2)] by auto
    have "add_loop ns j cs = (ns', cur')" using Cons.prems(3) Some by simp
    from Cons.IH [OF Cons.prems(1) j(1) this] j(2) show ?thesis by auto
  next
    case None
    let ?n = "length ns" and ?ns = "grown ns cur c" and ?path = "path(length ns := path cur @ [c])"
    note gf = grown_facts [OF Cons.prems(2)]
    have run: "add_loop ?ns ?n cs = (ns', cur')" using Cons.prems(3) None by (simp add: add_loop_Cons del: add_loop.simps)
    have t: "trie ?ns ?path" by (rule grown_trie [OF Cons.prems(1,2) None])
    have n: "?n < length ?ns" by (simp add: gf)
    obtain path' where p: "trie ns' path'" "cur' < length ns'" "path' cur' = ?path ?n @ cs" "length ?ns \<le> length ns'"
      "\<forall>i < length ?ns. path' i = ?path i"
      "\<forall>i < length ns'. ac_output (node ns' i) = (if i < length ?ns then ac_output (node ?ns i) else [])"
      using Cons.IH [OF t n run] by blast
    have "ac_output (node ns' i) = (if i < ?n then ac_output (node ns i) else [])" if "i < length ns'" for i
      using p(6) that gf(1-3) by (cases "i = ?n") auto
    moreover have "\<forall>i < ?n. path' i = path i" using p(5) by (simp add: gf)
    ultimately show ?thesis using p by (intro exI [of _ path']) (simp add: gf(1))
  qed
qed auto

text \<open>
  What adding terms establishes: a trie in which each node's outputs are the indices of the terms it
  stands for.
\<close>

definition raw_output :: "string list \<Rightarrow> (nat \<Rightarrow> string) \<Rightarrow> ac_node list \<Rightarrow> nat \<Rightarrow> bool" where
  "raw_output ts path ns i =
     (set (ac_output (node ns i)) = {t. t < length ts \<and> ts ! t = path i} \<and> distinct (ac_output (node ns i)))"

definition dictionary :: "aho_corasick \<Rightarrow> (nat \<Rightarrow> string) \<Rightarrow> bool" where
  "dictionary ac path =
     (trie (ac_nodes ac) path \<and> [] \<notin> set (ac_terms ac) \<and> set (ac_terms ac) \<subseteq> node_words (ac_nodes ac) path
      \<and> (\<forall>i < length (ac_nodes ac). raw_output (ac_terms ac) path (ac_nodes ac) i))"

lemma trie_cong:
  assumes "trie ns path" "length ms = length ns" "\<And>i. i < length ns \<Longrightarrow> ac_next (node ms i) = ac_next (node ns i)"
  shows "trie ms path"
proof -
  have "edge ms i = edge ns i" if "i < length ns" for i using assms(3) [OF that] by (rule edge_cong)
  then show ?thesis using assms by (auto simp: trie_def)
qed

lemma node_output_update:
  "i < length ns \<Longrightarrow> j < length ns \<Longrightarrow>
     ac_next (node (ns[i := (node ns i)\<lparr>ac_output := out\<rparr>]) j) = ac_next (node ns j)
   \<and> ac_output (node (ns[i := (node ns i)\<lparr>ac_output := out\<rparr>]) j) = (if j = i then out else ac_output (node ns j))"
  by (simp add: node_update)

lemma indices_snoc:
  "{t. t < length (ts @ [x]) \<and> (ts @ [x]) ! t = w} = {t. t < length ts \<and> ts ! t = w} \<union> (if x = w then {length ts} else {})"
  by (auto simp: nth_append less_Suc_eq split: if_splits)

lemma ac_add_dictionary:
  assumes d: "dictionary ac path" and "term": "term \<noteq> []"
  shows "\<exists>path'. dictionary (ac_add term ac) path' \<and> ac_terms (ac_add term ac) = ac_terms ac @ [term]"
proof -
  let ?ts = "ac_terms ac"
  have t: "trie (ac_nodes ac) path" and pos: "0 < length (ac_nodes ac)" "path 0 = []"
    using d by (auto simp: dictionary_def trie_def)
  obtain ns cur where run: "add_loop (ac_nodes ac) 0 term = (ns, cur)" by fastforce
  obtain path' where p: "trie ns path'" "cur < length ns" "path' cur = term" "length (ac_nodes ac) \<le> length ns"
      "\<forall>i < length (ac_nodes ac). path' i = path i"
      "\<forall>i < length ns. ac_output (node ns i) = (if i < length (ac_nodes ac) then ac_output (node (ac_nodes ac) i) else [])"
    using add_loop_trie [OF t pos(1) run] pos(2) by auto
  define out where "out = ac_output (node ns cur) @ [length ?ts]"
  define ms where "ms = ns[cur := (node ns cur)\<lparr>ac_output := out\<rparr>]"
  have add: "ac_add term ac = \<lparr>ac_nodes = ms, ac_terms = ?ts @ [term]\<rparr>"
    by (simp add: ac_add_def run Let_def ms_def out_def)
  note ms = node_output_update [OF p(2), of _ out, folded ms_def]
  have len: "length ms = length ns" by (simp add: ms_def)
  have t': "trie ms path'" by (rule trie_cong [OF p(1) len]) (use ms in simp)
  have old: "w \<in> node_words ns path'" if "w \<in> node_words (ac_nodes ac) path" for w
    using that p(4,5) by (auto simp: node_words_def image_iff) (metis order_less_le_trans lessThan_iff)
  have term_in: "term \<in> node_words ns path'" using p(2,3) by (auto simp: node_words_def)
  have raw: "set (ac_output (node ns i)) = {t. t < length ?ts \<and> ?ts ! t = path' i} \<and> distinct (ac_output (node ns i))"
    if i: "i < length ns" for i
  proof (cases "i < length (ac_nodes ac)")
    case True
    then show ?thesis using d p(5,6) i by (simp add: dictionary_def raw_output_def)
  next
    case False
    have "path' i \<notin> set ?ts"
    proof
      assume "path' i \<in> set ?ts"
      then have "path' i \<in> node_words (ac_nodes ac) path" using d by (auto simp: dictionary_def)
      then obtain j where "j < length (ac_nodes ac)" "path' i = path j" by (auto simp: node_words_def)
      then have "i = j" using path_inj [OF p(1) i, of j] p(4,5) by auto
      then show False using False \<open>j < length (ac_nodes ac)\<close> by simp
    qed
    then show ?thesis using False p(6) i by (auto simp: in_set_conv_nth)
  qed
  have "raw_output (?ts @ [term]) path' ms i" if i: "i < length ns" for i
  proof (cases "i = cur")
    case True
    then have "ac_output (node ms i) = ac_output (node ns i) @ [length ?ts]" using ms [OF i] by (simp add: out_def)
    then show ?thesis using raw [OF i] True p(3) unfolding raw_output_def indices_snoc by simp
  next
    case False
    then have "path' i \<noteq> term" using path_inj [OF p(1) i p(2)] p(3) by auto
    then show ?thesis using False ms [OF i] raw [OF i] unfolding raw_output_def indices_snoc by simp
  qed
  moreover have "node_words ms path' = node_words ns path'" by (simp add: node_words_def len)
  ultimately have "dictionary (ac_add term ac) path'"
    using t' d old term_in "term" by (auto simp: dictionary_def add len)
  then show ?thesis by (auto simp: add)
qed

lemma lower_nil [simp]: "lower t = [] \<longleftrightarrow> t = []" "[] = lower t \<longleftrightarrow> t = []"
  by (auto simp: lower_def)

lemma add_terms_dictionary:
  "dictionary ac path \<Longrightarrow> \<exists>path'. dictionary (add_terms ts ac) path'
     \<and> ac_terms (add_terms ts ac) = ac_terms ac @ map lower (filter (\<lambda>t. t \<noteq> []) ts)"
proof (induction ts arbitrary: ac path)
  case (Cons t ts)
  show ?case
  proof (cases "t = []")
    case False
    then obtain path' where p: "dictionary (ac_add (lower t) ac) path'" "ac_terms (ac_add (lower t) ac) = ac_terms ac @ [lower t]"
      using ac_add_dictionary [OF Cons.prems, of "lower t"] by auto
    then show ?thesis using Cons.IH [OF p(1)] False by auto
  qed (use Cons in simp)
qed auto

lemma empty_dictionary: "dictionary \<lparr>ac_nodes = [empty_node], ac_terms = []\<rparr> (\<lambda>_. [])"
  by (auto simp: dictionary_def trie_def raw_output_def node_def edge_def empty_node_def lessThan_Suc)

section \<open>Failure links\<close>

text \<open>
  A linked node: its failure link leads to the longest proper suffix of its string that is a node's
  string, and its outputs are the terms that end its string, each once.
\<close>

definition linked :: "string list \<Rightarrow> (nat \<Rightarrow> string) \<Rightarrow> ac_node list \<Rightarrow> nat \<Rightarrow> bool" where
  "linked ts path ns i =
     ((path i \<noteq> [] \<longrightarrow> ac_fail (node ns i) < length ns \<and> longest (node_words ns path) (tl (path i)) (path (ac_fail (node ns i))))
      \<and> set (ac_output (node ns i)) = {t. t < length ts \<and> suffix (ts ! t) (path i)} \<and> distinct (ac_output (node ns i)))"

definition linked_to :: "nat \<Rightarrow> string list \<Rightarrow> (nat \<Rightarrow> string) \<Rightarrow> ac_node list \<Rightarrow> bool" where
  "linked_to d ts path ns = (\<forall>i < length ns. length (path i) \<le> d \<longrightarrow> linked ts path ns i)"

lemma linked_cong: "length ms = length ns \<Longrightarrow> node ms i = node ns i \<Longrightarrow> linked ts path ms i = linked ts path ns i"
  by (simp add: linked_def node_words_def)

lemma linked_fail:
  assumes "linked_to d ts path ns" "f < length ns" "length (path f) \<le> d" "path f \<noteq> []"
  shows "ac_fail (node ns f) < length ns" "longest (node_words ns path) (tl (path f)) (path (ac_fail (node ns f)))"
    "length (path (ac_fail (node ns f))) < length (path f)"
proof -
  show 1: "ac_fail (node ns f) < length ns" "longest (node_words ns path) (tl (path f)) (path (ac_fail (node ns f)))"
    using assms by (auto simp: linked_to_def linked_def)
  then have "length (path (ac_fail (node ns f))) \<le> length (tl (path f))" by (auto simp: longest_def dest: suffix_length_le)
  then show "length (path (ac_fail (node ns f))) < length (path f)" using assms(4) by (cases "path f") auto
qed

text \<open>Climbing from a node finds the longest suffix of its string that the byte extends.\<close>

lemma climb_spec:
  assumes t: "trie ns path" and l: "linked_to d ts path ns"
  shows "f < length ns \<Longrightarrow> length (path f) \<le> d \<Longrightarrow> length (path f) < k \<Longrightarrow>
    climb k ns f c < length ns \<and> suffix (path (climb k ns f c)) (path f)
    \<and> (\<forall>v \<in> node_words ns path. suffix v (path f) \<and> v @ [c] \<in> node_words ns path \<longrightarrow> suffix v (path (climb k ns f c)))
    \<and> (climb k ns f c = 0 \<or> edge ns (climb k ns f c) c \<noteq> None)"
proof (induction k arbitrary: f)
  case (Suc k)
  show ?case
  proof (cases "f = 0 \<or> edge ns f c \<noteq> None")
    case True
    then have "climb (Suc k) ns f c = f" by auto
    then show ?thesis using Suc.prems(1) True by simp
  next
    case False
    then have step: "climb (Suc k) ns f c = climb k ns (ac_fail (node ns f)) c" and f: "path f \<noteq> []"
      using path_nil [OF t Suc.prems(1)] by auto
    note fl = linked_fail [OF l Suc.prems(1,2) f]
    have IH: "climb k ns (ac_fail (node ns f)) c < length ns"
      "suffix (path (climb k ns (ac_fail (node ns f)) c)) (path (ac_fail (node ns f)))"
      "\<And>v. v \<in> node_words ns path \<Longrightarrow> suffix v (path (ac_fail (node ns f))) \<Longrightarrow> v @ [c] \<in> node_words ns path
         \<Longrightarrow> suffix v (path (climb k ns (ac_fail (node ns f)) c))"
      "climb k ns (ac_fail (node ns f)) c = 0 \<or> edge ns (climb k ns (ac_fail (node ns f)) c) c \<noteq> None"
      using Suc.IH [OF fl(1)] fl(3) Suc.prems(2,3) by auto
    have "suffix (path (ac_fail (node ns f))) (path f)"
      using fl(2) by (auto simp: longest_def intro: suffix_order.trans suffix_tl_self)
    then have "suffix (path (climb k ns (ac_fail (node ns f)) c)) (path f)" using IH(2) suffix_order.trans by blast
    moreover have "suffix v (path (climb k ns (ac_fail (node ns f)) c))"
      if v: "v \<in> node_words ns path" "suffix v (path f)" "v @ [c] \<in> node_words ns path" for v
    proof -
      have "v \<noteq> path f" using v(3) False trie_no_edge [OF t Suc.prems(1), of c] by auto
      then have "suffix v (tl (path f))" by (rule suffix_tl [OF v(2)])
      then have "suffix v (path (ac_fail (node ns f)))" using fl(2) v(1) by (simp add: longest_def)
      then show ?thesis using IH(3) v by blast
    qed
    ultimately show ?thesis unfolding step using IH(1,4) by blast
  qed
qed simp

definition ac_goto :: "ac_node list \<Rightarrow> nat \<Rightarrow> char \<Rightarrow> nat" where
  "ac_goto ns f c = (case edge ns (climb (length ns) ns f c) c of Some n \<Rightarrow> n | None \<Rightarrow> 0)"

lemma goto_spec:
  assumes t: "trie ns path" and l: "linked_to d ts path ns" and f: "f < length ns" "length (path f) \<le> d"
    and w: "longest (node_words ns path) w (path f)"
  shows "ac_goto ns f c < length ns \<and> longest (node_words ns path) (w @ [c]) (path (ac_goto ns f c))
    \<and> length (path (ac_goto ns f c)) \<le> Suc (length (path f))"
proof -
  define g where "g = climb (length ns) ns f c"
  have g: "g < length ns" "suffix (path g) (path f)"
    "\<And>v. v \<in> node_words ns path \<Longrightarrow> suffix v (path f) \<Longrightarrow> v @ [c] \<in> node_words ns path \<Longrightarrow> suffix v (path g)"
    "g = 0 \<or> edge ns g c \<noteq> None"
    using climb_spec [OF t l f path_length [OF t f(1)], of c] by (auto simp: g_def)
  note W = node_words_prefix_closed [OF t]
  show ?thesis
  proof (cases "edge ns g c")
    case (Some n)
    then have n: "n < length ns" "path n = path g @ [c]" using trie_edge [OF t g(1)] by auto
    have "path g @ [c] \<in> node_words ns path" using n by (auto simp: node_words_def intro: image_eqI [of _ _ n])
    then have "longest (node_words ns path) (w @ [c]) (path g @ [c])" by (rule longest_snoc [OF W w g(2)]) (rule g(3))
    moreover have "length (path g) \<le> length (path f)" using g(2) by (rule suffix_length_le)
    ultimately show ?thesis using n Some by (simp add: ac_goto_def g_def [symmetric])
  next
    case None
    then have "g = 0" using g(4) by simp
    then have nil: "path g = []" using t by (simp add: trie_def)
    have "v @ [c] \<notin> node_words ns path" if "v \<in> node_words ns path" "suffix v (path f)" for v
    proof
      assume "v @ [c] \<in> node_words ns path"
      with g(3) that nil have "v = []" by fastforce
      with \<open>v @ [c] \<in> node_words ns path\<close> nil None trie_no_edge [OF t g(1), of c] show False by simp
    qed
    then have "longest (node_words ns path) (w @ [c]) []" by (rule longest_snoc_none [OF W w])
    then show ?thesis using None t by (simp add: ac_goto_def g_def [symmetric] trie_def)
  qed
qed

section \<open>Linking a child\<close>

definition terms_ok :: "string list \<Rightarrow> (nat \<Rightarrow> string) \<Rightarrow> ac_node list \<Rightarrow> bool" where
  "terms_ok ts path ns = ([] \<notin> set ts \<and> set ts \<subseteq> node_words ns path)"

lemma outputs_of_linked:
  assumes "terms_ok ts path ns" "path n \<noteq> []" "longest (node_words ns path) (tl (path n)) u"
  shows "{t. t < length ts \<and> suffix (ts ! t) (path n)} =
     {t. t < length ts \<and> ts ! t = path n} \<union> {t. t < length ts \<and> suffix (ts ! t) u}"
    "{t. t < length ts \<and> ts ! t = path n} \<inter> {t. t < length ts \<and> suffix (ts ! t) u} = {}"
proof -
  have w: "ts ! t \<in> node_words ns path" if "t < length ts" for t using assms(1) that by (auto simp: terms_ok_def)
  have u: "suffix u (tl (path n))" and best: "\<And>v. v \<in> node_words ns path \<Longrightarrow> suffix v (tl (path n)) \<Longrightarrow> suffix v u"
    using assms(3) by (auto simp: longest_def)
  have "suffix (ts ! t) (path n) \<longleftrightarrow> ts ! t = path n \<or> suffix (ts ! t) u" if t: "t < length ts" for t
    using suffix_tl [of "ts ! t" "path n"] best [OF w [OF t]] u suffix_tl_self [of "path n"]
    by (metis suffix_order.refl suffix_order.trans)
  then show "{t. t < length ts \<and> suffix (ts ! t) (path n)} =
     {t. t < length ts \<and> ts ! t = path n} \<union> {t. t < length ts \<and> suffix (ts ! t) u}" by auto
  have "\<not> suffix (path n) u"
    using suffix_length_le [OF u] suffix_length_le [of "path n" u] assms(2) by (cases "path n") auto
  then show "{t. t < length ts \<and> ts ! t = path n} \<inter> {t. t < length ts \<and> suffix (ts ! t) u} = {}" by auto
qed

lemma link_child_spec:
  assumes t: "trie ns path" and l: "linked_to d ts path ns" and ts: "terms_ok ts path ns"
    and cur: "cur < length ns" "length (path cur) = d" "0 < d" and e: "edge ns cur c = Some n"
    and raw: "raw_output ts path ns n"
  shows "length (link_child cur (c, n) ns) = length ns"
    "j \<noteq> n \<Longrightarrow> node (link_child cur (c, n) ns) j = node ns j"
    "ac_next (node (link_child cur (c, n) ns) j) = ac_next (node ns j)"
    "linked ts path (link_child cur (c, n) ns) n"
proof -
  have n: "n < length ns" "path n = path cur @ [c]" using trie_edge [OF t cur(1), of c n] e by auto
  have ne: "path cur \<noteq> []" using cur(2,3) by auto
  define f where "f = ac_goto ns (ac_fail (node ns cur)) c"
  have "length (path cur) \<le> d" using cur(2) by simp
  note fl = linked_fail [OF l cur(1) this ne]
  have "length (path (ac_fail (node ns cur))) \<le> d" using fl(3) cur(2) by simp
  from goto_spec [OF t l fl(1) this fl(2), of c]
  have f: "f < length ns" "longest (node_words ns path) (tl (path cur) @ [c]) (path f)" "length (path f) \<le> d"
    using fl(3) cur(2) by (auto simp: f_def)
  have tl: "tl (path n) = tl (path cur) @ [c]" using n(2) ne by simp
  have "f \<noteq> n" using f(3) n(2) cur(2) by auto
  then have fail: "fail_of ns cur c n = f"
    by (simp add: fail_of_def f_def ac_goto_def Let_def split: option.splits)
  have res: "link_child cur (c, n) ns = ns[n := (node ns n)\<lparr>ac_fail := f,
      ac_output := ac_output (node ns n) @ ac_output (node ns f)\<rparr>]"
    using n(1) \<open>f \<noteq> n\<close> by (simp add: link_child_def Let_def fail node_update)
  show "length (link_child cur (c, n) ns) = length ns" by (simp add: res)
  show "j \<noteq> n \<Longrightarrow> node (link_child cur (c, n) ns) j = node ns j" using n(1) by (simp add: res node_update)
  show "ac_next (node (link_child cur (c, n) ns) j) = ac_next (node ns j)" using n(1) by (simp add: res node_update)
  have lf: "linked ts path ns f" using l f(1,3) by (simp add: linked_to_def)
  have "path n \<noteq> []" by (simp add: n(2))
  note out = outputs_of_linked [of ts path ns n, OF ts this f(2) [folded tl]]
  have "set (ac_output (node ns n) @ ac_output (node ns f)) = {t. t < length ts \<and> suffix (ts ! t) (path n)}"
    "distinct (ac_output (node ns n) @ ac_output (node ns f))"
    using raw lf out by (auto simp: raw_output_def linked_def)
  then show "linked ts path (link_child cur (c, n) ns) n"
    using f(1,2) n(1) tl by (simp add: res linked_def node_update node_words_def)
qed

text \<open>The children of one node: what the loop leaves.\<close>

definition same_shape :: "ac_node list \<Rightarrow> ac_node list \<Rightarrow> bool" where
  "same_shape ns ms = (length ms = length ns \<and> (\<forall>i. ac_next (node ms i) = ac_next (node ns i)))"

lemma same_shapeD:
  assumes "same_shape ns ms"
  shows "length ms = length ns" "edge ms i = edge ns i" "node_words ms path = node_words ns path" "terms_ok ts path ms = terms_ok ts path ns"
  using assms edge_cong [of ms i ns] by (auto simp: same_shape_def node_words_def terms_ok_def)

lemma same_shape_trie: "same_shape ns ms \<Longrightarrow> trie ns path \<Longrightarrow> trie ms path"
  by (rule trie_cong) (auto simp: same_shape_def)

lemma same_shape_trans: "same_shape ns ms \<Longrightarrow> same_shape ms ks \<Longrightarrow> same_shape ns ks"
  by (simp add: same_shape_def)

lemma link_children_spec:
  assumes "trie ns path" "linked_to d ts path ns" "terms_ok ts path ns"
    "cur < length ns" "length (path cur) = d" "0 < d"
    "\<forall>(c, n) \<in> set es. edge ns cur c = Some n" "distinct (map snd es)" "\<forall>(c, n) \<in> set es. raw_output ts path ns n"
  shows "same_shape ns (link_children cur es ns)
    \<and> (\<forall>j. j \<notin> snd ` set es \<longrightarrow> node (link_children cur es ns) j = node ns j)
    \<and> (\<forall>j \<in> snd ` set es. linked ts path (link_children cur es ns) j)"
  using assms
proof (induction es arbitrary: ns)
  case Nil
  then show ?case by (simp add: same_shape_def)
next
  case (Cons en es)
  obtain c n where en: "en = (c, n)" by (cases en)
  let ?ms = "link_child cur (c, n) ns"
  have e: "edge ns cur c = Some n" and raw: "raw_output ts path ns n" using Cons.prems(7,9) en by auto
  note one = link_child_spec [OF Cons.prems(1-6) e raw]
  have n: "n < length ns" "path n = path cur @ [c]" using trie_edge [OF Cons.prems(1,4), of c n] e by auto
  have shape: "same_shape ns ?ms" using one(1,3) by (simp add: same_shape_def)
  note sh = same_shapeD [OF shape]
  have "linked_to d ts path ?ms"
    unfolding linked_to_def
  proof (intro allI impI)
    fix i assume i: "i < length ?ms" "length (path i) \<le> d"
    then have "i \<noteq> n" using n(2) Cons.prems(5) by auto
    then show "linked ts path ?ms i"
      using linked_cong [of ?ms ns i ts path] one(1,2) Cons.prems(2) i by (simp add: linked_to_def)
  qed
  moreover have "\<forall>(c', m) \<in> set es. raw_output ts path ?ms m"
    using Cons.prems(8,9) one(2) en by (fastforce simp: raw_output_def)
  ultimately have IH: "same_shape ?ms (link_children cur es ?ms)
    \<and> (\<forall>j. j \<notin> snd ` set es \<longrightarrow> node (link_children cur es ?ms) j = node ?ms j)
    \<and> (\<forall>j \<in> snd ` set es. linked ts path (link_children cur es ?ms) j)"
    using Cons.prems(3-8) sh en by (intro Cons.IH same_shape_trie [OF shape Cons.prems(1)]) auto
  have "n \<notin> snd ` set es" using Cons.prems(8) en by simp
  then have keep: "node (link_children cur es ?ms) n = node ?ms n" "length (link_children cur es ?ms) = length ?ms"
    using IH same_shapeD(1) by blast+
  then have ln: "linked ts path (link_children cur es ?ms) n" using linked_cong [OF keep(2,1)] one(4) by simp
  have run: "link_children cur (en # es) ns = link_children cur es ?ms" by (simp add: en)
  have "node (link_children cur es ?ms) j = node ns j" if "j \<notin> snd ` set (en # es)" for j
    using IH that one(2) en by auto
  then show ?case unfolding run using IH ln same_shape_trans [OF shape] en by auto
qed

section \<open>The search of the trie\<close>

definition bfs_inv :: "string list \<Rightarrow> (nat \<Rightarrow> string) \<Rightarrow> ac_node list \<Rightarrow> nat \<Rightarrow> nat list \<Rightarrow> nat list \<Rightarrow> bool" where
  "bfs_inv ts path ns d q1 q2 =
     (trie ns path \<and> terms_ok ts path ns \<and> 0 < d \<and> distinct q1 \<and> distinct q2
      \<and> set q1 \<subseteq> {i. i < length ns \<and> length (path i) = d}
      \<and> set q2 = {j. j < length ns \<and> length (path j) = Suc d \<and> (\<forall>i \<in> set q1. path i \<noteq> butlast (path j))}
      \<and> linked_to d ts path ns \<and> (\<forall>j \<in> set q2. linked ts path ns j)
      \<and> (\<forall>i < length ns. d < length (path i) \<longrightarrow> i \<notin> set q2 \<longrightarrow> raw_output ts path ns i))"

lemma children:
  assumes t: "trie ns path" and cur: "cur < length ns"
  shows "\<forall>(c, n) \<in> set (ac_next (node ns cur)). edge ns cur c = Some n"
    "distinct (map snd (ac_next (node ns cur)))"
    "snd ` set (ac_next (node ns cur)) = {j. j < length ns \<and> path j \<noteq> [] \<and> butlast (path j) = path cur}"
proof -
  let ?es = "ac_next (node ns cur)"
  have keys: "distinct (map fst ?es)" using t cur by (simp add: trie_def)
  have e: "(c, n) \<in> set ?es \<longleftrightarrow> n < length ns \<and> path n = path cur @ [c]" for c n
    using trie_edge [OF t cur, of c n] keys by (simp add: edge_def)
  show "\<forall>(c, n) \<in> set ?es. edge ns cur c = Some n" using keys by (auto simp: edge_def)
  have "inj_on snd (set ?es)" by (rule inj_onI) (auto simp: e)
  then show "distinct (map snd ?es)" using keys by (simp add: distinct_map)
  show "snd ` set ?es = {j. j < length ns \<and> path j \<noteq> [] \<and> butlast (path j) = path cur}"
  proof (intro set_eqI iffI)
    fix j assume "j \<in> {j. j < length ns \<and> path j \<noteq> [] \<and> butlast (path j) = path cur}"
    then have "(last (path j), j) \<in> set ?es" by (auto simp: e) (metis append_butlast_last_id)
    then show "j \<in> snd ` set ?es" by force
  qed (auto simp: e)
qed

lemma bfs_inv_step:
  assumes inv: "bfs_inv ts path ns d (cur # q1) q2"
  defines "es \<equiv> ac_next (node ns cur)"
  shows "bfs_inv ts path (link_children cur es ns) d q1 (q2 @ map snd es) \<and> same_shape ns (link_children cur es ns)"
proof -
  let ?ms = "link_children cur es ns" and ?kids = "snd ` set es"
  have t: "trie ns path" and ts: "terms_ok ts path ns" and d: "0 < d" and l: "linked_to d ts path ns"
    and cur: "cur < length ns" "length (path cur) = d"
    and q1: "distinct (cur # q1)" "set q1 \<subseteq> {i. i < length ns \<and> length (path i) = d}"
    and q2: "distinct q2" "set q2 = {j. j < length ns \<and> length (path j) = Suc d \<and> (\<forall>i \<in> set (cur # q1). path i \<noteq> butlast (path j))}"
      "\<forall>j \<in> set q2. linked ts path ns j"
    and raw: "\<forall>i < length ns. d < length (path i) \<longrightarrow> i \<notin> set q2 \<longrightarrow> raw_output ts path ns i"
    using inv unfolding bfs_inv_def by simp_all
  note kids = children [OF t cur(1), folded es_def]
  have depth: "length (path j) = Suc d" if "j \<in> ?kids" for j
    using that cur(2) unfolding kids(3) by (cases "path j" rule: rev_cases) auto
  have apart: "j \<notin> set q2" if "j \<in> ?kids" for j using that q2(2) unfolding kids(3) by auto
  have "\<forall>(c, n) \<in> set es. raw_output ts path ns n"
  proof clarify
    fix c n assume "(c, n) \<in> set es"
    then have n: "n \<in> ?kids" by (metis image_eqI snd_conv)
    then have "n < length ns" unfolding kids(3) by simp
    then show "raw_output ts path ns n" using raw depth [OF n] apart [OF n] by simp
  qed
  from link_children_spec [OF t l ts cur d kids(1,2) this]
  have shape: "same_shape ns ?ms" and keep: "\<And>j. j \<notin> ?kids \<Longrightarrow> node ?ms j = node ns j"
    and link: "\<And>j. j \<in> ?kids \<Longrightarrow> linked ts path ?ms j" by auto
  note sh = same_shapeD [OF shape]
  have still: "linked ts path ?ms j = linked ts path ns j" if "j \<notin> ?kids" for j
    by (rule linked_cong [OF sh(1) keep [OF that]])
  have "linked_to d ts path ?ms"
    using l depth by (auto simp: linked_to_def sh(1)) (metis Suc_n_not_le_n still)
  moreover have "\<forall>j \<in> set (q2 @ map snd es). linked ts path ?ms j"
    using q2(3) link still by (auto split: if_splits) blast
  moreover have "\<forall>i < length ?ms. d < length (path i) \<longrightarrow> i \<notin> set (q2 @ map snd es) \<longrightarrow> raw_output ts path ?ms i"
    using raw keep by (auto simp: sh(1) raw_output_def)
  moreover have "set (q2 @ map snd es) = {j. j < length ?ms \<and> length (path j) = Suc d \<and> (\<forall>i \<in> set q1. path i \<noteq> butlast (path j))}"
  proof -
    have "path i \<noteq> path cur" if "i \<in> set q1" for i using path_inj [OF t _ cur(1), of i] q1 that by auto
    moreover have "path j \<noteq> []" if "length (path j) = Suc d" for j using that by auto
    ultimately show ?thesis using depth by (auto simp: q2(2) kids(3) sh(1))
  qed
  moreover have "distinct (q2 @ map snd es)" using q2(1) kids(2) apart by auto
  moreover have "terms_ok ts path ?ms" "distinct q1" "set q1 \<subseteq> {i. i < length ?ms \<and> length (path i) = d}"
    using ts q1 by (simp_all add: sh)
  ultimately show ?thesis
    using same_shape_trie [OF shape t] d shape unfolding bfs_inv_def by blast
qed

text \<open>When the first level is used up the second takes its place.\<close>

lemma bfs_inv_shift:
  assumes "bfs_inv ts path ns d [] q2"
  shows "bfs_inv ts path ns (Suc d) q2 []"
proof -
  have inv: "trie ns path" "set q2 = {j. j < length ns \<and> length (path j) = Suc d}" "linked_to d ts path ns"
    "\<forall>j \<in> set q2. linked ts path ns j" "\<forall>i < length ns. d < length (path i) \<longrightarrow> i \<notin> set q2 \<longrightarrow> raw_output ts path ns i"
    "terms_ok ts path ns" "0 < d" "distinct q2"
    using assms unfolding bfs_inv_def by simp_all
  have "\<exists>i \<in> set q2. path i = butlast (path j)" if j: "j < length ns" "length (path j) = Suc (Suc d)" for j
  proof -
    have "path j \<noteq> []" using j(2) by auto
    then have "path j = butlast (path j) @ [last (path j)]" by simp
    then obtain i where "i < length ns" "path i = butlast (path j)" using trie_parent [OF inv(1) j(1)] by blast
    then show ?thesis using j(2) inv(2) by auto
  qed
  moreover have "linked_to (Suc d) ts path ns" using inv(2-4) by (auto simp: linked_to_def le_Suc_eq)
  ultimately show ?thesis using inv by (auto simp: bfs_inv_def)
qed

definition pending :: "(nat \<Rightarrow> string) \<Rightarrow> ac_node list \<Rightarrow> nat \<Rightarrow> nat list \<Rightarrow> nat" where
  "pending path ns d q1 = length q1 + card {i. i < length ns \<and> d < length (path i)}"

lemma pending_shift:
  assumes "bfs_inv ts path ns d [] q2"
  shows "pending path ns (Suc d) q2 = pending path ns d []"
proof -
  have q2: "set q2 = {j. j < length ns \<and> length (path j) = Suc d}" "distinct q2"
    using assms unfolding bfs_inv_def by simp_all
  have "{i. i < length ns \<and> d < length (path i)} = set q2 \<union> {i. i < length ns \<and> Suc d < length (path i)}"
    by (auto simp: q2)
  moreover have "set q2 \<inter> {i. i < length ns \<and> Suc d < length (path i)} = {}" by (auto simp: q2)
  ultimately show ?thesis by (simp add: pending_def card_Un_disjoint distinct_card [OF q2(2)])
qed

lemma nothing_deeper:
  assumes t: "trie ns path" and none: "{j. j < length ns \<and> length (path j) = Suc d} = {}" and i: "i < length ns"
  shows "length (path i) \<le> d"
proof (rule ccontr)
  assume "\<not> length (path i) \<le> d"
  moreover have "path i \<in> node_words ns path" using i by (simp add: node_words_def)
  then have "take (Suc d) (path i) \<in> node_words ns path" by (rule prefix_closed_take [OF node_words_prefix_closed [OF t]])
  then obtain j where "j < length ns" "path j = take (Suc d) (path i)" by (auto simp: node_words_def)
  ultimately have "j \<in> {j. j < length ns \<and> length (path j) = Suc d}" by simp
  then show False using none by blast
qed

lemma bfs_links_all:
  "bfs_inv ts path ns d q1 q2 \<Longrightarrow> pending path ns d q1 \<le> k \<Longrightarrow>
     same_shape ns (bfs k (q1 @ q2) ns) \<and> (\<forall>i < length ns. linked ts path (bfs k (q1 @ q2) ns) i)"
proof (induction k arbitrary: ns d q1 q2)
  have finished: "same_shape ns ns \<and> (\<forall>i < length ns. linked ts path ns i)" if inv: "bfs_inv ts path ns d [] []" for ns d
  proof -
    have "trie ns path" "{j. j < length ns \<and> length (path j) = Suc d} = {}" "linked_to d ts path ns"
      using inv unfolding bfs_inv_def by simp_all
    then show ?thesis using nothing_deeper [of ns path d] by (simp add: same_shape_def linked_to_def)
  qed
  {
    case 0
    then have "q1 = []" "{i. i < length ns \<and> d < length (path i)} = {}" by (auto simp: pending_def)
    moreover have "set q2 \<subseteq> {i. i < length ns \<and> d < length (path i)}" using 0(1) by (auto simp: bfs_inv_def)
    ultimately have "q1 = []" "q2 = []" by (cases q2; auto)+
    then show ?case using finished 0(1) by simp
  next
    case (Suc k)
    have step: "same_shape ns (bfs (Suc k) ((cur # p1) @ p2) ns) \<and> (\<forall>i < length ns. linked ts path (bfs (Suc k) ((cur # p1) @ p2) ns) i)"
      if inv: "bfs_inv ts path ns d (cur # p1) p2" and pend: "pending path ns d (cur # p1) \<le> Suc k" for d cur p1 p2
    proof -
      define es where "es = ac_next (node ns cur)"
      define ms where "ms = link_children cur es ns"
      have following: "bfs_inv ts path ms d p1 (p2 @ map snd es)" and shape: "same_shape ns ms"
        using bfs_inv_step [OF inv] by (simp_all add: ms_def es_def)
      have "pending path ms d p1 \<le> k" using pend same_shapeD(1) [OF shape] by (simp add: pending_def)
      from Suc.IH [OF following this] shape show ?thesis
        using same_shape_trans same_shapeD(1) [OF shape] by (auto simp: es_def [symmetric] ms_def [symmetric] Let_def)
    qed
    show ?case
    proof (cases q1)
      case (Cons cur p1)
      then show ?thesis using step [of d cur p1 q2] Suc.prems by simp
    next
      case Nil
      show ?thesis
      proof (cases q2)
        case (Cons cur p2)
        have "bfs_inv ts path ns (Suc d) (cur # p2) []" "pending path ns (Suc d) (cur # p2) \<le> Suc k"
          using bfs_inv_shift [of ts path ns d q2] pending_shift [of ts path ns d q2] Suc.prems Nil Cons by auto
        from step [OF this] show ?thesis using Nil Cons by simp
      next
        case q2: Nil
        then show ?thesis using finished Suc.prems(1) Nil by simp
      qed
    qed
  }
qed

lemma reset_fails_spec:
  "\<forall>(c, n) \<in> set es. n < length ns \<Longrightarrow>
     same_shape ns (reset_fails es ns)
     \<and> (\<forall>i. ac_output (node (reset_fails es ns) i) = ac_output (node ns i))
     \<and> (\<forall>i. ac_fail (node (reset_fails es ns) i) = (if i \<in> snd ` set es then 0 else ac_fail (node ns i)))"
proof (induction es arbitrary: ns)
  case (Cons en es)
  obtain c n where en: "en = (c, n)" by (cases en)
  let ?ms = "ns[n := (node ns n)\<lparr>ac_fail := 0\<rparr>]"
  have n: "n < length ns" using Cons.prems en by simp
  have one: "same_shape ns ?ms" "\<And>i. ac_output (node ?ms i) = ac_output (node ns i)"
    "\<And>i. ac_fail (node ?ms i) = (if i = n then 0 else ac_fail (node ns i))"
    using n by (simp_all add: same_shape_def node_update)
  have "same_shape ?ms (reset_fails es ?ms)
     \<and> (\<forall>i. ac_output (node (reset_fails es ?ms) i) = ac_output (node ?ms i))
     \<and> (\<forall>i. ac_fail (node (reset_fails es ?ms) i) = (if i \<in> snd ` set es then 0 else ac_fail (node ?ms i)))"
    by (rule Cons.IH) (use Cons.prems in auto)
  then show ?case using one same_shape_trans by (auto simp: en)
qed (simp add: same_shape_def)

lemma build_links_all:
  assumes d: "dictionary ac path"
  shows "trie (ac_nodes (ac_build ac)) path \<and> ac_terms (ac_build ac) = ac_terms ac
    \<and> terms_ok (ac_terms ac) path (ac_nodes (ac_build ac))
    \<and> (\<forall>i < length (ac_nodes (ac_build ac)). linked (ac_terms ac) path (ac_nodes (ac_build ac)) i)"
proof -
  let ?ns = "ac_nodes ac" and ?ts = "ac_terms ac"
  define es where "es = ac_next (node ?ns 0)"
  define ms where "ms = reset_fails es ?ns"
  have t: "trie ?ns path" and ts: "terms_ok ?ts path ?ns" and raw: "\<And>i. i < length ?ns \<Longrightarrow> raw_output ?ts path ?ns i"
    using d by (auto simp: dictionary_def terms_ok_def)
  have z: "0 < length ?ns" "path 0 = []" using t by (auto simp: trie_def)
  note kids = children [OF t z(1), folded es_def]
  have "\<forall>(c, n) \<in> set es. n < length ?ns" using kids(1) trie_edge [OF t z(1)] by fastforce
  from reset_fails_spec [OF this]
  have shape: "same_shape ?ns ms" and out: "\<And>i. ac_output (node ms i) = ac_output (node ?ns i)"
    and fail: "\<And>i. i \<in> snd ` set es \<Longrightarrow> ac_fail (node ms i) = 0" by (auto simp: ms_def)
  note sh = same_shapeD [OF shape]
  have tm: "trie ms path" by (rule same_shape_trie [OF shape t])
  have level: "snd ` set es = {j. j < length ms \<and> length (path j) = 1}"
    unfolding kids(3) z(2) sh(1) by (auto simp: length_Suc_conv) (metis append_Nil append_butlast_last_id)
  have rawm: "raw_output ?ts path ms i" if "i < length ms" for i
    using raw [of i] that out sh(1) by (simp add: raw_output_def)
  have "linked ?ts path ms i" if i: "i < length ms" "length (path i) \<le> 1" for i
  proof -
    have short: "suffix (?ts ! k) (path i) \<longleftrightarrow> ?ts ! k = path i" if "k < length ?ts" for k
    proof -
      have "?ts ! k \<noteq> []" using ts nth_mem [OF that] by (auto simp: terms_ok_def)
      then show ?thesis using i(2) by (cases "path i") (auto simp: suffix_Cons)
    qed
    have "set (ac_output (node ms i)) = {k. k < length ?ts \<and> suffix (?ts ! k) (path i)}" "distinct (ac_output (node ms i))"
      using rawm [OF i(1)] short by (auto simp: raw_output_def)
    moreover have "ac_fail (node ms i) = 0 \<and> tl (path i) = []" if "path i \<noteq> []"
      using that i fail level by (cases "path i") auto
    moreover have "longest (node_words ms path) [] []"
      using node_words_prefix_closed [OF tm] by (simp add: longest_def prefix_closed_def)
    ultimately show ?thesis using z sh(1) by (simp add: linked_def)
  qed
  then have "linked_to 1 ?ts path ms" by (simp add: linked_to_def)
  moreover have "\<exists>i \<in> set (map snd es). path i = butlast (path j)" if j: "j < length ms" "length (path j) = Suc 1" for j
  proof -
    have "path j = butlast (path j) @ [last (path j)]" using j(2) by (cases "path j" rule: rev_cases) auto
    then obtain i where "i < length ms" "path i = butlast (path j)" using trie_parent [OF tm j(1)] by blast
    then show ?thesis using j(2) level by auto
  qed
  ultimately have inv: "bfs_inv ?ts path ms 1 (map snd es) []"
    using tm ts kids(2) level rawm by (auto simp: bfs_inv_def sh(4))
  have "pending path ms 1 (map snd es) \<le> length ms"
  proof -
    have "length (map snd es) = card {j. j < length ms \<and> length (path j) = 1}"
      using distinct_card [OF kids(2)] level by simp
    then have "pending path ms 1 (map snd es) = card ({j. j < length ms \<and> length (path j) = 1} \<union> {i. i < length ms \<and> 1 < length (path i)})"
      unfolding pending_def by (subst card_Un_disjoint) auto
    also have "\<dots> \<le> card {..<length ms}" by (rule card_mono) auto
    finally show ?thesis by simp
  qed
  from bfs_links_all [OF inv this]
  have done_: "same_shape ms (bfs (length ms) (map snd es) ms)"
    "\<forall>i < length ms. linked ?ts path (bfs (length ms) (map snd es) ms) i" by auto
  have "ac_build ac = ac\<lparr>ac_nodes := bfs (length ms) (map snd es) ms\<rparr>"
    by (simp add: ac_build_def Let_def es_def ms_def)
  then show ?thesis
    using done_ same_shape_trie [OF done_(1) tm] same_shapeD(1,4) [OF done_(1)] ts sh(4) by simp
qed

section \<open>The search\<close>

lemma ac_step_goto: "ac_step ns cur c = ac_goto ns cur c"
  by (simp add: ac_step_def ac_goto_def Let_def)

text \<open>The occurrences that end behind a prefix of the text.\<close>

definition ends_here :: "string list \<Rightarrow> string \<Rightarrow> ac_match \<Rightarrow> bool" where
  "ends_here ts u m =
     (am_term m < length ts \<and> suffix (ts ! am_term m) u \<and> am_end m = int (length u)
      \<and> am_start m = int (length u) - int (length (ts ! am_term m)))"

definition built :: "aho_corasick \<Rightarrow> (nat \<Rightarrow> string) \<Rightarrow> bool" where
  "built ac path =
     (trie (ac_nodes ac) path \<and> terms_ok (ac_terms ac) path (ac_nodes ac)
      \<and> (\<forall>i < length (ac_nodes ac). linked (ac_terms ac) path (ac_nodes ac) i))"

lemma outputs_end_here:
  assumes b: "built ac path" and cur: "cur < length (ac_nodes ac)" "longest (node_words (ac_nodes ac) path) u (path cur)"
    and i: "length u = Suc i"
  defines "ms \<equiv> map (\<lambda>t. \<lparr>am_start = int i + 1 - int (length (ac_terms ac ! t)), am_end = int i + 1, am_term = t\<rparr>)
        (ac_output (node (ac_nodes ac) cur))"
  shows "set ms = {m. ends_here (ac_terms ac) u m}" "distinct ms"
proof -
  let ?ts = "ac_terms ac"
  have l: "linked ?ts path (ac_nodes ac) cur" and ts: "set ?ts \<subseteq> node_words (ac_nodes ac) path"
    using b cur(1) by (auto simp: built_def terms_ok_def)
  have "suffix (?ts ! t) u \<longleftrightarrow> suffix (?ts ! t) (path cur)" if "t < length ?ts" for t
    using ts nth_mem [OF that] cur(2) by (auto simp: longest_def intro: suffix_order.trans)
  then have out: "set (ac_output (node (ac_nodes ac) cur)) = {t. t < length ?ts \<and> suffix (?ts ! t) u}"
    using l by (auto simp: linked_def)
  show "set ms = {m. ends_here ?ts u m}"
  proof (intro set_eqI iffI)
    fix m assume "m \<in> {m. ends_here ?ts u m}"
    then show "m \<in> set ms"
      by (cases m) (auto simp: ms_def out ends_here_def i image_iff)
  qed (auto simp: ms_def out ends_here_def i)
  show "distinct ms" using l by (auto simp: ms_def linked_def distinct_map inj_on_def)
qed

lemma find_loop_spec:
  assumes b: "built ac path"
  shows "cur < length (ac_nodes ac) \<Longrightarrow> longest (node_words (ac_nodes ac) path) u (path cur) \<Longrightarrow> length u = i \<Longrightarrow>
    set (find_loop ac cur i body) = {m. \<exists>k < length body. ends_here (ac_terms ac) (u @ take (Suc k) (lower body)) m}
    \<and> distinct (find_loop ac cur i body) \<and> sorted (map am_end (find_loop ac cur i body))"
proof (induction body arbitrary: cur u i)
  case (Cons x body)
  let ?ns = "ac_nodes ac" and ?c = "lower_byte x"
  define nx where "nx = ac_step ?ns cur ?c"
  define d where "d = length (path cur)"
  have "linked_to d (ac_terms ac) path ?ns" "trie ?ns path" using b by (auto simp: linked_to_def built_def)
  from goto_spec [OF this(2,1) Cons.prems(1) _ Cons.prems(2), of ?c]
  have nx: "nx < length ?ns" "longest (node_words ?ns path) (u @ [?c]) (path nx)"
    by (auto simp: nx_def ac_step_goto d_def)
  have len: "length (u @ [?c]) = Suc i" using Cons.prems(3) by simp
  define here where "here = map (\<lambda>t. \<lparr>am_start = int i + 1 - int (length (ac_terms ac ! t)), am_end = int i + 1, am_term = t\<rparr>)
        (ac_output (node ?ns nx))"
  note out = outputs_end_here [OF b nx len, folded here_def]
  define rest where "rest = find_loop ac nx (Suc i) body"
  have IH: "set rest = {m. \<exists>k < length body. ends_here (ac_terms ac) ((u @ [?c]) @ take (Suc k) (lower body)) m}"
    "distinct rest" "sorted (map am_end rest)"
    using Cons.IH [OF nx len] by (auto simp: rest_def)
  have run: "find_loop ac cur i (x # body) = here @ rest"
    by (simp add: nx_def [symmetric] here_def rest_def Let_def)
  have late: "int (Suc i) < am_end m" if "m \<in> set rest" for m
    using that len by (auto simp: IH(1) ends_here_def lower_def min_def)
  have early: "am_end m = int (Suc i)" if "m \<in> set here" for m
    using that len by (auto simp: out(1) ends_here_def)
  have "{m. \<exists>k < length (x # body). ends_here (ac_terms ac) (u @ take (Suc k) (lower (x # body))) m}
      = {m. ends_here (ac_terms ac) (u @ [?c]) m}
        \<union> {m. \<exists>k < length body. ends_here (ac_terms ac) ((u @ [?c]) @ take (Suc k) (lower body)) m}"
    by (auto simp: less_Suc_eq_0_disj lower_def)
  then have "set (find_loop ac cur i (x # body)) =
      {m. \<exists>k < length (x # body). ends_here (ac_terms ac) (u @ take (Suc k) (lower (x # body))) m}"
    unfolding run by (simp add: out(1) IH(1))
  moreover have "distinct (here @ rest)" using out(2) IH(2) early late by fastforce
  moreover have "sorted (map am_end (here @ rest))"
  proof -
    have "sorted (map (\<lambda>t. int i + 1) xs)" for xs :: "nat list" by (induction xs) auto
    then have "sorted (map am_end here)" by (simp add: here_def comp_def)
    moreover have "am_end x \<le> am_end y" if "x \<in> set here" "y \<in> set rest" for x y
      using early [OF that(1)] late [OF that(2)] by simp
    ultimately show ?thesis using IH(3) by (auto simp: sorted_append)
  qed
  ultimately show ?case unfolding run by blast
qed (simp add: ends_here_def)

definition dictionary_terms :: "string list \<Rightarrow> string list" where
  "dictionary_terms terms = map lower (filter (\<lambda>t. t \<noteq> []) terms)"

text \<open>An occurrence of a term in the lower-cased text.\<close>

definition occurs :: "string list \<Rightarrow> string \<Rightarrow> ac_match \<Rightarrow> bool" where
  "occurs ts body m =
     (am_term m < length ts \<and> 0 \<le> am_start m \<and> am_start m \<le> am_end m \<and> am_end m \<le> int (length body)
      \<and> take (nat (am_end m) - nat (am_start m)) (drop (nat (am_start m)) (lower body)) = ts ! am_term m)"

lemma ends_here_occurs:
  assumes ts: "[] \<notin> set ts"
  shows "(\<exists>k < length body. ends_here ts (take (Suc k) (lower body)) m) = occurs ts body m"
proof
  assume "\<exists>k < length body. ends_here ts (take (Suc k) (lower body)) m"
  then obtain k where k: "k < length body" "ends_here ts (take (Suc k) (lower body)) m" by blast
  define u where "u = take (Suc k) (lower body)"
  have len: "length u = Suc k" using k(1) by (simp add: u_def lower_def)
  obtain p where p: "u = p @ ts ! am_term m" using k(2) by (auto simp: ends_here_def u_def suffix_def)
  have start: "am_start m = int (length p)" "am_end m = int (Suc k)"
    using k(2) p len by (auto simp: ends_here_def u_def [symmetric])
  have "drop (length p) u = ts ! am_term m" by (simp add: p)
  then have "take (Suc k - length p) (drop (length p) (lower body)) = ts ! am_term m"
    by (simp add: u_def drop_take)
  moreover have "length p \<le> Suc k" using p len by simp
  moreover have "am_term m < length ts" using k(2) by (simp add: ends_here_def)
  ultimately show "occurs ts body m" using k(1) unfolding occurs_def start nat_int by simp
next
  assume o: "occurs ts body m"
  define a z where "a = nat (am_start m)" and "z = nat (am_end m)"
  have az: "am_start m = int a" "am_end m = int z" "a \<le> z" "z \<le> length body"
    "take (z - a) (drop a (lower body)) = ts ! am_term m" and tm: "am_term m < length ts"
    using o by (auto simp: occurs_def a_def z_def)
  have "ts ! am_term m \<noteq> []" using ts tm nth_mem by metis
  then have "z \<noteq> 0" using az(3,5) by (cases z) auto
  then obtain k where k: "z = Suc k" by (cases z) auto
  have "take z (lower body) = take a (lower body) @ ts ! am_term m"
    using az(3,5) by (metis le_add_diff_inverse take_add)
  moreover have "length (take z (lower body)) = z" "length (take a (lower body)) = a"
    using az(3,4) by (simp_all add: lower_def)
  ultimately have "ends_here ts (take (Suc k) (lower body)) m"
    using tm az(1,2) k by (auto simp: ends_here_def suffix_def)
  then show "\<exists>k < length body. ends_here ts (take (Suc k) (lower body)) m"
    using az(4) k by (intro exI [of _ k]) simp
qed

lemma ac_find_spec:
  "set (ac_find (newAhoCorasick terms) body) = {m. occurs (dictionary_terms terms) body m}
    \<and> distinct (ac_find (newAhoCorasick terms) body) \<and> sorted (map am_end (ac_find (newAhoCorasick terms) body))"
proof -
  let ?ac = "newAhoCorasick terms"
  obtain path where p: "dictionary (add_terms terms \<lparr>ac_nodes = [empty_node], ac_terms = []\<rparr>) path"
    "ac_terms (add_terms terms \<lparr>ac_nodes = [empty_node], ac_terms = []\<rparr>) = dictionary_terms terms"
    using add_terms_dictionary [OF empty_dictionary, of terms] by (auto simp: dictionary_terms_def)
  from build_links_all [OF p(1)] p(2)
  have b: "built ?ac path" and ts: "ac_terms ?ac = dictionary_terms terms"
    by (simp_all add: newAhoCorasick_def built_def)
  have t: "trie (ac_nodes ?ac) path" using b by (simp add: built_def)
  then have z: "0 < length (ac_nodes ?ac)" "path 0 = []" by (auto simp: trie_def)
  have "longest (node_words (ac_nodes ?ac) path) [] (path 0)"
    using node_words_prefix_closed [OF t] z by (simp add: longest_def prefix_closed_def)
  note loop = find_loop_spec [OF b z(1) this refl, of body]
  have nonempty: "[] \<notin> set (dictionary_terms terms)" by (auto simp: dictionary_terms_def)
  show ?thesis
  proof (cases "dictionary_terms terms = []")
    case True
    then show ?thesis by (simp add: ac_find_def ts occurs_def)
  next
    case False
    then have "ac_find ?ac body = find_loop ?ac 0 0 body" by (simp add: ac_find_def ts)
    then show ?thesis using loop ends_here_occurs [OF nonempty, of body] by (simp add: ts)
  qed
qed

text \<open>C37: the one pass of the automaton finds what looking for every term at every place would: exactly the
  occurrences of every non-empty term, up to the case of ASCII letters, each once, in the order of
  their ends. Overlapping and nested occurrences are all there.\<close>

theorem ac_find_correct:
  "set (ac_find (newAhoCorasick terms) body) = {m. occurs (dictionary_terms terms) body m}
    \<and> distinct (ac_find (newAhoCorasick terms) body) \<and> sorted (map am_end (ac_find (newAhoCorasick terms) body))"
  by (rule ac_find_spec)

end
