(* ===== verification/Validators.thy ===== *)
theory Validators
  imports Prelude
begin

text \<open>
  \<open>internal/detect/validate.go\<close>: the checksums of the India pack. \<open>digits[i] - '0'\<close> is byte
  arithmetic, so it wraps at 256: a byte below \<open>'0'\<close> gives a value above 9, never a negative one.
\<close>

section \<open>The validators\<close>

definition digit_value :: "char \<Rightarrow> nat" where
  "digit_value c = (of_char c + 256 - 48) mod 256"

definition verhoeffD :: "nat list list" where
  "verhoeffD =
    [[0, 1, 2, 3, 4, 5, 6, 7, 8, 9],
     [1, 2, 3, 4, 0, 6, 7, 8, 9, 5],
     [2, 3, 4, 0, 1, 7, 8, 9, 5, 6],
     [3, 4, 0, 1, 2, 8, 9, 5, 6, 7],
     [4, 0, 1, 2, 3, 9, 5, 6, 7, 8],
     [5, 9, 8, 7, 6, 0, 4, 3, 2, 1],
     [6, 5, 9, 8, 7, 1, 0, 4, 3, 2],
     [7, 6, 5, 9, 8, 2, 1, 0, 4, 3],
     [8, 7, 6, 5, 9, 3, 2, 1, 0, 4],
     [9, 8, 7, 6, 5, 4, 3, 2, 1, 0]]"

definition verhoeffP :: "nat list list" where
  "verhoeffP =
    [[0, 1, 2, 3, 4, 5, 6, 7, 8, 9],
     [1, 5, 7, 6, 2, 8, 3, 0, 9, 4],
     [5, 8, 0, 3, 7, 9, 6, 1, 4, 2],
     [8, 9, 1, 6, 0, 4, 3, 5, 2, 7],
     [9, 4, 5, 3, 1, 2, 6, 8, 7, 0],
     [4, 2, 8, 6, 5, 7, 3, 9, 0, 1],
     [2, 7, 9, 3, 8, 0, 6, 4, 1, 5],
     [7, 0, 4, 6, 9, 1, 3, 2, 5, 8]]"

text \<open>The loops read the digits from the last to the first, so they run over the reversed string.\<close>

fun verhoeff_loop :: "nat \<Rightarrow> nat \<Rightarrow> string \<Rightarrow> bool" where
  "verhoeff_loop i c [] = (c = 0)"
| "verhoeff_loop i c (b # bs) =
     (let d = digit_value b in
      if d > 9 then False
      else verhoeff_loop (i + 1) (verhoeffD ! c ! (verhoeffP ! (i mod 8) ! d)) bs)"

definition Verhoeff :: "string \<Rightarrow> bool" where
  "Verhoeff digits = verhoeff_loop 0 0 (rev digits)"

fun luhn_loop :: "nat \<Rightarrow> bool \<Rightarrow> string \<Rightarrow> nat option" where
  "luhn_loop acc alt [] = Some acc"
| "luhn_loop acc alt (b # bs) =
     (let d = digit_value b in
      if d > 9 then None
      else
        let d = (if alt then (let d = d * 2 in if d > 9 then d - 9 else d) else d)
        in luhn_loop (acc + d) (\<not> alt) bs)"

definition Luhn :: "string \<Rightarrow> bool" where
  "Luhn digits =
     (case luhn_loop 0 False (rev digits) of
        None \<Rightarrow> False
      | Some acc \<Rightarrow> length digits > 0 \<and> acc mod 10 = 0)"

definition gstinAlphabet :: string where
  "gstinAlphabet = ''0123456789ABCDEFGHIJKLMNOPQRSTUVWXYZ''"

text \<open>\<open>strings.IndexByte\<close>, with \<^const>\<open>None\<close> for -1.\<close>

fun IndexByte :: "string \<Rightarrow> char \<Rightarrow> nat option" where
  "IndexByte [] b = None"
| "IndexByte (c # cs) b = (if c = b then Some 0 else map_option Suc (IndexByte cs b))"

fun gstin_loop :: "nat \<Rightarrow> nat \<Rightarrow> string \<Rightarrow> nat option" where
  "gstin_loop i acc [] = Some acc"
| "gstin_loop i acc (b # bs) =
     (case IndexByte gstinAlphabet b of
        None \<Rightarrow> None
      | Some v \<Rightarrow>
          let weight = (if i mod 2 = 1 then 2 else 1); p = v * weight
          in gstin_loop (i + 1) (acc + p div 36 + p mod 36) bs)"

definition GSTIN :: "string \<Rightarrow> bool" where
  "GSTIN s =
     (if length s \<noteq> 15 then False
      else case gstin_loop 0 0 (take 14 s) of
        None \<Rightarrow> False
      | Some acc \<Rightarrow> s ! 14 = gstinAlphabet ! ((36 - acc mod 36) mod 36))"

fun digitsOnly :: "string \<Rightarrow> string" where
  "digitsOnly [] = []"
| "digitsOnly (c # cs) = (if c \<ge> CHR ''0'' \<and> c \<le> CHR ''9'' then c # digitsOnly cs else digitsOnly cs)"

section \<open>Digits\<close>

definition is_digit :: "char \<Rightarrow> bool" where
  "is_digit c = (CHR ''0'' \<le> c \<and> c \<le> CHR ''9'')"

lemma byte_minus: "x < 256 \<Longrightarrow> (x + 256 - 48) mod 256 = (if x < 48 then x + 208 else x - (48 :: nat))"
proof (cases "x < 48")
  case False
  assume x: "x < 256"
  from False obtain y where "x = y + 48" by (metis add.commute le_Suc_ex not_less)
  with x show ?thesis by (simp add: mod_add_self2)
qed simp

lemma byte_minus_inj:
  "x < 256 \<Longrightarrow> y < 256 \<Longrightarrow> (if x < 48 then x + 208 else x - 48) = (if y < 48 then y + 208 else y - (48 :: nat)) \<Longrightarrow> x = y"
  by presburger

lemma digit_value_eq:
  "digit_value c = (if (of_char c :: nat) < 48 then of_char c + 208 else of_char c - 48)"
  unfolding digit_value_def by (rule byte_minus) simp

lemma is_digit_iff: "is_digit c \<longleftrightarrow> digit_value c \<le> 9"
proof -
  have "(of_char c :: nat) < 256" by simp
  moreover have "is_digit c \<longleftrightarrow> 48 \<le> (of_char c :: nat) \<and> (of_char c :: nat) \<le> 57"
    by (simp add: is_digit_def less_eq_char_def)
  ultimately show ?thesis by (simp add: digit_value_eq) linarith
qed

lemma digit_value_inj: "digit_value a = digit_value b \<longleftrightarrow> a = b"
proof
  assume eq: "digit_value a = digit_value b"
  have "(of_char a :: nat) < 256" "(of_char b :: nat) < 256" by simp_all
  with eq have "(of_char a :: nat) = of_char b"
    unfolding digit_value_eq by (rule byte_minus_inj [rotated -1])
  then show "a = b" by simp
qed simp

lemma digitsOnly_filter: "digitsOnly s = filter is_digit s"
  by (induction s) (auto simp: is_digit_def)

section \<open>Verhoeff\<close>

abbreviation dD :: "nat \<Rightarrow> nat \<Rightarrow> nat" where "dD c x \<equiv> verhoeffD ! c ! x"
abbreviation dP :: "nat \<Rightarrow> nat \<Rightarrow> nat" where "dP i d \<equiv> verhoeffP ! (i mod 8) ! d"

fun vrun :: "nat \<Rightarrow> nat \<Rightarrow> nat list \<Rightarrow> nat" where
  "vrun i c [] = c"
| "vrun i c (d # ds) = vrun (i + 1) (dD c (dP i d)) ds"

lemma verhoeff_loop_vrun:
  "verhoeff_loop i c bs \<longleftrightarrow> list_all is_digit bs \<and> vrun i c (map digit_value bs) = 0"
  by (induction i c bs rule: verhoeff_loop.induct) (auto simp: Let_def is_digit_iff)

text \<open>The group table, checked over all its entries.\<close>

lemma dD_closed_all: "list_all (\<lambda>c. list_all (\<lambda>x. dD c x < 10) [0..<10]) [0..<10]"
  by code_simp

lemma dD_inj_right_all:
  "list_all (\<lambda>c. list_all (\<lambda>x. list_all (\<lambda>y. dD c x = dD c y \<longrightarrow> x = y) [0..<10]) [0..<10]) [0..<10]"
  by code_simp

lemma dD_inj_left_all:
  "list_all (\<lambda>x. list_all (\<lambda>c. list_all (\<lambda>e. dD c x = dD e x \<longrightarrow> c = e) [0..<10]) [0..<10]) [0..<10]"
  by code_simp

lemma dD_assoc_all:
  "list_all (\<lambda>x. list_all (\<lambda>y. list_all (\<lambda>z. dD (dD x y) z = dD x (dD y z)) [0..<10]) [0..<10]) [0..<10]"
  by code_simp

lemma dP_closed_all: "list_all (\<lambda>i. list_all (\<lambda>d. dP i d < 10) [0..<10]) [0..<8]"
  by code_simp

lemma dP_inj_all:
  "list_all (\<lambda>i. list_all (\<lambda>d. list_all (\<lambda>e. dP i d = dP i e \<longrightarrow> d = e) [0..<10]) [0..<10]) [0..<8]"
  by code_simp

lemma dP_swap_all:
  "list_all (\<lambda>i. list_all (\<lambda>a. list_all (\<lambda>b. dD (dP i a) (dP (i + 1) b) = dD (dP i b) (dP (i + 1) a) \<longrightarrow> a = b)
     [0..<10]) [0..<10]) [0..<8]"
  by code_simp

lemma list_all_upt: "list_all P [0..<n] \<longleftrightarrow> (\<forall>k < n. P k)"
  by (auto simp: list_all_iff)

lemma dD_closed: "c < 10 \<Longrightarrow> x < 10 \<Longrightarrow> dD c x < 10"
  by (rule dD_closed_all [unfolded list_all_upt, rule_format])

lemma dD_inj_right: "c < 10 \<Longrightarrow> x < 10 \<Longrightarrow> y < 10 \<Longrightarrow> dD c x = dD c y \<Longrightarrow> x = y"
  by (rule dD_inj_right_all [unfolded list_all_upt, rule_format])

lemma dD_inj_left: "x < 10 \<Longrightarrow> c < 10 \<Longrightarrow> e < 10 \<Longrightarrow> dD c x = dD e x \<Longrightarrow> c = e"
  by (rule dD_inj_left_all [unfolded list_all_upt, rule_format])

lemma dD_assoc: "x < 10 \<Longrightarrow> y < 10 \<Longrightarrow> z < 10 \<Longrightarrow> dD (dD x y) z = dD x (dD y z)"
  by (rule dD_assoc_all [unfolded list_all_upt, rule_format])

lemma dP_closed: "d < 10 \<Longrightarrow> dP i d < 10"
  using dP_closed_all unfolding list_all_upt by (metis mod_less_divisor mod_mod_trivial zero_less_numeral)

lemma dP_inj: "d < 10 \<Longrightarrow> e < 10 \<Longrightarrow> dP i d = dP i e \<Longrightarrow> d = e"
  using dP_inj_all unfolding list_all_upt by (metis mod_less_divisor mod_mod_trivial zero_less_numeral)

lemma dP_swap: "a < 10 \<Longrightarrow> b < 10 \<Longrightarrow> dD (dP i a) (dP (i + 1) b) = dD (dP i b) (dP (i + 1) a) \<Longrightarrow> a = b"
proof -
  assume ab: "a < 10" "b < 10" and eq: "dD (dP i a) (dP (i + 1) b) = dD (dP i b) (dP (i + 1) a)"
  have key: "\<forall>i < 8. \<forall>a < 10. \<forall>b < 10. dD (dP i a) (dP (i + 1) b) = dD (dP i b) (dP (i + 1) a) \<longrightarrow> a = b"
    using dP_swap_all by (simp only: list_all_upt)
  have i: "i mod 8 < 8" by (rule mod_less_divisor) (rule zero_less_numeral)
  have "dD (dP (i mod 8) a) (dP (i mod 8 + 1) b) = dD (dP (i mod 8) b) (dP (i mod 8 + 1) a)"
    using eq by (simp only: mod_mod_trivial mod_add_left_eq)
  then show "a = b" by (rule key [THEN spec, THEN mp, OF i, THEN spec, THEN mp, OF ab(1), THEN spec, THEN mp, OF ab(2), THEN mp])
qed


lemma vrun_append: "vrun i c (xs @ ys) = vrun (i + length xs) (vrun i c xs) ys"
  by (induction xs arbitrary: i c) auto

lemma vrun_closed: "c < 10 \<Longrightarrow> list_all (\<lambda>d. d < 10) ds \<Longrightarrow> vrun i c ds < 10"
  by (induction ds arbitrary: i c) (auto intro: dD_closed dP_closed)

text \<open>The rest of the digits never merges two different intermediate values.\<close>

lemma vrun_inj:
  "c < 10 \<Longrightarrow> e < 10 \<Longrightarrow> list_all (\<lambda>d. d < 10) ds \<Longrightarrow> vrun i c ds = vrun i e ds \<Longrightarrow> c = e"
proof (induction ds arbitrary: i c e)
  case (Cons d ds)
  have d: "dP i d < 10" using Cons.prems by (simp add: dP_closed)
  have "dD c (dP i d) = dD e (dP i d)"
    using Cons.IH [of "dD c (dP i d)" "dD e (dP i d)" "i + 1"] Cons.prems d by (simp add: dD_closed)
  then show ?case using dD_inj_left Cons.prems d by blast
qed simp

lemma vrun_substitution:
  assumes "c < 10" "list_all (\<lambda>d. d < 10) (xs @ a # ys)" "b < 10"
    and "vrun i c (xs @ a # ys) = vrun i c (xs @ b # ys)"
  shows "a = b"
proof -
  let ?c = "vrun i c xs" and ?i = "i + length xs"
  have c: "?c < 10" using assms by (simp add: vrun_closed)
  have p: "dP ?i a < 10" "dP ?i b < 10" using assms by (simp_all add: dP_closed)
  have "dD ?c (dP ?i a) = dD ?c (dP ?i b)"
    using vrun_inj [of "dD ?c (dP ?i a)" "dD ?c (dP ?i b)" ys "?i + 1"] assms c p
    by (simp add: vrun_append dD_closed)
  then have "dP ?i a = dP ?i b" using dD_inj_right c p by blast
  then show ?thesis using dP_inj [of a b ?i] assms by simp
qed

lemma vrun_transposition:
  assumes "c < 10" "list_all (\<lambda>d. d < 10) (xs @ a # b # ys)"
    and "vrun i c (xs @ a # b # ys) = vrun i c (xs @ b # a # ys)"
  shows "a = b"
proof -
  let ?c = "vrun i c xs" and ?i = "i + length xs"
  have c: "?c < 10" using assms by (simp add: vrun_closed)
  have ab: "a < 10" "b < 10" using assms by simp_all
  have p: "dP ?i a < 10" "dP ?i b < 10" "dP (?i + 1) a < 10" "dP (?i + 1) b < 10"
    using ab by (simp_all add: dP_closed)
  let ?u = "dD (dD ?c (dP ?i a)) (dP (?i + 1) b)" and ?v = "dD (dD ?c (dP ?i b)) (dP (?i + 1) a)"
  have "?u = ?v"
    using vrun_inj [of ?u ?v ys "?i + 2"] assms c p by (simp add: vrun_append dD_closed)
  then have "dD ?c (dD (dP ?i a) (dP (?i + 1) b)) = dD ?c (dD (dP ?i b) (dP (?i + 1) a))"
    using dD_assoc [OF c p(1) p(4)] dD_assoc [OF c p(2) p(3)] by simp
  then have "dD (dP ?i a) (dP (?i + 1) b) = dD (dP ?i b) (dP (?i + 1) a)"
    using dD_inj_right [OF c dD_closed [OF p(1) p(4)] dD_closed [OF p(2) p(3)]] by simp
  then show ?thesis using dP_swap [OF ab] by simp
qed

lemma Verhoeff_vrun: "Verhoeff s \<longleftrightarrow> list_all is_digit s \<and> vrun 0 0 (map digit_value (rev s)) = 0"
  by (simp add: Verhoeff_def verhoeff_loop_vrun list_all_iff)

lemma digits_below_10: "list_all is_digit s \<Longrightarrow> list_all (\<lambda>d. d < 10) (map digit_value s)"
  by (induction s) (auto simp: is_digit_iff)

section \<open>Luhn\<close>

definition luhn_weight :: "bool \<Rightarrow> nat \<Rightarrow> nat" where
  "luhn_weight alt d = (if alt then (if d * 2 > 9 then d * 2 - 9 else d * 2) else d)"

fun lrun :: "bool \<Rightarrow> nat list \<Rightarrow> nat" where
  "lrun alt [] = 0"
| "lrun alt (d # ds) = luhn_weight alt d + lrun (\<not> alt) ds"

lemma luhn_loop_lrun:
  "luhn_loop acc alt bs = (if list_all is_digit bs then Some (acc + lrun alt (map digit_value bs)) else None)"
  by (induction acc alt bs rule: luhn_loop.induct) (auto simp: Let_def is_digit_iff luhn_weight_def)

lemma Luhn_lrun: "Luhn s \<longleftrightarrow> list_all is_digit s \<and> s \<noteq> [] \<and> lrun False (map digit_value (rev s)) mod 10 = 0"
  by (auto simp: Luhn_def luhn_loop_lrun list_all_iff)

lemma lrun_append: "lrun alt (xs @ ys) = lrun alt xs + lrun (alt = even (length xs)) ys"
proof (induction xs arbitrary: alt)
  case (Cons x xs)
  have "((\<not> alt) = even (length xs)) = (alt = even (length (x # xs)))" by auto
  then show ?case by (simp add: Cons.IH del: length_Cons)
qed simp

lemma luhn_weight_all:
  "list_all (\<lambda>a. list_all (\<lambda>b. luhn_weight True a mod 10 = luhn_weight True b mod 10 \<longrightarrow> a = b) [0..<10]) [0..<10]"
  by code_simp

lemma luhn_weight_inj: "a < 10 \<Longrightarrow> b < 10 \<Longrightarrow> luhn_weight alt a mod 10 = luhn_weight alt b mod 10 \<Longrightarrow> a = b"
  using luhn_weight_all [unfolded list_all_upt, rule_format, of a b] by (cases alt) (auto simp: luhn_weight_def)

lemma luhn_swap_all:
  "list_all (\<lambda>a. list_all (\<lambda>b. (luhn_weight False a + luhn_weight True b) mod 10 = (luhn_weight False b + luhn_weight True a) mod 10
     \<longrightarrow> a = b \<or> (a = 0 \<and> b = 9) \<or> (a = 9 \<and> b = 0)) [0..<10]) [0..<10]"
  by code_simp

lemma luhn_swap:
  "a < 10 \<Longrightarrow> b < 10 \<Longrightarrow> (luhn_weight False a + luhn_weight True b) mod 10 = (luhn_weight False b + luhn_weight True a) mod 10
     \<Longrightarrow> a = b \<or> (a = 0 \<and> b = 9) \<or> (a = 9 \<and> b = 0)"
  by (rule luhn_swap_all [unfolded list_all_upt, rule_format])

lemma mod_sum_cancel: "(z + a) mod n = (z + b) mod n \<Longrightarrow> a mod n = b mod (n :: nat)"
  by (auto simp: nat_mod_eq_iff)

section \<open>GSTIN\<close>

definition gstin_weight :: "nat \<Rightarrow> nat \<Rightarrow> nat" where
  "gstin_weight i v = (let p = v * (if i mod 2 = 1 then 2 else 1) in p div 36 + p mod 36)"

fun grun :: "nat \<Rightarrow> nat list \<Rightarrow> nat" where
  "grun i [] = 0"
| "grun i (v # vs) = gstin_weight i v + grun (i + 1) vs"

definition gstin_char :: "char \<Rightarrow> bool" where
  "gstin_char c = (IndexByte gstinAlphabet c \<noteq> None)"

definition gstin_value :: "char \<Rightarrow> nat" where
  "gstin_value c = the (IndexByte gstinAlphabet c)"

lemma IndexByte_Some: "IndexByte s c = Some k \<Longrightarrow> k < length s \<and> s ! k = c"
  by (induction s arbitrary: k) (auto split: if_splits)

lemma gstin_value_lt: "gstin_char c \<Longrightarrow> gstin_value c < 36"
proof -
  assume "gstin_char c"
  then have "gstin_value c < length gstinAlphabet"
    by (auto simp: gstin_char_def gstin_value_def dest: IndexByte_Some)
  then show ?thesis by (simp add: gstinAlphabet_def)
qed

lemma gstin_value_inj: "gstin_char a \<Longrightarrow> gstin_char b \<Longrightarrow> gstin_value a = gstin_value b \<Longrightarrow> a = b"
  unfolding gstin_char_def gstin_value_def by (metis IndexByte_Some option.collapse)

lemma gstin_loop_grun:
  "gstin_loop i acc bs = (if list_all gstin_char bs then Some (acc + grun i (map gstin_value bs)) else None)"
proof (induction bs arbitrary: i acc)
  case (Cons b bs)
  show ?case
  proof (cases "IndexByte gstinAlphabet b")
    case None
    then show ?thesis by (simp add: gstin_char_def)
  next
    case (Some v)
    then have "gstin_char b" "gstin_value b = v" by (simp_all add: gstin_char_def gstin_value_def)
    with Some show ?thesis by (simp add: Cons.IH gstin_weight_def Let_def)
  qed
qed simp

lemma grun_append: "grun i (xs @ ys) = grun i xs + grun (i + length xs) ys"
  by (induction xs arbitrary: i) auto

lemma gstin_weight_all:
  "list_all (\<lambda>a. list_all (\<lambda>b. gstin_weight 1 a mod 36 = gstin_weight 1 b mod 36 \<longrightarrow> a = b) [0..<36]) [0..<36]"
  by code_simp

lemma gstin_weight_inj:
  assumes "a < 36" "b < 36" "gstin_weight i a mod 36 = gstin_weight i b mod 36"
  shows "a = b"
proof (cases "i mod 2 = 1")
  case True
  then have "gstin_weight i = gstin_weight 1" by (auto simp: gstin_weight_def fun_eq_iff)
  then show ?thesis using gstin_weight_all [unfolded list_all_upt, rule_format, of a b] assms by simp
next
  case False
  with assms show ?thesis by (simp add: gstin_weight_def Let_def)
qed

lemma gstin_check_inj_all:
  "list_all (\<lambda>a. list_all (\<lambda>b. gstinAlphabet ! ((36 - a) mod 36) = gstinAlphabet ! ((36 - b) mod 36) \<longrightarrow> a = b) [0..<36]) [0..<36]"
  by code_simp

lemma gstin_check_inj:
  "gstinAlphabet ! ((36 - x mod 36) mod 36) = gstinAlphabet ! ((36 - y mod 36) mod 36) \<Longrightarrow> x mod 36 = y mod 36"
  by (rule gstin_check_inj_all [unfolded list_all_upt, rule_format]) simp_all

lemma GSTIN_grun:
  "GSTIN s \<longleftrightarrow> length s = 15 \<and> list_all gstin_char (take 14 s)
     \<and> s ! 14 = gstinAlphabet ! ((36 - grun 0 (map gstin_value (take 14 s)) mod 36) mod 36)"
  by (auto simp: GSTIN_def gstin_loop_grun)

section \<open>Properties\<close>

text \<open>The Verhoeff check catches every wrong digit and every swap of two adjacent digits, at any
  position of a number of any length.\<close>

theorem verhoeff_detects_errors:
  "(Verhoeff (xs @ a # ys) \<and> a \<noteq> b \<longrightarrow> \<not> Verhoeff (xs @ b # ys))
   \<and> (Verhoeff (xs @ a # b # ys) \<and> a \<noteq> b \<longrightarrow> \<not> Verhoeff (xs @ b # a # ys))"
proof (rule conjI; rule impI; elim conjE; rule notI)
  assume v: "Verhoeff (xs @ a # ys)" "Verhoeff (xs @ b # ys)" and "a \<noteq> b"
  have "digit_value a = digit_value b"
    by (rule vrun_substitution [of 0 "map digit_value (rev ys)" _ "map digit_value (rev xs)" _ 0])
      (use v digits_below_10 [of "rev (xs @ a # ys)"] in \<open>auto simp: Verhoeff_vrun is_digit_iff\<close>)
  then show False using \<open>a \<noteq> b\<close> by (simp add: digit_value_inj)
next
  assume v: "Verhoeff (xs @ a # b # ys)" "Verhoeff (xs @ b # a # ys)" and "a \<noteq> b"
  have "digit_value b = digit_value a"
    by (rule vrun_transposition [of 0 "map digit_value (rev ys)" _ _ "map digit_value (rev xs)" 0])
      (use v digits_below_10 [of "rev (xs @ a # b # ys)"] in \<open>auto simp: Verhoeff_vrun\<close>)
  then show False using \<open>a \<noteq> b\<close> by (simp add: digit_value_inj)
qed

theorem verhoeff_detects_errors_witness:
  "Verhoeff ''234123412346'' \<and> \<not> Verhoeff ''234123412347'' \<and> \<not> Verhoeff ''324123412346''"
proof -
  have ok: "Verhoeff ''234123412346''" by code_simp
  have "\<not> Verhoeff (''23412341234'' @ CHR ''7'' # [])"
    using verhoeff_detects_errors [of "''23412341234''" "CHR ''6''" "[]" "CHR ''7''"] ok by simp
  moreover have "\<not> Verhoeff ([] @ CHR ''3'' # CHR ''2'' # ''4123412346'')"
    using verhoeff_detects_errors [of "[]" "CHR ''2''" "''4123412346''" "CHR ''3''"] ok by simp
  ultimately show ?thesis using ok by simp
qed

text \<open>The Luhn check catches every wrong digit, and every swap of two adjacent digits except that of
  a 0 and a 9.\<close>

theorem luhn_detects_errors:
  "(Luhn (xs @ a # ys) \<and> a \<noteq> b \<longrightarrow> \<not> Luhn (xs @ b # ys))
   \<and> (Luhn (xs @ a # b # ys) \<and> a \<noteq> b \<and> \<not> (a = CHR ''0'' \<and> b = CHR ''9'') \<and> \<not> (a = CHR ''9'' \<and> b = CHR ''0'') \<longrightarrow> \<not> Luhn (xs @ b # a # ys))"
proof (rule conjI; rule impI; elim conjE; rule notI)
  assume v: "Luhn (xs @ a # ys)" "Luhn (xs @ b # ys)" and ne: "a \<noteq> b"
  let ?alt = "\<not> even (length ys)"
  let ?z = "lrun False (map digit_value (rev ys)) + lrun (\<not> ?alt) (map digit_value (rev xs))"
  have "(?z + luhn_weight ?alt (digit_value a)) mod 10 = (?z + luhn_weight ?alt (digit_value b)) mod 10"
    using v by (simp add: Luhn_lrun lrun_append add.commute add.left_commute)
  then have "luhn_weight ?alt (digit_value a) mod 10 = luhn_weight ?alt (digit_value b) mod 10"
    by (rule mod_sum_cancel)
  moreover have "digit_value a < 10" "digit_value b < 10" using v by (auto simp: Luhn_lrun is_digit_iff)
  ultimately show False using luhn_weight_inj ne digit_value_inj by blast
next
  assume v: "Luhn (xs @ a # b # ys)" "Luhn (xs @ b # a # ys)" and ne: "a \<noteq> b" "\<not> (a = CHR ''0'' \<and> b = CHR ''9'')" "\<not> (a = CHR ''9'' \<and> b = CHR ''0'')"
  let ?alt = "\<not> even (length ys)" and ?a = "digit_value a" and ?b = "digit_value b"
  let ?z = "lrun False (map digit_value (rev ys)) + lrun ?alt (map digit_value (rev xs))"
  have ab: "?a < 10" "?b < 10" using v by (auto simp: Luhn_lrun is_digit_iff)
  have "(?z + (luhn_weight ?alt ?b + luhn_weight (\<not> ?alt) ?a)) mod 10 = (?z + (luhn_weight ?alt ?a + luhn_weight (\<not> ?alt) ?b)) mod 10"
    using v by (simp add: Luhn_lrun lrun_append add.commute add.left_commute)
  then have "(luhn_weight ?alt ?b + luhn_weight (\<not> ?alt) ?a) mod 10 = (luhn_weight ?alt ?a + luhn_weight (\<not> ?alt) ?b) mod 10"
    by (rule mod_sum_cancel)
  then have "?a = ?b \<or> (?a = 0 \<and> ?b = 9) \<or> (?a = 9 \<and> ?b = 0)"
    using luhn_swap [OF ab] luhn_swap [OF ab(2,1)] by (cases ?alt) (auto simp: add.commute)
  moreover have "digit_value (CHR ''0'') = 0" "digit_value (CHR ''9'') = 9" by (simp_all add: digit_value_def)
  ultimately show False using ne digit_value_inj by metis
qed

theorem luhn_detects_errors_witness:
  "Luhn ''4111111111111111'' \<and> \<not> Luhn ''4111111111111112'' \<and> \<not> Luhn ''1411111111111111''"
proof -
  have ok: "Luhn ''4111111111111111''" by code_simp
  have "\<not> Luhn (''411111111111111'' @ CHR ''2'' # [])"
    using luhn_detects_errors [of "''411111111111111''" "CHR ''1''" "[]" "CHR ''2''"] ok by simp
  moreover have "\<not> Luhn ([] @ CHR ''1'' # CHR ''4'' # ''11111111111111'')"
    using luhn_detects_errors [of "[]" "CHR ''4''" "''11111111111111''" "CHR ''1''"] ok by simp
  ultimately show ?thesis using ok by simp
qed

text \<open>The GSTIN check character catches every change of one of the fifteen characters.\<close>

theorem gstin_detects_substitution:
  assumes "GSTIN s" "k < 15" "c \<noteq> s ! k"
  shows "\<not> GSTIN (s[k := c])"
proof
  assume g: "GSTIN (s[k := c])"
  have len: "length s = 15" using assms(1) by (simp add: GSTIN_grun)
  show False
  proof (cases "k = 14")
    case True
    have "take 14 (s[k := c]) = take 14 s" using True by simp
    with g assms(1,3) True len show False by (simp add: GSTIN_grun)
  next
    case False
    then have k: "k < 14" using assms(2) by simp
    define xs ys where "xs = take k (take 14 s)" and "ys = drop (Suc k) (take 14 s)"
    have s14: "take 14 s = xs @ s ! k # ys" using k len id_take_nth_drop [of k "take 14 s"] by (simp add: xs_def ys_def)
    have "take 14 (s[k := c]) = (take 14 s)[k := c]" by (simp add: take_update_swap)
    then have c14: "take 14 (s[k := c]) = xs @ c # ys"
      using k len upd_conv_take_nth_drop [of k "take 14 s" c] by (simp add: xs_def ys_def)
    have chars: "gstin_char (s ! k)" "gstin_char c" using assms(1) g by (simp_all add: GSTIN_grun s14 c14)
    let ?z = "grun 0 (map gstin_value xs) + grun (length xs + 1) (map gstin_value ys)"
    have "(?z + gstin_weight (length xs) (gstin_value (s ! k))) mod 36 = (?z + gstin_weight (length xs) (gstin_value c)) mod 36"
      using assms(1) g False gstin_check_inj
      by (simp add: GSTIN_grun s14 c14 grun_append add.commute add.left_commute)
    then have "gstin_value (s ! k) = gstin_value c"
      using gstin_weight_inj [OF gstin_value_lt gstin_value_lt, OF chars] mod_sum_cancel by blast
    then show False using gstin_value_inj chars assms(3) by blast
  qed
qed

theorem gstin_detects_substitution_witness:
  "GSTIN ''27AAPFU0939F1ZV'' \<and> \<not> GSTIN (''27AAPFU0939F1ZV''[3 := CHR ''B''])"
proof -
  have ok: "GSTIN ''27AAPFU0939F1ZV''" by code_simp
  then show ?thesis using gstin_detects_substitution [OF ok, of 3 "CHR ''B''"] by simp
qed

end
