(* ===== verification/Pii.thy ===== *)
theory Pii
  imports Detect Validators Regex
begin

text \<open>
  \<open>internal/detect/pii.go\<close>: the patterns of the India pack, the checks that turn a shape into a
  finding, and the scan of one part. The suppression of contained findings is in \<open>Detect\<close>.
\<close>

section \<open>Patterns\<close>

definition digit :: re where "digit = cls [(CHR ''0'', CHR ''9'')]"
definition upper :: re where "upper = cls [(CHR ''A'', CHR ''Z'')]"
definition upper_digit :: re where "upper_digit = cls [(CHR ''0'', CHR ''9''), (CHR ''A'', CHR ''Z'')]"
definition space_dash :: re where "space_dash = cls [(CHR '' '', CHR '' ''), (CHR ''-'', CHR ''-'')]"

definition aadhaarRe :: re where
  "aadhaarRe = seq [WordB, cls [(CHR ''2'', CHR ''9'')], times 3 digit, opt space_dash, times 4 digit, opt space_dash,
     times 4 digit, WordB]"

definition panRe :: re where
  "panRe = seq [WordB, times 5 upper, times 4 digit, upper, WordB]"

definition gstinRe :: re where
  "gstinRe = seq [WordB, times 2 digit, times 5 upper, times 4 digit, upper, upper_digit, chr (CHR ''Z''),
     upper_digit, WordB]"

definition ifscRe :: re where
  "ifscRe = seq [WordB, times 4 upper, chr (CHR ''0''), times 6 upper_digit, WordB]"

definition accountRe :: re where
  "accountRe = seq [WordB, between 9 18 digit, WordB]"

definition mobileRe :: re where
  "mobileRe = seq [opt (alts [seq [lit ''+91'', opt space_dash], seq [WordB, chr (CHR ''0'')]]),
     cls [(CHR ''6'', CHR ''9'')], times 9 digit, WordB]"

definition passportRe :: re where
  "passportRe = seq [WordB, cls [(CHR ''A'', CHR ''P''), (CHR ''R'', CHR ''W''), (CHR ''Y'', CHR ''Y'')],
     cls [(CHR ''1'', CHR ''9'')], digit, opt (chr (CHR '' '')), times 4 digit, cls [(CHR ''1'', CHR ''9'')], WordB]"

definition cardRe :: re where
  "cardRe = seq [WordB, digit,
     between 11 21 (cls [(CHR ''0'', CHR ''9''), (CHR '' '', CHR '' ''), (CHR ''-'', CHR ''-'')]), digit, WordB]"

definition emailRe :: re where
  "emailRe =
     (let alnum = [(CHR ''A'', CHR ''Z''), (CHR ''a'', CHR ''z''), (CHR ''0'', CHR ''9'')];
          host = plus1 (cls (alnum @ [(CHR ''-'', CHR ''-'')]))
      in seq [WordB,
           plus1 (cls (alnum @ [(CHR ''.'', CHR ''.''), (CHR ''_'', CHR ''_''), (CHR ''%'', CHR ''%''),
             (CHR ''+'', CHR ''+''), (CHR ''-'', CHR ''-'')])),
           chr (CHR ''@''), host, plus1 (seq [chr (CHR ''.''), host]), WordB])"

definition vpaRe :: re where
  "vpaRe =
     (let letters = [(CHR ''A'', CHR ''Z''), (CHR ''a'', CHR ''z'')]
      in seq [WordB,
           between 2 64 (cls (letters @ [(CHR ''0'', CHR ''9''), (CHR ''.'', CHR ''.''), (CHR ''-'', CHR ''-''),
             (CHR ''_'', CHR ''_'')])),
           chr (CHR ''@''), Grp (between 2 64 (cls letters)), WordB])"

definition upiHandles :: "string list" where
  "upiHandles = [''okhdfcbank'', ''okicici'', ''oksbi'', ''okaxis'', ''ybl'', ''ibl'', ''axl'', ''apl'', ''yapl'',
     ''paytm'', ''upi'', ''airtel'', ''freecharge'', ''jupiteraxis'', ''fam'', ''naviaxis'', ''superyes'']"

definition bankAccountWindow :: int where "bankAccountWindow = 120"

definition scoreChecksum :: rat where "scoreChecksum = 1"
definition scoreShape :: rat where "scoreShape = 7 / 10"

section \<open>The scan\<close>

definition nearAny :: "int \<times> int \<Rightarrow> (int \<times> int) list \<Rightarrow> int \<Rightarrow> bool" where
  "nearAny loc anchors window = list_ex (\<lambda>a. fst loc < snd a + window \<and> fst a < snd loc + window) anchors"

definition pii_finding :: "int \<Rightarrow> string \<Rightarrow> re_match \<Rightarrow> rat \<Rightarrow> finding" where
  "pii_finding part typ m score =
     \<lparr>f_detector = DetectorPII, f_type = typ,
      f_span = \<lparr>span_part = part, span_start = int (m_start m), span_end = int (m_end m)\<rparr>, f_score = score\<rparr>"

text \<open>One of the loops of \<open>scan\<close>: the matches that pass its check, as findings of its type.\<close>

definition hits :: "int \<Rightarrow> string \<Rightarrow> re \<Rightarrow> (re_match \<Rightarrow> bool) \<Rightarrow> string \<Rightarrow> rat \<Rightarrow> finding list" where
  "hits part body r check typ score = map (\<lambda>m. pii_finding part typ m score) (filter check (FindAll r body))"

definition aadhaar_check :: "string \<Rightarrow> bool" where
  "aadhaar_check s = (let d = digitsOnly s in length d = 12 \<and> Verhoeff d)"

definition card_check :: "string \<Rightarrow> bool" where
  "card_check s = (let d = digitsOnly s in length d \<ge> 13 \<and> length d \<le> 19 \<and> Luhn d)"

definition vpa_check :: "string \<Rightarrow> re_match \<Rightarrow> bool" where
  "vpa_check body m =
     (case m_group m of
        None \<Rightarrow> False
      | Some (i, j) \<Rightarrow>
          (let handle = take (j - i) (drop i body) in
           if m_end m < length body \<and> body ! m_end m = CHR ''.'' then False
           else map lower_byte handle \<in> set upiHandles))"

definition PII_scan :: "int \<Rightarrow> string \<Rightarrow> finding list" where
  "PII_scan part body =
     (let ifscs = FindAll ifscRe body;
          out =
            hits part body aadhaarRe (\<lambda>m. aadhaar_check (matched body m)) TypeAadhaar scoreChecksum
            @ hits part body cardRe (\<lambda>m. card_check (matched body m)) TypeCard scoreChecksum
            @ hits part body gstinRe (\<lambda>m. GSTIN (matched body m)) TypeGSTIN scoreChecksum
            @ hits part body panRe (\<lambda>_. True) TypePAN scoreShape
            @ hits part body passportRe (\<lambda>_. True) TypeIndianPassport scoreShape
            @ hits part body mobileRe (\<lambda>_. True) TypeIndianMobile scoreShape
            @ hits part body emailRe (\<lambda>_. True) TypeEmail scoreShape
            @ hits part body vpaRe (vpa_check body) TypeUPIVPA scoreShape
            @ map (\<lambda>m. pii_finding part TypeIFSC m scoreShape) ifscs
            @ (if length ifscs > 0
               then hits part body accountRe (\<lambda>m. nearAny (m_loc m) (map m_loc ifscs) bankAccountWindow)
                 TypeBankAccount scoreShape
               else [])
      in suppressContained out)"

definition PII_Detect :: "request \<Rightarrow> finding list \<times> go_error option" where
  "PII_Detect req = (scan_parts PII_scan 0 (r_parts req), None)"

definition PII :: detector where
  "PII = \<lparr>det_Name = DetectorPII, det_Detect = PII_Detect\<rparr>"

section \<open>What a finding stands for\<close>

lemma hits_mem:
  "f \<in> set (hits part body r check typ score) \<Longrightarrow>
     \<exists>m \<in> set (FindAll r body). check m \<and> f = pii_finding part typ m score"
  by (auto simp: hits_def)

lemma pii_finding_within:
  "m \<in> set (FindAll r body) \<Longrightarrow> finding_within (int (length body)) (pii_finding part typ m score)"
  using FindAll_bounds [of m r body] by (simp add: finding_within_def pii_finding_def)

definition finding_text :: "string \<Rightarrow> finding \<Rightarrow> string" where
  "finding_text body f =
     take (nat (span_end (f_span f)) - nat (span_start (f_span f))) (drop (nat (span_start (f_span f))) body)"

lemma finding_text_match: "finding_text body (pii_finding part typ m score) = matched body m"
  by (simp add: finding_text_def pii_finding_def matched_def)

text \<open>What each type of finding has been checked for.\<close>

definition pii_checked :: "string \<Rightarrow> finding \<Rightarrow> bool" where
  "pii_checked body f =
     ((f_type f = TypeAadhaar \<longrightarrow> aadhaar_check (finding_text body f))
      \<and> (f_type f = TypeCard \<longrightarrow> card_check (finding_text body f))
      \<and> (f_type f = TypeGSTIN \<longrightarrow> GSTIN (finding_text body f))
      \<and> (f_score f = scoreChecksum \<longrightarrow> f_type f \<in> {TypeAadhaar, TypeCard, TypeGSTIN}))"

definition pii_ok :: "int \<Rightarrow> string \<Rightarrow> finding \<Rightarrow> bool" where
  "pii_ok part body f =
     (f_detector f = DetectorPII \<and> span_part (f_span f) = part \<and> finding_within (int (length body)) f \<and> pii_checked body f)"

lemma pii_ok_hits:
  assumes "\<And>m. check m \<Longrightarrow> pii_checked body (pii_finding part typ m score)"
  shows "\<forall>f \<in> set (hits part body r check typ score). pii_ok part body f"
proof
  fix f assume "f \<in> set (hits part body r check typ score)"
  then obtain m where "m \<in> set (FindAll r body)" "check m" "f = pii_finding part typ m score"
    by (blast dest: hits_mem)
  with assms [of m] pii_finding_within [of m r body] show "pii_ok part body f"
    by (simp add: pii_ok_def pii_finding_def)
qed

lemma pii_checked_simps:
  "pii_checked body (pii_finding part TypeAadhaar m score) = aadhaar_check (matched body m)"
  "pii_checked body (pii_finding part TypeCard m score) = card_check (matched body m)"
  "pii_checked body (pii_finding part TypeGSTIN m score) = GSTIN (matched body m)"
  "typ \<in> {TypePAN, TypeIndianPassport, TypeIndianMobile, TypeEmail, TypeUPIVPA, TypeIFSC, TypeBankAccount} \<Longrightarrow>
     pii_checked body (pii_finding part typ m scoreShape)"
  by (auto simp: pii_checked_def finding_text_match, auto simp: pii_finding_def go_consts scoreShape_def scoreChecksum_def)

lemma PII_scan_ok: "\<forall>f \<in> set (PII_scan part body). pii_ok part body f"
proof -
  have ifsc: "\<forall>f \<in> set (map (\<lambda>m. pii_finding part TypeIFSC m scoreShape) (FindAll ifscRe body)). pii_ok part body f"
    using pii_ok_hits [of "\<lambda>_. True" body part TypeIFSC scoreShape ifscRe] by (simp add: hits_def pii_checked_simps)
  show ?thesis
    unfolding PII_scan_def Let_def suppressContained_eq
    by (rule ballI, drule subsetD [OF suppressed_subset])
      (use ifsc in \<open>auto simp: pii_checked_simps dest!: bspec [OF pii_ok_hits, rotated] split: if_splits\<close>)
qed

lemma PII_scan_within: "scan_within PII_scan"
  using PII_scan_ok by (auto simp: scan_within_def pii_ok_def)

interpretation pii: bounded_detector PII
  by unfold_locales (auto simp: PII_def PII_Detect_def intro: scan_parts_in_bounds [OF PII_scan_within])

section \<open>Properties\<close>

text \<open>C35: every finding of the PII detector lies inside the part it names and is backed by what its type
  claims: an Aadhaar number has twelve digits with a valid Verhoeff digit, a card 13 to 19 digits
  that pass Luhn, a GSTIN its check character, and only these carry the checksum score. No finding
  lies inside another finding of the part.\<close>

theorem pii_findings_checked:
  assumes "f \<in> set (PII_scan part body)"
  shows "f_detector f = DetectorPII \<and> span_part (f_span f) = part \<and> finding_within (int (length body)) f
    \<and> (f_type f = TypeAadhaar \<longrightarrow> length (digitsOnly (finding_text body f)) = 12 \<and> Verhoeff (digitsOnly (finding_text body f)))
    \<and> (f_type f = TypeCard \<longrightarrow> length (digitsOnly (finding_text body f)) \<in> {13..19} \<and> Luhn (digitsOnly (finding_text body f)))
    \<and> (f_type f = TypeGSTIN \<longrightarrow> GSTIN (finding_text body f))
    \<and> (f_score f = scoreChecksum \<longrightarrow> f_type f \<in> {TypeAadhaar, TypeCard, TypeGSTIN})
    \<and> (\<forall>g \<in> set (PII_scan part body). span_within (f_span f) (f_span g) \<longrightarrow> f = g)"
proof -
  have "\<forall>g \<in> set (PII_scan part body). span_within (f_span f) (f_span g) \<longrightarrow> f = g"
    using assms suppressed_unique by (auto simp: PII_scan_def Let_def suppressContained_eq)
  then show ?thesis
    using PII_scan_ok [of part body] assms
    by (auto simp: pii_ok_def pii_checked_def aadhaar_check_def card_check_def Let_def)
qed

theorem pii_findings_checked_witness:
  "\<exists>f \<in> set (PII_scan 0 ''2341 2341 2346''). span_start (f_span f) = 0 \<and> span_end (f_span f) = 14
     \<and> f_detector f = DetectorPII"
proof -
  let ?body = "''2341 2341 2346''"
  define m where "m = \<lparr>m_start = 0, m_end = 14, m_group = None\<rparr>"
  define ifscs where "ifscs = FindAll ifscRe ?body"
  have "FindAll aadhaarRe ?body = [m]" by (simp add: regex_eval digit_def space_dash_def aadhaarRe_def m_def)
  moreover have "aadhaar_check (matched ?body m)"
    by (simp add: m_def matched_def aadhaar_check_def Verhoeff_def digit_value_def verhoeffD_def verhoeffP_def)
  ultimately have hit: "pii_finding 0 TypeAadhaar m scoreChecksum
      \<in> set (hits 0 ?body aadhaarRe (\<lambda>m. aadhaar_check (matched ?body m)) TypeAadhaar scoreChecksum)"
    by (simp add: hits_def)
  obtain rest where "PII_scan 0 ?body = suppressed (hits 0 ?body aadhaarRe
      (\<lambda>m. aadhaar_check (matched ?body m)) TypeAadhaar scoreChecksum @ rest)"
    by (simp add: PII_scan_def Let_def suppressContained_eq)
  moreover have "pii_finding 0 TypeAadhaar m scoreChecksum \<in> set (hits 0 ?body aadhaarRe
      (\<lambda>m. aadhaar_check (matched ?body m)) TypeAadhaar scoreChecksum @ rest)" using hit by simp
  ultimately obtain f where f: "f \<in> set (PII_scan 0 ?body)" "span_within (f_span (pii_finding 0 TypeAadhaar m scoreChecksum)) (f_span f)"
    using suppressed_covers by metis
  then have "span_start (f_span f) \<le> 0" "14 \<le> span_end (f_span f)"
    by (auto simp: span_within_def pii_finding_def m_def)
  moreover have "finding_within (int (length ?body)) f" "f_detector f = DetectorPII"
    using pii_findings_checked [OF f(1)] by blast+
  ultimately show ?thesis using f(1) by (auto simp: finding_within_def intro!: bexI [of _ f])
qed

text \<open>The card pattern is greedy over digits and separators, and only its longest match is checked:
  a valid card number followed by a few more digits, such as a card's security code, is read as one
  longer number, fails the check and is not reported as a card.\<close>

theorem card_before_digits_missed:
  "card_check ''4111 1111 1111 1111'' \<and> TypeCard \<notin> f_type ` set (PII_scan part ''4111 1111 1111 1111 123'')"
proof
  show "card_check ''4111 1111 1111 1111''" by (simp add: card_check_def Luhn_def digit_value_def)
  let ?body = "''4111 1111 1111 1111 123''"
  have "FindAll cardRe ?body = [\<lparr>m_start = 0, m_end = 23, m_group = None\<rparr>]"
    by (simp add: regex_eval digit_def cardRe_def)
  moreover have "\<not> card_check (matched ?body \<lparr>m_start = 0, m_end = 23, m_group = None\<rparr>)"
    by (simp add: matched_def card_check_def Luhn_def digit_value_def)
  ultimately have "hits part ?body cardRe (\<lambda>m. card_check (matched ?body m)) TypeCard scoreChecksum = []"
    by (simp add: hits_def)
  moreover have "f_type f = ty" if "f \<in> set (hits part ?body r check ty score)" for f r check ty score
    using hits_mem [OF that] by (auto simp: pii_finding_def)
  moreover have "f_type (pii_finding part ty m score) = ty" for ty m score by (simp add: pii_finding_def)
  ultimately show "TypeCard \<notin> f_type ` set (PII_scan part ?body)"
    unfolding PII_scan_def Let_def suppressContained_eq
    by (intro notI, elim imageE, drule_tac subsetD [OF suppressed_subset])
      (fastforce simp: go_consts split: if_splits)
qed

end
