(* ===== verification/Custom_Dict.thy ===== *)
theory Custom_Dict
  imports Aho_Corasick_Correct Detect Regex Pii
begin

text \<open>
  \<open>internal/detect/customdict.go\<close>: a tenant's keywords, found by the automaton in one pass, and a
  tenant's regular expressions. What \<open>regexp.Compile\<close> makes of a pattern is a parameter, a syntax
  tree of \<open>Regex\<close> or an error.
\<close>

section \<open>The detector\<close>

record custom_dict =
  cd_ac :: aho_corasick
  cd_keywords :: "string list"
  cd_regexes :: "re list"

fun compile_all :: "(string \<Rightarrow> re result) \<Rightarrow> string list \<Rightarrow> custom_dict \<Rightarrow> custom_dict result" where
  "compile_all compile [] d = Inr d"
| "compile_all compile (p # ps) d =
     (case compile p of
        Inl err \<Rightarrow> Inl (Wrap (''custom_dict: pattern '' @ go_quote p) err)
      | Inr re \<Rightarrow> compile_all compile ps (d\<lparr>cd_regexes := cd_regexes d @ [re]\<rparr>))"

definition NewCustomDict :: "(string \<Rightarrow> re result) \<Rightarrow> string list \<Rightarrow> string list \<Rightarrow> custom_dict result" where
  "NewCustomDict compile ks patterns =
     compile_all compile patterns \<lparr>cd_ac = newAhoCorasick ks, cd_keywords = ks, cd_regexes = []\<rparr>"

definition Dict_Empty :: "custom_dict \<Rightarrow> bool" where
  "Dict_Empty d = (length (ac_terms (cd_ac d)) = 0 \<and> length (cd_regexes d) = 0)"

definition term_finding :: "int \<Rightarrow> int \<Rightarrow> int \<Rightarrow> finding" where
  "term_finding part start stop =
     \<lparr>f_detector = DetectorCustomDict, f_type = TypeCustomTerm,
      f_span = \<lparr>span_part = part, span_start = start, span_end = stop\<rparr>, f_score = scoreChecksum\<rparr>"

definition Dict_scan :: "custom_dict \<Rightarrow> int \<Rightarrow> string \<Rightarrow> finding list" where
  "Dict_scan d part body =
     map (\<lambda>m. term_finding part (am_start m) (am_end m)) (ac_find (cd_ac d) body)
     @ concat (map (\<lambda>re. map (\<lambda>m. term_finding part (int (m_start m)) (int (m_end m))) (FindAll re body)) (cd_regexes d))"

definition Dict_Detect :: "custom_dict \<Rightarrow> request \<Rightarrow> finding list \<times> go_error option" where
  "Dict_Detect d req =
     (if Dict_Empty d then ([], None) else (suppressContained (scan_parts (Dict_scan d) 0 (r_parts req)), None))"

definition CustomDict :: "custom_dict \<Rightarrow> detector" where
  "CustomDict d = \<lparr>det_Name = DetectorCustomDict, det_Detect = Dict_Detect d\<rparr>"

section \<open>Facts\<close>

text \<open>A dictionary as the constructor makes it.\<close>

definition dict_of :: "string list \<Rightarrow> custom_dict \<Rightarrow> bool" where
  "dict_of ks d = (cd_ac d = newAhoCorasick ks)"

lemma compile_all_ac: "compile_all compile ps d = Inr d' \<Longrightarrow> cd_ac d' = cd_ac d"
  by (induction ps arbitrary: d) (auto split: sum.splits)

lemma NewCustomDict_dict: "NewCustomDict compile ks patterns = Inr d \<Longrightarrow> dict_of ks d"
  using compile_all_ac by (fastforce simp: NewCustomDict_def dict_of_def)

lemma compile_all_ok:
  "(\<exists>d'. compile_all compile ps d = Inr d') = (\<forall>p \<in> set ps. \<exists>re. compile p = Inr re)"
  by (induction ps arbitrary: d) (auto split: sum.splits)

lemma term_finding_simps [simp]:
  "f_span (term_finding part a b) = \<lparr>span_part = part, span_start = a, span_end = b\<rparr>"
  by (simp add: term_finding_def)

lemma Dict_scan_within:
  assumes "dict_of ks d"
  shows "scan_within (Dict_scan d)"
proof -
  have "0 \<le> am_start m \<and> am_start m \<le> am_end m \<and> am_end m \<le> int (length body)"
    if "m \<in> set (ac_find (cd_ac d) body)" for m body
    using that ac_find_spec [of ks body] assms by (auto simp: dict_of_def occurs_def)
  then show ?thesis
    using FindAll_bounds by (fastforce simp: scan_within_def finding_within_def Dict_scan_def)
qed

lemma CustomDict_bounded:
  assumes "dict_of ks d"
  shows "bounded_detector (CustomDict d)"
proof unfold_locales
  fix f req
  assume "f \<in> set (fst (det_Detect (CustomDict d) req))"
  then have "f \<in> set (scan_parts (Dict_scan d) 0 (r_parts req))"
    using suppressed_subset by (fastforce simp: CustomDict_def Dict_Detect_def suppressContained_eq split: if_splits)
  then show "span_in_parts (r_parts req) (f_span f)"
    by (rule scan_parts_in_bounds [OF Dict_scan_within [OF assms]])
qed

interpretation custom_dict: bounded_detector
    "CustomDict \<lparr>cd_ac = newAhoCorasick ks, cd_keywords = ks, cd_regexes = res\<rparr>" for ks res
  by (rule CustomDict_bounded [of ks]) (simp add: dict_of_def)

end
