(* ===== verification/Injection.thy ===== *)
theory Injection
  imports Detect Regex
begin

text \<open>
  \<open>internal/detect/injection.go\<close>: the three patterns of the injection heuristic. Under \<open>(?i)\<close> a letter
  stands for every rune of its case-folding orbit, which for \<open>s\<close> and \<open>k\<close> holds the long s and the
  Kelvin sign.
\<close>

section \<open>Patterns\<close>

definition fold_class :: "char \<Rightarrow> (nat \<times> nat) list" where
  "fold_class c =
     (let b = byte_of c in
      if 97 \<le> b \<and> b \<le> 122 then
        [(b, b), (b - 32, b - 32)] @ (if b = 115 then [(0x17F, 0x17F)] else if b = 107 then [(0x212A, 0x212A)] else [])
      else [(b, b)])"

text \<open>\<open>ci s\<close>: the word \<open>s\<close>, given in lower case, under \<open>(?i)\<close>.\<close>

definition ci :: "string \<Rightarrow> re" where
  "ci s = seq (map (\<lambda>c. Cls False (fold_class c)) s)"

definition white :: re where
  "white = Cls False [(9, 10), (12, 13), (32, 32)]"

definition ws :: re where "ws = plus1 white"
definition ws0 :: re where "ws0 = star white"

definition words :: "string list \<Rightarrow> re" where
  "words xs = alts (map ci xs)"

definition overrideRe :: re where
  "overrideRe = seq [WordB, alts [
     seq [words [''ignore'', ''disregard'', ''forget'', ''override'', ''bypass''], ws,
       star (alts [seq [ci ''all'', ws], seq [ci ''any'', ws], seq [ci ''the'', ws], seq [ci ''your'', ws],
         seq [ci ''these'', ws], seq [ci ''those'', ws]]),
       opt (words [''previous'', ''prior'', ''earlier'', ''above'', ''preceding'', ''initial'', ''original'', ''system'']), ws0,
       words [''instruction'', ''instructions'', ''prompt'', ''prompts'', ''rule'', ''rules'', ''direction'', ''directions'',
         ''context'', ''guardrail'', ''guardrails'']],
     seq [ci ''new'', ws, ci ''instruction'', opt (ci ''s''), ws0, chr (CHR '':'')],
     seq [ci ''instead'', ws, ci ''of'', ws, opt (seq [ci ''the'', ws]), words [''above'', ''previous'', ''your''], ws,
       alts [seq [ci ''instruction'', opt (ci ''s'')], seq [ci ''rule'', opt (ci ''s'')]]],
     seq [ci ''you'', ws, ci ''are'', ws, ci ''now'', ws,
       alts [ci ''a'', ci ''an'', ci ''in'', seq [ci ''no'', ws, ci ''longer''], ci ''unrestricted'', ci ''jailbroken'',
         ci ''free'', ci ''allowed''], WordB],
     seq [words [''act'', ''behave''], ws, ci ''as'', ws,
       opt (seq [ci ''if'', ws, ci ''you'', ws, ci ''are'', ws]), opt (alts [ci ''a'', ci ''an'']), ws0,
       words [''developer'', ''dan'', ''jailbroken'', ''unrestricted'']],
     seq [alts [seq [ci ''do'', ws, ci ''not''], seq [ci ''don'', chr (CHR 0x27), ci ''t''], ci ''never''], ws,
       words [''tell'', ''mention'', ''reveal'', ''inform''], ws, opt (seq [ci ''the'', ws]), ci ''user''],
     seq [ci ''reveal'', ws, opt (seq [ci ''your'', ws]),
       alts [seq [ci ''system'', ws, ci ''prompt''], ci ''instructions'', ci ''prompt'']],
     seq [ci ''print'', ws, opt (seq [ci ''your'', ws]),
       alts [seq [ci ''system'', ws, ci ''prompt''], ci ''instructions'']]]]"

definition spoofRe :: re where
  "spoofRe = alts [
     seq [lit ''<|'', words [''im_start'', ''im_end'', ''system'', ''user'', ''assistant'', ''endoftext''], lit ''|>''],
     seq [chr (CHR ''[''), opt (chr (CHR ''/'')), ci ''inst'', chr (CHR '']'')],
     seq [lit ''<<'', ws0, ci ''sys'', ws0, lit ''>>''],
     seq [LineStart, ws0, opt (seq [lit ''###'', ws0]), words [''system'', ''assistant'', ''human''], ws0, chr (CHR '':'')],
     seq [chr (CHR ''<''), opt (chr (CHR ''/'')), words [''system'', ''assistant''], chr (CHR ''>'')]]"

definition any_rune :: re where "any_rune = Cls True []"
definition not_gt :: re where "not_gt = Cls True [(62, 62)]"
definition quote :: re where "quote = Cls False [(34, 34), (39, 39)]"
definition not_quote :: re where "not_quote = Cls True [(34, 34), (39, 39)]"

definition hiddenRe :: re where
  "hiddenRe = alts [
     seq [lit ''<!--'', Rep False 0 None any_rune, lit ''-->''],
     seq [chr (CHR ''<''), star not_gt, ci ''style'', ws0, chr (CHR ''=''), ws0, quote, star not_quote,
       alts [seq [ci ''display'', ws0, chr (CHR '':''), ws0, ci ''none''],
             seq [ci ''font-size'', ws0, chr (CHR '':''), ws0, chr (CHR ''0'')]]]]"

definition scoreOverride :: rat where "scoreOverride = 8 / 10"
definition scoreSpoof :: rat where "scoreSpoof = 6 / 10"
definition scoreHidden :: rat where "scoreHidden = 6 / 10"

section \<open>The detector\<close>

definition injection_patterns :: "(re \<times> string \<times> rat) list" where
  "injection_patterns = [(overrideRe, TypeInstructionOverride, scoreOverride), (spoofRe, TypeRoleSpoof, scoreSpoof),
     (hiddenRe, TypeHiddenText, scoreHidden)]"

definition Injection_scan :: "int \<Rightarrow> string \<Rightarrow> finding list" where
  "Injection_scan part body =
     concat (map (\<lambda>(r, ty, score).
       map (\<lambda>m. \<lparr>f_detector = DetectorInjectionHeuristic, f_type = ty,
           f_span = \<lparr>span_part = part, span_start = int (m_start m), span_end = int (m_end m)\<rparr>, f_score = score\<rparr>)
         (FindAll r body)) injection_patterns)"

definition InjectionHeuristic :: detector where
  "InjectionHeuristic = \<lparr>det_Name = DetectorInjectionHeuristic,
     det_Detect = (\<lambda>req. (scan_parts Injection_scan 0 (r_parts req), None))\<rparr>"

lemma Injection_scan_within: "scan_within Injection_scan"
  using FindAll_bounds by (fastforce simp: scan_within_def finding_within_def Injection_scan_def)

interpretation injection: bounded_detector InjectionHeuristic
  by unfold_locales (auto simp: InjectionHeuristic_def intro: scan_parts_in_bounds [OF Injection_scan_within])

end
