(* ===== verification/Exfil.thy ===== *)
theory Exfil
  imports Detect Regex Injection
begin

text \<open>
  \<open>internal/detect/exfil.go\<close>: URLs that carry data out, markdown images, and hosts outside the
  allow-list. \<open>url.Parse\<close> with the accessors the code calls, and \<open>strings.ToLower\<close> beyond ASCII, are
  parameters.
\<close>

section \<open>Package net/url\<close>

record url =
  url_Hostname :: string
  url_Query :: "(string \<times> string list) list"
  url_Fragment :: string

record url_lib =
  ul_Parse :: "string \<Rightarrow> url option"
  ul_ToLower :: "string \<Rightarrow> string"

section \<open>Patterns\<close>

definition urlRe :: re where
  "urlRe = seq [lit ''http'', opt (chr (CHR ''s'')), lit ''://'',
     plus1 (Cls True [(9, 10), (12, 13), (32, 32), (60, 60), (62, 62), (34, 34), (39, 39), (41, 41), (93, 93)])]"

definition mdImageRe :: re where
  "mdImageRe = seq [lit ''!['', star (Cls True [(93, 93)]), lit '']('',
     seq [lit ''http'', opt (chr (CHR ''s'')), lit ''://'', plus1 (Cls True [(9, 10), (12, 13), (32, 32), (41, 41)])],
     chr (CHR '')'')]"

definition dataParamB :: nat where "dataParamB = 24"

section \<open>The allow-list\<close>

text \<open>\<open>None\<close> is the nil map of a detector without an allow-list.\<close>

definition NewExfilURL :: "url_lib \<Rightarrow> string list \<Rightarrow> string set option" where
  "NewExfilURL lib allowedDomains =
     (if length allowedDomains > 0
      then Some ((\<lambda>d. ul_ToLower lib (case cut_prefix d ''.'' of Some rest \<Rightarrow> rest | None \<Rightarrow> d)) ` set allowedDomains)
      else None)"

function permitted_loop :: "string set \<Rightarrow> string \<Rightarrow> bool" where
  "permitted_loop allowed host =
     (if host \<in> allowed then True
      else case dropWhile (\<lambda>c. c \<noteq> CHR ''.'') host of [] \<Rightarrow> False | c # rest \<Rightarrow> permitted_loop allowed rest)"
  by pat_completeness auto
termination
proof (relation "measure (\<lambda>(allowed, host). length host)")
  fix allowed :: "string set" and host c rest
  assume "dropWhile (\<lambda>c. c \<noteq> CHR ''.'') host = c # rest"
  then have "length (c # rest) \<le> length host" by (metis length_dropWhile_le)
  then show "((allowed, rest), allowed, host) \<in> measure (\<lambda>(allowed, host). length host)" by simp
qed simp

declare permitted_loop.simps [simp del]

definition permitted :: "url_lib \<Rightarrow> string set \<Rightarrow> string \<Rightarrow> bool" where
  "permitted lib allowed host = permitted_loop allowed (ul_ToLower lib host)"

section \<open>The detector\<close>

definition carries_value :: "string \<Rightarrow> bool" where
  "carries_value v = (length v \<ge> dataParamB \<or> list_ex (\<lambda>c. c = CHR ''@'' \<or> c = CHR '' '' \<or> c = CHR 0x0A) v)"

definition carriesData :: "url \<Rightarrow> bool" where
  "carriesData u =
     (list_ex (\<lambda>(k, values). list_ex carries_value values) (url_Query u) \<or> length (url_Fragment u) \<ge> dataParamB)"

definition exfil_finding :: "int \<Rightarrow> string \<Rightarrow> rat \<Rightarrow> re_match \<Rightarrow> finding" where
  "exfil_finding part ty score m =
     \<lparr>f_detector = DetectorExfilURL, f_type = ty,
      f_span = \<lparr>span_part = part, span_start = int (m_start m), span_end = int (m_end m)\<rparr>, f_score = score\<rparr>"

definition url_findings :: "url_lib \<Rightarrow> string set option \<Rightarrow> int \<Rightarrow> string \<Rightarrow> re_match \<Rightarrow> finding list" where
  "url_findings lib allowed part body m =
     (case ul_Parse lib (matched body m) of
        None \<Rightarrow> []
      | Some u \<Rightarrow>
          (case allowed of
             Some ds \<Rightarrow> if \<not> permitted lib ds (url_Hostname u) then [exfil_finding part TypeDisallowedDomain scoreOverride m] else []
           | None \<Rightarrow> [])
          @ (if carriesData u then [exfil_finding part TypeDataBearingURL scoreSpoof m] else []))"

definition Exfil_scan :: "url_lib \<Rightarrow> string set option \<Rightarrow> int \<Rightarrow> string \<Rightarrow> finding list" where
  "Exfil_scan lib allowed part body =
     map (exfil_finding part TypeMarkdownImage scoreOverride) (FindAll mdImageRe body)
     @ concat (map (url_findings lib allowed part body) (FindAll urlRe body))"

definition ExfilURL :: "url_lib \<Rightarrow> string set option \<Rightarrow> detector" where
  "ExfilURL lib allowed = \<lparr>det_Name = DetectorExfilURL,
     det_Detect = (\<lambda>req. (scan_parts (Exfil_scan lib allowed) 0 (r_parts req), None))\<rparr>"

section \<open>Facts\<close>

lemma exfil_finding_simps [simp]:
  "f_span (exfil_finding part ty score m) = \<lparr>span_part = part, span_start = int (m_start m), span_end = int (m_end m)\<rparr>"
  "f_type (exfil_finding part ty score m) = ty"
  by (simp_all add: exfil_finding_def)

lemma url_findings_mem:
  "f \<in> set (url_findings lib allowed part body m) \<Longrightarrow> \<exists>ty score. f = exfil_finding part ty score m"
  by (auto simp: url_findings_def split: option.splits if_splits)

lemma Exfil_scan_within: "scan_within (Exfil_scan lib allowed)"
  using FindAll_bounds url_findings_mem by (fastforce simp: scan_within_def finding_within_def Exfil_scan_def)

interpretation exfil: bounded_detector "ExfilURL lib allowed" for lib allowed
  by unfold_locales (auto simp: ExfilURL_def intro: scan_parts_in_bounds [OF Exfil_scan_within])

section \<open>Properties\<close>

lemma split_first_dot:
  "dropWhile (\<lambda>c. c \<noteq> CHR ''.'') host = c # rest \<Longrightarrow>
     \<exists>label. host = label @ ''.'' @ rest \<and> CHR ''.'' \<notin> set label"
proof (induction host)
  case (Cons x host)
  show ?case
  proof (cases "x = CHR ''.''")
    case True
    then have "x # host = [] @ ''.'' @ rest" "CHR ''.'' \<notin> set ([] :: string)" using Cons.prems by simp_all
    then show ?thesis by blast
  next
    case False
    then have "dropWhile (\<lambda>c. c \<noteq> CHR ''.'') host = c # rest" using Cons.prems by simp
    then obtain label where label: "host = label @ ''.'' @ rest" "CHR ''.'' \<notin> set label" using Cons.IH by blast
    then have "x # host = (x # label) @ ''.'' @ rest" "CHR ''.'' \<notin> set (x # label)" using False by simp_all
    then show ?thesis by blast
  qed
qed simp

lemma permitted_loop_iff: "permitted_loop allowed host = (host \<in> allowed \<or> (\<exists>p d. host = p @ ''.'' @ d \<and> d \<in> allowed))"
proof (induction allowed host rule: permitted_loop.induct)
  case (1 allowed host)
  show ?case
  proof (cases "dropWhile (\<lambda>c. c \<noteq> CHR ''.'') host")
    case Nil
    then have "CHR ''.'' \<notin> set host" by (auto simp: dropWhile_eq_Nil_conv)
    then have "\<not> (\<exists>p d. host = p @ ''.'' @ d \<and> d \<in> allowed)" by auto
    moreover have "permitted_loop allowed host = (host \<in> allowed)" by (subst permitted_loop.simps) (simp add: Nil)
    ultimately show ?thesis by blast
  next
    case (Cons c rest)
    obtain label where label: "host = label @ ''.'' @ rest" "CHR ''.'' \<notin> set label" using split_first_dot [OF Cons] by blast
    have tails: "(\<exists>p d. host = p @ ''.'' @ d \<and> d \<in> allowed)
        \<longleftrightarrow> rest \<in> allowed \<or> (\<exists>p d. rest = p @ ''.'' @ d \<and> d \<in> allowed)"
    proof
      assume "\<exists>p d. host = p @ ''.'' @ d \<and> d \<in> allowed"
      then obtain p d where pd: "host = p @ ''.'' @ d" "d \<in> allowed" by blast
      from pd(1) label(1) have "label @ CHR ''.'' # rest = p @ CHR ''.'' # d" by simp
      then obtain us where "label = p @ us \<and> us @ CHR ''.'' # rest = CHR ''.'' # d
          \<or> label @ us = p \<and> CHR ''.'' # rest = us @ CHR ''.'' # d"
        by (auto simp: append_eq_append_conv2)
      then show "rest \<in> allowed \<or> (\<exists>p d. rest = p @ ''.'' @ d \<and> d \<in> allowed)"
        using pd(2) label(2) by (cases us) auto
    next
      assume "rest \<in> allowed \<or> (\<exists>p d. rest = p @ ''.'' @ d \<and> d \<in> allowed)"
      then show "\<exists>p d. host = p @ ''.'' @ d \<and> d \<in> allowed"
      proof
        assume "rest \<in> allowed" then show ?thesis using label(1) by blast
      next
        assume "\<exists>p d. rest = p @ ''.'' @ d \<and> d \<in> allowed"
        then obtain p d where "rest = p @ ''.'' @ d" "d \<in> allowed" by blast
        then show ?thesis using label(1) by (intro exI [of _ "label @ ''.'' @ p"] exI [of _ d]) simp
      qed
    qed
    show ?thesis
    proof (cases "host \<in> allowed")
      case False
      then have "permitted_loop allowed host = permitted_loop allowed rest"
        by (subst permitted_loop.simps) (simp add: Cons)
      then show ?thesis using "1.IH" [OF False Cons] False tails by simp
    next
      case True
      then have "permitted_loop allowed host" by (subst permitted_loop.simps) simp
      with True show ?thesis by blast
    qed
  qed
qed

text \<open>
  A host belongs to a domain of the configuration, with or without a leading dot: without regard to case it is the
  domain, or ends with it behind a dot.
\<close>

definition bare_domain :: "string \<Rightarrow> string \<Rightarrow> bool" where
  "bare_domain d n = (d = ''.'' @ n \<or> d = n \<and> take 1 d \<noteq> ''.'')"

definition belongs_to :: "url_lib \<Rightarrow> string \<Rightarrow> string \<Rightarrow> bool" where
  "belongs_to lib host d =
     (\<exists>n. bare_domain d n \<and> (ul_ToLower lib host = ul_ToLower lib n \<or> (\<exists>p. ul_ToLower lib host = p @ ''.'' @ ul_ToLower lib n)))"

lemma bare_domain_cut: "bare_domain d n \<longleftrightarrow> n = (case cut_prefix d ''.'' of Some rest \<Rightarrow> rest | None \<Rightarrow> d)"
  by (cases d) (auto simp: bare_domain_def cut_prefix_def)

lemma permitted_belongs:
  "NewExfilURL lib domains = Some ds \<Longrightarrow> permitted lib ds host \<longleftrightarrow> (\<exists>d \<in> set domains. belongs_to lib host d)"
  unfolding permitted_def permitted_loop_iff belongs_to_def bare_domain_cut NewExfilURL_def
  by (simp split: if_splits) blast

text \<open>C40: the allow-list permits its domains and their subdomains and nothing else: a host is reported
  as disallowed exactly when it belongs to no domain of the list given, so a
  name that merely ends in the same letters does not pass. Without a list nothing is reported.\<close>

theorem exfil_disallowed_iff:
  assumes "m \<in> set (FindAll urlRe body)" "ul_Parse lib (matched body m) = Some u"
  shows "(exfil_finding part TypeDisallowedDomain scoreOverride m \<in> set (Exfil_scan lib (NewExfilURL lib domains) part body)) =
    (domains \<noteq> [] \<and> \<not> (\<exists>d \<in> set domains. belongs_to lib (url_Hostname u) d))"
proof -
  let ?f = "exfil_finding part TypeDisallowedDomain scoreOverride m" and ?allowed = "NewExfilURL lib domains"
  have "?f \<in> set (url_findings lib ?allowed part body m)" if there: "?f \<in> set (url_findings lib ?allowed part body m')" for m'
  proof -
    obtain ty score where "?f = exfil_finding part ty score m'" using url_findings_mem [OF there] by blast
    then have "m_start m' = m_start m" "m_end m' = m_end m" by (simp_all add: exfil_finding_def)
    then show ?thesis using there by (simp add: url_findings_def matched_def exfil_finding_def)
  qed
  then have "?f \<in> set (Exfil_scan lib ?allowed part body) \<longleftrightarrow> ?f \<in> set (url_findings lib ?allowed part body m)"
    using assms(1) by (auto simp: Exfil_scan_def exfil_finding_def go_consts)
  also have "\<dots> \<longleftrightarrow> (\<exists>ds. ?allowed = Some ds \<and> \<not> permitted lib ds (url_Hostname u))"
    using assms(2) by (cases ?allowed) (auto simp: url_findings_def exfil_finding_def go_consts)
  finally have iff: "?f \<in> set (Exfil_scan lib ?allowed part body) \<longleftrightarrow> (\<exists>ds. ?allowed = Some ds \<and> \<not> permitted lib ds (url_Hostname u))" .
  show ?thesis
  proof (cases "domains = []")
    case True
    then show ?thesis using iff by (simp add: NewExfilURL_def)
  next
    case False
    then obtain ds where ds: "?allowed = Some ds" by (simp add: NewExfilURL_def)
    show ?thesis using iff ds permitted_belongs [OF ds] False by simp
  qed
qed

definition plain_urls :: url_lib where
  "plain_urls = \<lparr>ul_Parse = (\<lambda>raw. Some \<lparr>url_Hostname = takeWhile (\<lambda>c. c \<noteq> CHR ''/'') (drop 8 raw), url_Query = [],
     url_Fragment = []\<rparr>), ul_ToLower = map lower_byte\<rparr>"

theorem exfil_disallowed_iff_witness:
  "exfil_finding 0 TypeDisallowedDomain scoreOverride \<lparr>m_start = 4, m_end = 26, m_group = None\<rparr>
     \<in> set (Exfil_scan plain_urls (NewExfilURL plain_urls [''.Corp.com'']) 0 ''see https://evilcorp.com/x ok'')
   \<and> exfil_finding 0 TypeDisallowedDomain scoreOverride \<lparr>m_start = 4, m_end = 26, m_group = None\<rparr>
     \<notin> set (Exfil_scan plain_urls (NewExfilURL plain_urls [''.Corp.com'', ''EvilCorp.com'']) 0 ''see https://evilcorp.com/x ok'')"
proof -
  let ?body = "''see https://evilcorp.com/x ok''"
  have "FindAll urlRe ?body = [\<lparr>m_start = 4, m_end = 26, m_group = None\<rparr>]"
    by (simp add: regex_eval urlRe_def)
  then have m: "\<lparr>m_start = 4, m_end = 26, m_group = None\<rparr> \<in> set (FindAll urlRe ?body)" by simp
  have u: "ul_Parse plain_urls (matched ?body \<lparr>m_start = 4, m_end = 26, m_group = None\<rparr>)
      = Some \<lparr>url_Hostname = ''evilcorp.com'', url_Query = [], url_Fragment = []\<rparr>"
    by (simp add: plain_urls_def matched_def)
  have lower: "lower_byte (CHR ''c'') = CHR ''c''" "lower_byte (CHR ''C'') = CHR ''c''" "lower_byte (CHR ''e'') = CHR ''e''"
    "lower_byte (CHR ''E'') = CHR ''e''" "lower_byte (CHR ''l'') = CHR ''l''"
    by code_simp+
  have "\<not> belongs_to plain_urls ''evilcorp.com'' ''.Corp.com''" "belongs_to plain_urls ''evilcorp.com'' ''EvilCorp.com''"
    by (simp_all add: belongs_to_def bare_domain_cut plain_urls_def cut_prefix_def lower append_eq_Cons_conv Cons_eq_append_conv)
  then show ?thesis
    using exfil_disallowed_iff [OF m u, of 0 "[''.Corp.com'']"] exfil_disallowed_iff [OF m u, of 0 "[''.Corp.com'', ''EvilCorp.com'']"]
    by simp
qed

text \<open>The pattern knows only lower-case schemes: a URL whose scheme is written in capitals, which every client
  follows, is not looked at.\<close>

lemma upper_case_scheme_missed:
  "Exfil_scan lib allowed part ''HTTPS://evil.example/?q=aaaaaaaaaaaaaaaaaaaaaaaaaaaaaa'' = []"
proof -
  have "FindAll urlRe ''HTTPS://evil.example/?q=aaaaaaaaaaaaaaaaaaaaaaaaaaaaaa'' = []"
    "FindAll mdImageRe ''HTTPS://evil.example/?q=aaaaaaaaaaaaaaaaaaaaaaaaaaaaaa'' = []"
    by (simp_all add: regex_eval urlRe_def mdImageRe_def)
  then show ?thesis by (simp add: Exfil_scan_def)
qed

end
