(* ===== verification/Fast_Set.thy ===== *)
theory Fast_Set
  imports Inspector_Correct Custom_Dict Exfil Secrets Injection Json_Text_Correct
begin

text \<open>
  \<open>internal/detect/v1.go\<close>: the detectors the service runs, and what the general theorems on the service
  say when it runs them: none of them fails, and all of them stay inside the text.
\<close>

section \<open>The registry\<close>

record detect_libs =
  dl_log2 :: "rat \<Rightarrow> rat"
  dl_isPrint :: "nat \<Rightarrow> bool"
  dl_urls :: url_lib
  dl_compile :: "string \<Rightarrow> re result"

definition fast_detectors :: "detect_libs \<Rightarrow> custom_dict \<Rightarrow> string list \<Rightarrow> detector list" where
  "fast_detectors libs d domains =
     [PII, Secrets (dl_log2 libs) (dl_isPrint libs), CustomDict d, InjectionHeuristic,
      ExfilURL (dl_urls libs) (NewExfilURL (dl_urls libs) domains)]"

text \<open>\<open>None\<close> is the nil dictionary.\<close>

definition V1 :: "detect_libs \<Rightarrow> custom_dict option \<Rightarrow> string list \<Rightarrow> registry result" where
  "V1 libs customDict domains =
     (case (case customDict of None \<Rightarrow> NewCustomDict (dl_compile libs) [] [] | Some d \<Rightarrow> Inr d) of
        Inl err \<Rightarrow> Inl err
      | Inr d \<Rightarrow> NewRegistry (fast_detectors libs d domains))"

section \<open>What the detectors keep to\<close>

lemma fast_names: "map det_Name (fast_detectors libs d domains)
    = [DetectorPII, DetectorSecrets, DetectorCustomDict, DetectorInjectionHeuristic, DetectorExfilURL]"
  by (simp add: fast_detectors_def PII_def Secrets_def CustomDict_def InjectionHeuristic_def ExfilURL_def)

lemma fast_no_error: "x \<in> set (fast_detectors libs d domains) \<Longrightarrow> snd (det_Detect x req) = None"
  by (auto simp: fast_detectors_def PII_def PII_Detect_def Secrets_def Secrets_Detect_def CustomDict_def Dict_Detect_def
      InjectionHeuristic_def ExfilURL_def)

lemma fast_bounded:
  assumes "dict_of ks d" "x \<in> set (fast_detectors libs d domains)"
  shows "bounded_detector x"
  using assms(2) CustomDict_bounded [OF assms(1)] pii.bounded_detector_axioms secrets.bounded_detector_axioms
    injection.bounded_detector_axioms exfil.bounded_detector_axioms
  by (auto simp: fast_detectors_def)

text \<open>A registry made by \<open>V1\<close> from a dictionary made by its constructor, or from none.\<close>

definition fast_registry :: "detect_libs \<Rightarrow> registry \<Rightarrow> bool" where
  "fast_registry libs reg =
     (\<exists>customDict domains. V1 libs customDict domains = Inr reg
        \<and> (customDict = None \<or> (\<exists>ks ps. map_option Inr customDict = Some (NewCustomDict (dl_compile libs) ks ps))))"

lemma V1_order:
  assumes "V1 libs customDict domains = Inr reg"
    "customDict = None \<or> (\<exists>ks ps. map_option Inr customDict = Some (NewCustomDict (dl_compile libs) ks ps))"
  shows "\<exists>ks d. dict_of ks d \<and> reg_order reg = fast_detectors libs d domains"
proof -
  obtain d ks where d: "NewRegistry (fast_detectors libs d domains) = Inr reg" "dict_of ks d"
  proof (cases customDict)
    case None
    then obtain d where "NewCustomDict (dl_compile libs) [] [] = Inr d" "NewRegistry (fast_detectors libs d domains) = Inr reg"
      using assms(1) by (auto simp: V1_def split: sum.splits)
    then show ?thesis using that NewCustomDict_dict by blast
  next
    case (Some d)
    then obtain ks ps where new: "NewCustomDict (dl_compile libs) ks ps = Inr d" using assms(2) by (metis option.distinct(1) option.inject option.simps(9))
    have "NewRegistry (fast_detectors libs d domains) = Inr reg" using assms(1) Some by (simp add: V1_def)
    then show ?thesis using that NewCustomDict_dict [OF new] by blast
  qed
  then have "reg_order reg = fast_detectors libs d domains"
    using register_all_spec [OF registry_inv_empty, of "fast_detectors libs d domains"] by (simp add: NewRegistry_def empty_registry_def)
  with d(2) show ?thesis by blast
qed

lemma fast_registry_facts:
  assumes "fast_registry libs reg"
  shows "detectors_in_bounds reg" "snd (Registry_Detect reg req) = None"
    "Names reg = [DetectorPII, DetectorSecrets, DetectorCustomDict, DetectorInjectionHeuristic, DetectorExfilURL]"
proof -
  obtain ks d domains where o: "dict_of ks d" "reg_order reg = fast_detectors libs d domains"
    using assms V1_order unfolding fast_registry_def by metis
  show "detectors_in_bounds reg" using fast_bounded [OF o(1)] o(2) by (simp add: detectors_in_bounds_def)
  show "Names reg = [DetectorPII, DetectorSecrets, DetectorCustomDict, DetectorInjectionHeuristic, DetectorExfilURL]"
    by (simp add: Names_def o(2) fast_names)
  have "snd (Registry_one x req) = None" if "x \<in> set (reg_order reg)" for x
    using fast_no_error that o(2) by (auto simp: Registry_one_def split: prod.splits option.splits) (metis option.distinct(1) snd_conv)
  then have "first_error (reg_order reg) req = None"
    by (auto simp: first_error_def List.map_filter_def filter_empty_conv)
  then show "snd (Registry_Detect reg req) = None"
    by (simp add: Registry_Detect_eq sequential_detect_def)
qed

section \<open>Redactions of the deployed service\<close>

text \<open>The redactions of one part, as the adapters take them from a verdict.\<close>

lemma spans_of_part_within:
  assumes "separated ss" "\<forall>s \<in> set ss. span_in_parts ps s" "map p_text ps = map tf_text flds" "i < length flds"
  shows "spans_within (int (length (tf_text (flds ! i)))) (spans_of_part (length flds) i ss)"
proof -
  have "sorted_wrt (\<lambda>s t. span_end s < span_start t) (spans_of_part (length flds) i ss)"
  proof (rule sorted_wrt_mono_rel)
    show "sorted_wrt apart (spans_of_part (length flds) i ss)"
      using assms(1) by (simp add: separated_def spans_of_part_def sorted_wrt_filter)
    show "span_end s < span_start t"
      if "s \<in> set (spans_of_part (length flds) i ss)" "t \<in> set (spans_of_part (length flds) i ss)" "apart s t" for s t
      using that by (auto simp: spans_of_part_def apart_def)
  qed
  moreover have "0 \<le> span_start s \<and> span_start s \<le> span_end s \<and> span_end s \<le> int (length (tf_text (flds ! i)))"
    if "s \<in> set (spans_of_part (length flds) i ss)" for s
  proof -
    have "span_in_parts ps s" "span_part s = int i" using that assms(2) by (auto simp: spans_of_part_def)
    moreover have "p_text (ps ! i) = tf_text (flds ! i)" using assms(3,4) by (metis map_eq_imp_length_eq nth_map)
    ultimately show ?thesis by (auto simp: span_in_parts_def)
  qed
  ultimately show ?thesis by (auto simp: spans_within_def)
qed

lemma redacted_from_nothing: "redacted_from 0 body [] = body"
  by simp

lemma field_after_exact:
  assumes "separated ss" "\<forall>s \<in> set ss. span_in_parts ps s" "map p_text ps = map tf_text flds" "i < length flds"
  shows "field_after flds ss i = redacted_from 0 (tf_text (flds ! i)) (spans_of_part (length flds) i ss)"
  using redact_eq [OF spans_of_part_within [OF assms]] by (simp add: field_after_def Let_def)

text \<open>C13: the service with the detectors it ships is closed: the registry can be built, whatever the allow-list
  and from any dictionary its constructor accepts, no detector of it ever fails, and every finding
  carries the name of one of the five and lies inside its part. What the theorems on the service
  assume of its detectors holds of these.\<close>

theorem fast_set_total:
  assumes "customDict = None \<or> (\<exists>ks ps. map_option Inr customDict = Some (NewCustomDict (dl_compile libs) ks ps))"
  shows "\<exists>reg. V1 libs customDict domains = Inr reg
    \<and> Names reg = [DetectorPII, DetectorSecrets, DetectorCustomDict, DetectorInjectionHeuristic, DetectorExfilURL]
    \<and> snd (Registry_Detect reg req) = None
    \<and> (\<forall>f \<in> set (fst (Registry_Detect reg req)). span_in_parts (r_parts req) (f_span f))"
proof -
  obtain d where d: "V1 libs customDict domains = NewRegistry (fast_detectors libs d domains)"
    by (cases customDict) (auto simp: V1_def NewCustomDict_def)
  have "distinct (map det_Name (fast_detectors libs d domains))" by (simp add: fast_names go_consts)
  then obtain reg where reg: "V1 libs customDict domains = Inr reg"
    using register_all_spec [OF registry_inv_empty, of "fast_detectors libs d domains"] d
    by (auto simp: NewRegistry_def empty_registry_def split: sum.splits)
  then have "fast_registry libs reg" using assms by (auto simp: fast_registry_def)
  note facts = fast_registry_facts [OF this]
  show ?thesis
    by (rule exI [of _ reg]) (use reg facts Registry_Detect_in_bounds [OF facts(1)] in auto)
qed

definition plain_libs :: detect_libs where
  "plain_libs = \<lparr>dl_log2 = (\<lambda>_. 0), dl_isPrint = (\<lambda>_. True), dl_urls = plain_urls, dl_compile = (\<lambda>p. Inr (lit p))\<rparr>"

theorem fast_set_total_witness:
  "\<exists>reg. V1 plain_libs None [''corp.com''] = Inr reg \<and> snd (Registry_Detect reg zero_request) = None"
  using fast_set_total [of None plain_libs "[''corp.com'']" zero_request] by auto


definition fast_service :: "rule list \<Rightarrow> service" where
  "fast_service rs = (sample_service [] None rs)\<lparr>sv_registry :=
     \<lparr>reg_byName = map_of (map (\<lambda>d. (det_Name d, d)) (fast_detectors plain_libs
        \<lparr>cd_ac = newAhoCorasick [], cd_keywords = [], cd_regexes = []\<rparr> [])),
      reg_order = fast_detectors plain_libs \<lparr>cd_ac = newAhoCorasick [], cd_keywords = [], cd_regexes = []\<rparr> []\<rparr>\<rparr>"

lemma fast_service_registry: "fast_registry plain_libs (sv_registry (fast_service rs))"
proof -
  have "V1 plain_libs None [] = Inr (sv_registry (fast_service rs))"
    using fast_names [of plain_libs "\<lparr>cd_ac = newAhoCorasick [], cd_keywords = [], cd_regexes = []\<rparr>" "[]"]
    by (auto simp: V1_def NewCustomDict_def NewRegistry_def fast_service_def fast_detectors_def Register_def empty_registry_def
        go_consts Let_def fun_eq_iff)
  then show ?thesis by (auto simp: fast_registry_def)
qed


end
