(* ===== verification/Http.thy ===== *)
theory Http
  imports Wire Inspector_Correct
begin

text \<open>
  \<open>internal/adapters/http/http.go\<close>: the plain JSON adapter, the reference mapping between a wire format
  and the core types. What \<open>encoding/json\<close> makes of a body, by the tags of \<open>requestDTO\<close>, is a
  parameter; an answer keeps its body as the value the code hands to the encoder.
\<close>

section \<open>Wire types\<close>

record part_dto =
  pd_role :: string
  pd_text :: string
  pd_trust :: string

record request_dto =
  rd_surface :: string
  rd_session :: string
  rd_caller :: string
  rd_source :: string
  rd_parts :: "part_dto list"

record span_dto =
  sd_part :: int
  sd_start :: int
  sd_end :: int

record finding_dto =
  fd_detector :: string
  fd_type :: string
  fd_score :: rat
  fd_span :: span_dto

record verdict_dto =
  vd_action :: string
  vd_findings :: "finding_dto list"
  vd_redactions :: "span_dto list"
  vd_taint_session :: bool
  vd_policy_version :: string

datatype http_body = ErrorBody string | VerdictBody verdict_dto

record http_answer =
  ha_status :: nat
  ha_content_type :: string
  ha_body :: http_body

definition InspectPath :: string where "InspectPath = ''/v1/inspect''"

definition errUnknownSurface :: go_error where "errUnknownSurface = ErrorText ''unknown surface''"

section \<open>Mapping\<close>

definition part_toCore :: "part_dto \<Rightarrow> part" where
  "part_toCore p =
     \<lparr>p_role = pd_role p, p_text = pd_text p, p_trust = (if pd_trust p = [] then TrustTrusted else pd_trust p)\<rparr>"

definition toCore :: "request_dto \<Rightarrow> request result" where
  "toCore r =
     (if \<not> surface_Valid (rd_surface r) then Inl errUnknownSurface
      else Inr \<lparr>r_surface = rd_surface r, r_session = rd_session r, r_caller = rd_caller r, r_source = rd_source r,
        r_parts = map part_toCore (rd_parts r)\<rparr>)"

definition span_fromCore :: "span \<Rightarrow> span_dto" where
  "span_fromCore s = \<lparr>sd_part = span_part s, sd_start = span_start s, sd_end = span_end s\<rparr>"

definition finding_fromCore :: "finding \<Rightarrow> finding_dto" where
  "finding_fromCore f =
     \<lparr>fd_detector = f_detector f, fd_type = f_type f, fd_score = f_score f, fd_span = span_fromCore (f_span f)\<rparr>"

definition fromCore :: "verdict \<Rightarrow> verdict_dto" where
  "fromCore v =
     \<lparr>vd_action = v_action v, vd_findings = map finding_fromCore (v_findings v),
      vd_redactions = map span_fromCore (v_redactions v), vd_taint_session = v_taint_session v,
      vd_policy_version = v_policy_version v\<rparr>"

section \<open>The handler\<close>

definition writeJSON :: "nat \<Rightarrow> http_body \<Rightarrow> http_answer" where
  "writeJSON status body = \<lparr>ha_status = status, ha_content_type = ''application/json'', ha_body = body\<rparr>"

definition ServeHTTP ::
  "(string \<Rightarrow> request_dto result) \<Rightarrow> 's inspector \<Rightarrow> string \<Rightarrow> string \<Rightarrow> 's \<Rightarrow> http_answer \<times> 's" where
  "ServeHTTP decode inspect meth body \<sigma> =
     (if meth \<noteq> ''POST'' then (writeJSON 405 (ErrorBody ''POST only''), \<sigma>)
      else case decode body of
        Inl err \<Rightarrow> (writeJSON 400 (ErrorBody ''malformed JSON body''), \<sigma>)
      | Inr dto \<Rightarrow>
          (case toCore dto of
             Inl err \<Rightarrow> (writeJSON 400 (ErrorBody (error_text err)), \<sigma>)
           | Inr req \<Rightarrow>
               (case inspect req \<sigma> of
                  (Inl err, \<sigma>) \<Rightarrow> (writeJSON 500 (ErrorBody ''inspection failed''), \<sigma>)
                | (Inr verdict, \<sigma>) \<Rightarrow> (writeJSON 200 (VerdictBody (fromCore verdict)), \<sigma>))))"

section \<open>What a client reads back\<close>

definition verdict_of_dto :: "verdict_dto \<Rightarrow> verdict" where
  "verdict_of_dto d =
     \<lparr>v_action = vd_action d,
      v_findings = map (\<lambda>f. \<lparr>f_detector = fd_detector f, f_type = fd_type f,
        f_span = \<lparr>span_part = sd_part (fd_span f), span_start = sd_start (fd_span f), span_end = sd_end (fd_span f)\<rparr>,
        f_score = fd_score f\<rparr>) (vd_findings d),
      v_redactions = map (\<lambda>s. \<lparr>span_part = sd_part s, span_start = sd_start s, span_end = sd_end s\<rparr>) (vd_redactions d),
      v_taint_session = vd_taint_session d, v_policy_version = vd_policy_version d\<rparr>"

lemma verdict_of_fromCore [simp]: "verdict_of_dto (fromCore v) = v"
proof -
  have "map (\<lambda>f. \<lparr>f_detector = fd_detector f, f_type = fd_type f,
        f_span = \<lparr>span_part = sd_part (fd_span f), span_start = sd_start (fd_span f), span_end = sd_end (fd_span f)\<rparr>,
        f_score = fd_score f\<rparr>) (map finding_fromCore fs) = fs" for fs
    by (induction fs) (simp_all add: finding_fromCore_def span_fromCore_def)
  moreover have "map (\<lambda>s. \<lparr>span_part = sd_part s, span_start = sd_start s, span_end = sd_end s\<rparr>) (map span_fromCore ss) = ss" for ss
    by (induction ss) (simp_all add: span_fromCore_def)
  ultimately show ?thesis by (simp add: verdict_of_dto_def fromCore_def)
qed

definition request_of_dto :: "request_dto \<Rightarrow> request" where
  "request_of_dto dto =
     \<lparr>r_surface = rd_surface dto, r_session = rd_session dto, r_caller = rd_caller dto, r_source = rd_source dto,
      r_parts = map part_toCore (rd_parts dto)\<rparr>"

text \<open>C20: the HTTP adapter over the service answers every request: 200 with a body from which the client
  reads back the verdict of exactly the inspection of its request, which offers the sink one event, of
  that content and action, one line when the sink accepts all, or 405 or 400 for
  what is no inspection, and then nothing is inspected, stored or audited. It never answers 500.\<close>

theorem http_answers:
  assumes "nfkc_documented (sv_lib sv)"
  shows "case ServeHTTP decode (serve sv) meth body w of (a, w') \<Rightarrow>
     ha_content_type a = ''application/json''
     \<and> (if meth = ''POST'' \<and> (\<exists>dto. decode body = Inr dto \<and> surface_Valid (rd_surface dto))
        then \<exists>dto d. decode body = Inr dto \<and> ha_status a = 200 \<and> ha_body a = VerdictBody d
           \<and> fst (serve sv (request_of_dto dto) w) = Inr (verdict_of_dto d)
           \<and> w' = snd (serve sv (request_of_dto dto) w)
           \<and> (\<exists>ev. w_out w' = written (sv_line sv) ev (w_out w) \<and> ev_action ev = vd_action d
                \<and> ev_content_hash ev = ContentHash (sv_sha sv) (request_of_dto dto))
           \<and> (accepts_all (sv_line sv) \<longrightarrow> length (w_out w') = Suc (length (w_out w)))
        else ha_status a = (if meth = ''POST'' then 400 else 405) \<and> (\<exists>e. ha_body a = ErrorBody e) \<and> w' = w)"
proof (cases "meth = ''POST'' \<and> (\<exists>dto. decode body = Inr dto \<and> surface_Valid (rd_surface dto))")
  case True
  then obtain dto where dto: "decode body = Inr dto" "surface_Valid (rd_surface dto)" by blast
  let ?req = "request_of_dto dto"
  have core: "toCore dto = Inr ?req" using dto(2) by (simp add: toCore_def request_of_dto_def)
  obtain w' where run: "serve sv ?req w = (Inr (the_verdict sv ?req (w_mem w)), w')"
    using serve_eq(1) [OF assms, of ?req w] by (metis prod.collapse)
  have out: "w_out w' = written (sv_line sv) (make_event (sv_sha sv) ?req (the_verdict sv ?req (w_mem w)) (m_now (w_mem w))
      (detect_error sv ?req) (m_now (w_mem w))) (w_out w)"
    using serve_out [OF assms, of ?req w] run by simp
  then have "accepts_all (sv_line sv) \<longrightarrow> length (w_out w') = Suc (length (w_out w))" by (simp add: written_accepted)
  moreover have "\<exists>ev. w_out w' = written (sv_line sv) ev (w_out w) \<and> ev_action ev = v_action (the_verdict sv ?req (w_mem w))
      \<and> ev_content_hash ev = ContentHash (sv_sha sv) ?req"
    using out by (intro exI) (auto simp: make_event_def)
  ultimately show ?thesis using True dto core run by (simp add: ServeHTTP_def writeJSON_def fromCore_def verdict_of_fromCore [unfolded fromCore_def])
next
  case False
  then show ?thesis
    by (auto simp: ServeHTTP_def writeJSON_def toCore_def split: sum.splits)
qed

definition whole_body :: "string \<Rightarrow> request_dto result" where
  "whole_body s = Inr \<lparr>rd_surface = SurfaceInput, rd_session = [], rd_caller = [], rd_source = [],
     rd_parts = [\<lparr>pd_role = ''user'', pd_text = s, pd_trust = []\<rparr>]\<rparr>"

theorem http_answers_witness:
  "\<exists>d. ha_status (fst (ServeHTTP whole_body (serve (sample_service [] None [])) ''POST'' ''hi'' world0)) = 200
     \<and> ha_body (fst (ServeHTTP whole_body (serve (sample_service [] None [])) ''POST'' ''hi'' world0)) = VerdictBody d
     \<and> ha_status (fst (ServeHTTP whole_body (serve (sample_service [] None [])) ''GET'' ''hi'' world0)) = 405"
proof -
  note ans = http_answers [OF sample_service_doc [of "[]" None "[]"], where decode = whole_body and body = "''hi''" and w = world0,
      unfolded split_beta]
  have "\<exists>dto. whole_body ''hi'' = Inr dto \<and> surface_Valid (rd_surface dto)"
    by (simp add: whole_body_def surface_Valid_def)
  then show ?thesis using ans [where meth = "''POST''"] ans [where meth = "''GET''"] by auto
qed

end
