(* ===== verification/Startup.thy ===== *)
theory Startup
  imports Fast_Set Http
begin

text \<open>
  \<open>cmd/inspector/main.go\<close>: the configuration from the environment, what \<open>run\<close> builds from it, the two
  ports it serves on and how it ends. The environment, the file system, the Redis server and the listener are
  parameters, as are \<open>time.ParseDuration\<close>, the YAML decoder and the hexadecimal SHA-256.
\<close>

section \<open>Configuration\<close>

record config =
  cf_addr :: string
  cf_grpcAddr :: string
  cf_redisAddr :: string
  cf_policyFile :: string
  cf_auditFile :: string
  cf_taintTTL :: int
  cf_shutdownTTL :: int

record host =
  h_Getenv :: "string \<Rightarrow> string"
  h_ParseDuration :: "string \<Rightarrow> int result"
  h_ReadFile :: "string \<Rightarrow> string result"
  h_yaml :: "string \<Rightarrow> policy result"
  h_sha256 :: "string \<Rightarrow> string"
  h_OpenFile :: "string \<Rightarrow> unit result"
  h_Ping :: "string \<Rightarrow> unit result"
  h_Listen :: "string list \<Rightarrow> string \<Rightarrow> unit result"
  h_detect :: detect_libs

text \<open>\<open>h_Listen\<close> binds an address, given those the process has bound already. Durations are in nanoseconds.\<close>

definition time_Second :: int where "time_Second = 1000000000"
definition time_Hour :: int where "time_Hour = 3600 * time_Second"

definition env :: "host \<Rightarrow> string \<Rightarrow> string \<Rightarrow> string" where
  "env h key fallback = (if h_Getenv h key \<noteq> [] then h_Getenv h key else fallback)"

definition loadConfig :: "host \<Rightarrow> config result" where
  "loadConfig h =
     (let c = \<lparr>cf_addr = env h ''ADDR'' '':8080'', cf_grpcAddr = env h ''GRPC_ADDR'' '':9000'',
         cf_redisAddr = h_Getenv h ''REDIS_ADDR'', cf_policyFile = h_Getenv h ''POLICY_FILE'',
         cf_auditFile = h_Getenv h ''AUDIT_FILE'', cf_taintTTL = time_Hour, cf_shutdownTTL = 10 * time_Second\<rparr>;
       v = h_Getenv h ''TAINT_TTL''
      in if v \<noteq> [] then
           (case h_ParseDuration h v of Inl err \<Rightarrow> Inl err | Inr d \<Rightarrow> Inr (c\<lparr>cf_taintTTL := d\<rparr>))
         else Inr c)"

section \<open>Building the service\<close>

datatype backend = InMemory | RedisAt string

definition load_policy :: "host \<Rightarrow> config \<Rightarrow> policy result" where
  "load_policy h cfg =
     (if cf_policyFile cfg \<noteq> [] then LoadFile (h_ReadFile h) (h_yaml h) (h_sha256 h) (cf_policyFile cfg)
      else Inr Default_policy)"

definition open_audit :: "host \<Rightarrow> config \<Rightarrow> unit result" where
  "open_audit h cfg = (if cf_auditFile cfg \<noteq> [] then h_OpenFile h (cf_auditFile cfg) else Inr ())"

definition open_sessions :: "host \<Rightarrow> config \<Rightarrow> backend result" where
  "open_sessions h cfg =
     (if cf_redisAddr cfg \<noteq> [] then
        (case h_Ping h (cf_redisAddr cfg) of
           Inl err \<Rightarrow> Inl (Wrap (''redis at '' @ cf_redisAddr cfg) err)
         | Inr _ \<Rightarrow> Inr (RedisAt (cf_redisAddr cfg)))
      else Inr InMemory)"

definition listen :: "host \<Rightarrow> config \<Rightarrow> unit result" where
  "listen h cfg = h_Listen h [] (cf_grpcAddr cfg)"

record started =
  su_config :: config
  su_policy :: policy
  su_registry :: registry
  su_backend :: backend

definition startup :: "host \<Rightarrow> started result" where
  "startup h =
     (case loadConfig h of
        Inl err \<Rightarrow> Inl err
      | Inr cfg \<Rightarrow>
     (case load_policy h cfg of
        Inl err \<Rightarrow> Inl err
      | Inr pol \<Rightarrow>
     (case open_audit h cfg of
        Inl err \<Rightarrow> Inl err
      | Inr _ \<Rightarrow>
     (case V1 (h_detect h) None [] of
        Inl err \<Rightarrow> Inl err
      | Inr reg \<Rightarrow>
     (case open_sessions h cfg of
        Inl err \<Rightarrow> Inl err
      | Inr sessions \<Rightarrow>
     (case listen h cfg of
        Inl err \<Rightarrow> Inl err
      | Inr _ \<Rightarrow> Inr \<lparr>su_config = cfg, su_policy = pol, su_registry = reg, su_backend = sessions\<rparr>))))))"

text \<open>The service a process with the in-memory store runs.\<close>

definition started_service :: "(string \<Rightarrow> string) \<Rightarrow> text_lib \<Rightarrow> (event \<Rightarrow> string list \<Rightarrow> string result) \<Rightarrow> started \<Rightarrow> service" where
  "started_service sha lib line s =
     \<lparr>sv_sha = sha, sv_lib = lib, sv_registry = su_registry s, sv_policy = su_policy s,
      sv_ttl = cf_taintTTL (su_config s), sv_line = line\<rparr>"

section \<open>Serving and stopping\<close>

text \<open>The HTTP routes. What the multiplexer answers for a path without a handler is its 404.\<close>

datatype mux_answer = Plain nat string | Answer http_answer

definition healthz :: mux_answer where
  "healthz = Plain 200 (''ok'' @ [CHR 0x0A])"

definition mux_serve ::
  "(string \<Rightarrow> request_dto result) \<Rightarrow> 's inspector \<Rightarrow> string \<Rightarrow> string \<Rightarrow> string \<Rightarrow> 's \<Rightarrow> mux_answer \<times> 's" where
  "mux_serve decode inspect path meth body \<sigma> =
     (if path = ''/healthz'' then (healthz, \<sigma>)
      else if path = InspectPath then (let (a, \<sigma>) = ServeHTTP decode inspect meth body \<sigma> in (Answer a, \<sigma>))
      else (Plain 404 (''404 page not found'' @ [CHR 0x0A]), \<sigma>))"

text \<open>
  How serving ends: one of the two servers returned an error, or a signal arrived. In the latter case the HTTP server's
  \<open>Shutdown\<close> returned some error or none, and the gRPC server had or had not stopped gracefully when the
  time was up. The result is what is done to the servers and what \<open>run\<close> returns.
\<close>

datatype ending = ServerEnded "go_error option" | Signalled "go_error option" bool

datatype stop_action = GrpcStop | SrvClose | GrpcGracefulStop | SrvShutdown int

fun finish :: "(go_error \<Rightarrow> bool) \<Rightarrow> config \<Rightarrow> ending \<Rightarrow> stop_action list \<times> go_error option" where
  "finish is_server_closed cfg (ServerEnded err) =
     ([GrpcStop, SrvClose],
      if (case err of None \<Rightarrow> False | Some e \<Rightarrow> is_server_closed e) then None else err)"
| "finish is_server_closed cfg (Signalled err stopped) =
     ([GrpcGracefulStop, SrvShutdown (cf_shutdownTTL cfg)] @ (if stopped then [] else [GrpcStop]), err)"

text \<open>
  The HTTP server binds its address last, in the goroutine of \<open>ListenAndServe\<close>, whose error \<open>run\<close> receives as the end of
  a server. The process serves when that succeeds too.
\<close>

definition ListenAndServe_bind :: "host \<Rightarrow> config \<Rightarrow> unit result" where
  "ListenAndServe_bind h cfg = h_Listen h [cf_grpcAddr cfg] (cf_addr cfg)"

definition serving :: "host \<Rightarrow> started result" where
  "serving h =
     (case startup h of
        Inl err \<Rightarrow> Inl err
      | Inr s \<Rightarrow> (case ListenAndServe_bind h (su_config s) of Inl err \<Rightarrow> Inl err | Inr _ \<Rightarrow> Inr s))"

text \<open>
  \<open>run\<close> from start to end: what is done to the servers and what it returns. \<open>outcome\<close> is what it receives once both servers
  serve; a failed bind is received at once.
\<close>

definition run_process ::
  "host \<Rightarrow> (go_error \<Rightarrow> bool) \<Rightarrow> (started \<Rightarrow> ending) \<Rightarrow> stop_action list \<times> go_error option" where
  "run_process h is_server_closed outcome =
     (case startup h of
        Inl err \<Rightarrow> ([], Some err)
      | Inr s \<Rightarrow> finish is_server_closed (su_config s)
          (case ListenAndServe_bind h (su_config s) of Inl err \<Rightarrow> ServerEnded (Some err) | Inr _ \<Rightarrow> outcome s))"

text \<open>However it ends, both servers are told to stop, and the gRPC server is not left waiting for its
  clients beyond the time allowed.\<close>

lemma finish_stops_both:
  "set (fst (finish is_closed cfg e)) \<inter> {SrvClose, SrvShutdown (cf_shutdownTTL cfg)} \<noteq> {}
   \<and> (GrpcStop \<in> set (fst (finish is_closed cfg e)) \<longleftrightarrow> e \<notin> range (\<lambda>err. Signalled err True))"
  by (cases e) auto

text \<open>The health check touches nothing, and no other path reaches the inspector than its own.\<close>

lemma mux_inspects_one_path:
  "path \<noteq> InspectPath \<Longrightarrow> snd (mux_serve decode inspect path meth body \<sigma>) = \<sigma>"
  by (simp add: mux_serve_def)

section \<open>Properties\<close>

lemma V1_none: "\<exists>reg. V1 libs None [] = Inr reg \<and> fast_registry libs reg"
proof -
  obtain d where d: "V1 libs None [] = NewRegistry (fast_detectors libs d [])" by (auto simp: V1_def NewCustomDict_def)
  have "distinct (map det_Name (fast_detectors libs d []))" by (simp add: fast_names go_consts)
  then obtain reg where "V1 libs None [] = Inr reg"
    using register_all_spec [OF registry_inv_empty, of "fast_detectors libs d []"] d
    by (auto simp: NewRegistry_def empty_registry_def split: sum.splits)
  then show ?thesis by (auto simp: fast_registry_def)
qed

definition ttl_of :: "host \<Rightarrow> int result" where
  "ttl_of h = (if h_Getenv h ''TAINT_TTL'' = [] then Inr time_Hour else h_ParseDuration h (h_Getenv h ''TAINT_TTL''))"

definition policy_of :: "host \<Rightarrow> policy result" where
  "policy_of h = (if h_Getenv h ''POLICY_FILE'' = [] then Inr Default_policy
     else LoadFile (h_ReadFile h) (h_yaml h) (h_sha256 h) (h_Getenv h ''POLICY_FILE''))"

lemma startup_serves:
  "(\<exists>s. startup h = Inr s) =
     ((\<exists>d. ttl_of h = Inr d) \<and> (\<exists>p. policy_of h = Inr p)
      \<and> (h_Getenv h ''AUDIT_FILE'' = [] \<or> (\<exists>u. h_OpenFile h (h_Getenv h ''AUDIT_FILE'') = Inr u))
      \<and> (h_Getenv h ''REDIS_ADDR'' = [] \<or> (\<exists>u. h_Ping h (h_Getenv h ''REDIS_ADDR'') = Inr u))
      \<and> (\<exists>u. h_Listen h [] (env h ''GRPC_ADDR'' '':9000'') = Inr u))
   \<and> (\<forall>s. startup h = Inr s \<longrightarrow>
        fast_registry (h_detect h) (su_registry s) \<and> ttl_of h = Inr (cf_taintTTL (su_config s)) \<and> policy_of h = Inr (su_policy s)
        \<and> su_backend s = (if h_Getenv h ''REDIS_ADDR'' = [] then InMemory else RedisAt (h_Getenv h ''REDIS_ADDR''))
        \<and> cf_grpcAddr (su_config s) = env h ''GRPC_ADDR'' '':9000'' \<and> cf_addr (su_config s) = env h ''ADDR'' '':8080'')"
proof -
  obtain reg where reg: "V1 (h_detect h) None [] = Inr reg" "fast_registry (h_detect h) reg" using V1_none by blast
  show ?thesis
  proof (cases "ttl_of h")
    case (Inl err)
    then have "loadConfig h = Inl err" by (auto simp: loadConfig_def ttl_of_def Let_def split: if_splits)
    then show ?thesis using Inl by (simp add: startup_def)
  next
    case (Inr d)
    then obtain cfg where cfg: "loadConfig h = Inr cfg" "cf_taintTTL cfg = d" "cf_policyFile cfg = h_Getenv h ''POLICY_FILE''"
      "cf_auditFile cfg = h_Getenv h ''AUDIT_FILE''" "cf_redisAddr cfg = h_Getenv h ''REDIS_ADDR''"
      "cf_grpcAddr cfg = env h ''GRPC_ADDR'' '':9000''" "cf_addr cfg = env h ''ADDR'' '':8080''"
      by (auto simp: loadConfig_def ttl_of_def Let_def split: if_splits)
    have pol: "load_policy h cfg = policy_of h" by (simp add: load_policy_def policy_of_def cfg)
    show ?thesis
      using Inr reg cfg(1,2,7)
      by (auto simp: startup_def pol open_audit_def open_sessions_def listen_def cfg(3-6) split: sum.splits if_splits)
  qed
qed

text \<open>C21: the process serves exactly when everything its environment names works: a ttl that parses, a policy
  that loads, an audit file that opens, a Redis server that answers, and both ports, the one for gRPC and then the
  one for HTTP. It never falls back to a default for one that does not: \<open>run\<close> returns the error. What serves has the
  detectors that never fail, the named policy (the one without rules that fails closed when none is named), the named
  ttl (one hour when none is) and the named store, and \<open>run\<close> returns what the way it ends makes of it.\<close>

theorem startup_all_or_nothing:
  "(\<exists>s. serving h = Inr s) =
     ((\<exists>d. ttl_of h = Inr d) \<and> (\<exists>p. policy_of h = Inr p)
      \<and> (h_Getenv h ''AUDIT_FILE'' = [] \<or> (\<exists>u. h_OpenFile h (h_Getenv h ''AUDIT_FILE'') = Inr u))
      \<and> (h_Getenv h ''REDIS_ADDR'' = [] \<or> (\<exists>u. h_Ping h (h_Getenv h ''REDIS_ADDR'') = Inr u))
      \<and> (\<exists>u. h_Listen h [] (env h ''GRPC_ADDR'' '':9000'') = Inr u)
      \<and> (\<exists>u. h_Listen h [env h ''GRPC_ADDR'' '':9000''] (env h ''ADDR'' '':8080'') = Inr u))
   \<and> (\<forall>s. serving h = Inr s \<longrightarrow>
        fast_registry (h_detect h) (su_registry s) \<and> ttl_of h = Inr (cf_taintTTL (su_config s)) \<and> policy_of h = Inr (su_policy s)
        \<and> su_backend s = (if h_Getenv h ''REDIS_ADDR'' = [] then InMemory else RedisAt (h_Getenv h ''REDIS_ADDR''))
        \<and> run_process h is_server_closed outcome = finish is_server_closed (su_config s) (outcome s))
   \<and> (\<forall>err. serving h = Inl err \<and> \<not> is_server_closed err \<longrightarrow> snd (run_process h is_server_closed outcome) = Some err)"
proof (cases "startup h")
  case (Inl err)
  then show ?thesis using startup_serves [of h] by (simp add: serving_def run_process_def) blast
next
  case (Inr s)
  then show ?thesis using startup_serves [of h]
    by (auto simp: serving_def run_process_def ListenAndServe_bind_def split: sum.splits)
qed

definition quiet_host :: "(string \<Rightarrow> string) \<Rightarrow> host" where
  "quiet_host getenv = \<lparr>h_Getenv = getenv, h_ParseDuration = (\<lambda>_. Inl (ErrorText ''invalid duration'')),
     h_ReadFile = (\<lambda>_. Inl (ErrorText ''no such file'')), h_yaml = (\<lambda>_. Inl (ErrorText ''yaml'')), h_sha256 = (\<lambda>s. s),
     h_OpenFile = (\<lambda>_. Inr ()), h_Ping = (\<lambda>_. Inl (ErrorText ''connection refused'')), h_Listen = (\<lambda>bound a. if a \<in> set bound then Inl (ErrorText ''address already in use'') else Inr ()),
     h_detect = plain_libs\<rparr>"

text \<open>With nothing set the process serves; with a Redis address nobody answers at, or one address for both servers, it
  does not.\<close>

theorem startup_all_or_nothing_witness:
  "(\<exists>s. serving (quiet_host (\<lambda>_. [])) = Inr s)
   \<and> \<not> (\<exists>s. serving (quiet_host (\<lambda>k. if k = ''REDIS_ADDR'' then ''redis:6379'' else [])) = Inr s)
   \<and> \<not> (\<exists>s. serving (quiet_host (\<lambda>k. if k = ''ADDR'' then '':9000'' else [])) = Inr s)"
  using startup_all_or_nothing [of "quiet_host (\<lambda>_. [])"]
    startup_all_or_nothing [of "quiet_host (\<lambda>k. if k = ''REDIS_ADDR'' then ''redis:6379'' else [])"]
    startup_all_or_nothing [of "quiet_host (\<lambda>k. if k = ''ADDR'' then '':9000'' else [])"]
  by (simp add: quiet_host_def ttl_of_def policy_of_def env_def)

end
