(* ===== verification/Replicas.thy ===== *)
theory Replicas
  imports Startup
begin

text \<open>
  Several inspectors over one session store. The pipeline relies on the store only through the laws of
  \<open>session_store\<close>, so what one inspection leaves for the next holds for every store that keeps them, the Redis store
  of \<open>internal/session/redis.go\<close> included, and for replicas with different configurations. Any operation
  of the store may fail, with any effect.
\<close>

section \<open>A pipeline over a store\<close>

lemma or_fail_induct:
  assumes "\<And>err e. r = (Inl err, e) \<Longrightarrow> P (f err e)" "\<And>x e. r = (Inr x, e) \<Longrightarrow> P (k x e)"
  shows "P (or_fail r f k)"
  using assms by (auto simp: or_fail_def split: prod.splits sum.splits)

text \<open>The verdict a failed inspection ends with.\<close>

definition failed_verdict :: "'e pipeline \<Rightarrow> verdict \<Rightarrow> bool" where
  "failed_verdict p v = (\<exists>inp err. v = on_error_verdict (pl_OnError p inp err))"

locale shared_inspection = session_store S taint pin blocked separate
  for S :: "'e store" and taint pin blocked separate +
  fixes p :: "'e pipeline"
  assumes sessions: "pl_Sessions p = S"
    and clock_keeps: "taint (snd (clock p e)) = taint e \<and> blocked (snd (clock p e)) = blocked e"
    and normalizer_keeps: "pl_Normalizer p = Some run \<Longrightarrow> run req e = (Inr n, e') \<Longrightarrow>
      taint e' = taint e \<and> blocked e' = blocked e \<and> r_session (n_request n) = r_session req
      \<and> r_surface (n_request n) = r_surface req \<and> r_source (n_request n) = r_source req"
    and detectors_keep: "taint (snd (pl_Detectors p req e)) = taint e \<and> blocked (snd (pl_Detectors p req e)) = blocked e"
    and evaluate_keeps: "taint (snd (pl_Evaluate p inp e)) = taint e \<and> blocked (snd (pl_Evaluate p inp e)) = blocked e"
    and audit_keeps: "taint (snd (pl_Audit p ev e)) = taint e \<and> blocked (snd (pl_Audit p ev e)) = blocked e"
begin

lemma normalize_stage_keeps:
  "normalize_stage p req e = (Inr n, e') \<Longrightarrow> taint e' = taint e \<and> blocked e' = blocked e
     \<and> r_session (n_request n) = r_session req \<and> r_surface (n_request n) = r_surface req \<and> r_source (n_request n) = r_source req"
  by (auto simp: normalize_stage_def dest: normalizer_keeps split: option.splits)

lemma tainted_stage_reads:
  "tainted_stage p req e = (Inr b, e') \<Longrightarrow> taint e' = taint e \<and> blocked e' = blocked e
     \<and> b = (r_session req \<noteq> [] \<and> taint e (r_session req))"
  by (auto simp: tainted_stage_def sessions dest: Tainted_law split: if_splits)

lemma checkPin_keeps:
  "checkPin sha p req e = (Inr b, e') \<Longrightarrow> taint e' = taint e \<and> blocked e' = blocked e"
  by (auto simp: checkPin_def sessions Let_def dest!: ToolPin_law PinTool_law split: if_splits prod.splits sum.splits option.splits)

lemma toolBlocked_reads:
  "toolBlocked p req e = (Inr b, e') \<Longrightarrow> taint e' = taint e \<and> blocked e' = blocked e
     \<and> b = (names_tool SurfaceToolCall req \<and> blocked e (r_session req) (r_source req))"
  by (auto simp: toolBlocked_def names_tool_def sessions dest: ToolBlocked_law split: if_splits)

lemma taint_write_writes:
  "taint_write p req d e = (Inr u, e') \<Longrightarrow> blocked e' = blocked e
     \<and> taint e' = (if d_taint_session d \<and> r_session req \<noteq> [] then (taint e)(r_session req := True) else taint e)"
  by (auto simp: taint_write_def sessions dest: Taint_law split: if_splits)

lemma block_write_writes:
  "block_write p req v e = (Inr u, e') \<Longrightarrow> taint e' = taint e
     \<and> (v_action v = ActionBlock \<and> names_tool SurfaceToolDefinition req \<longrightarrow> blocked e' (r_session req) (r_source req))"
  by (auto simp: block_write_def names_tool_def sessions dest: BlockTool_law split: if_splits)

lemma emit_keeps: "taint (emit sha p req v start cause e) = taint e \<and> blocked (emit sha p req v start cause e) = blocked e"
  using clock_keeps [of e] audit_keeps by (simp add: emit_def split_beta)

text \<open>What a completed inspection has read and written.\<close>

lemma stages_completed:
  "\<forall>v e2. inspect_stages sha p req e = (Inr v, e2) \<longrightarrow>
     (\<exists>inp d findings e3 e4. pl_Evaluate p inp e3 = (Inr d, e4)
        \<and> ei_session_tainted inp = (r_session req \<noteq> [] \<and> taint e (r_session req))
        \<and> r_surface (ei_request inp) = r_surface req
        \<and> v = decided_verdict (names_tool SurfaceToolCall req \<and> blocked e (r_session req) (r_source req)) findings d
        \<and> (v_taint_session v \<and> r_session req \<noteq> [] \<longrightarrow> taint e2 (r_session req))
        \<and> (v_action v = ActionBlock \<and> names_tool SurfaceToolDefinition req \<longrightarrow> blocked e2 (r_session req) (r_source req)))"
proof -
  let ?G = "\<lambda>out. \<forall>v e2. out = (Inr v, e2) \<longrightarrow>
     (\<exists>inp d findings e3 e4. pl_Evaluate p inp e3 = (Inr d, e4)
        \<and> ei_session_tainted inp = (r_session req \<noteq> [] \<and> taint e (r_session req))
        \<and> r_surface (ei_request inp) = r_surface req
        \<and> v = decided_verdict (names_tool SurfaceToolCall req \<and> blocked e (r_session req) (r_source req)) findings d
        \<and> (v_taint_session v \<and> r_session req \<noteq> [] \<longrightarrow> taint e2 (r_session req))
        \<and> (v_action v = ActionBlock \<and> names_tool SurfaceToolDefinition req \<longrightarrow> blocked e2 (r_session req) (r_source req)))"
  show ?thesis
    unfolding inspect_stages_def Let_def
    apply (rule or_fail_induct [where P = ?G], simp)
    apply (rule or_fail_induct [where P = ?G], simp)
    apply (rule or_fail_induct [where P = ?G], simp)
    apply (rule or_fail_induct [where P = ?G], simp)
    subgoal premises s for n e1 tainted e2 pinChanged e3 bl e4
      proof -
        note n = normalize_stage_keeps [OF s(1)]
        have t: "tainted = (r_session req \<noteq> [] \<and> taint e (r_session req))" and k2: "taint e2 = taint e" "blocked e2 = blocked e"
          using tainted_stage_reads [OF s(2)] n by simp_all
        have k3: "taint e3 = taint e" "blocked e3 = blocked e" using checkPin_keeps [OF s(3)] k2 by simp_all
        have b: "bl = (names_tool SurfaceToolCall req \<and> blocked e (r_session req) (r_source req))"
          and k4: "taint e4 = taint e" "blocked e4 = blocked e"
          using toolBlocked_reads [OF s(4)] k3 by simp_all
        have named: "names_tool surf (n_request n) = names_tool surf req" for surf using n by (simp add: names_tool_def)
        obtain detected err e5 where det: "pl_Detectors p (n_request n) e4 = ((detected, err), e5)" by (metis prod.collapse)
        define findings where "findings = n_findings n @ remapSpans detected (n_maps n)"
        define inp where "inp = \<lparr>ei_request = n_request n, ei_findings = findings, ei_session_tainted = tainted,
            ei_pin_changed = pinChanged\<rparr>"
        have "?G (or_fail (pl_Evaluate p inp e5) (\<lambda>err e. (Inl (inp, err), e))
           (\<lambda>decision e. or_fail (taint_write p (n_request n) decision e) (\<lambda>err e. (Inl (inp, err), e))
              (\<lambda>_ e. or_fail (block_write p (n_request n) (decided_verdict bl findings decision) e) (\<lambda>err e. (Inl (inp, err), e))
                 (\<lambda>_ e. (Inr (decided_verdict bl findings decision), e)))))"
        proof (rule or_fail_induct [where P = ?G], simp, rule or_fail_induct [where P = ?G], simp,
            rule or_fail_induct [where P = ?G], simp)
          fix d e6 u e7 u' e8
          assume w: "pl_Evaluate p inp e5 = (Inr d, e6)" "taint_write p (n_request n) d e6 = (Inr u, e7)"
            "block_write p (n_request n) (decided_verdict bl findings d) e7 = (Inr u', e8)"
          have "ei_session_tainted inp = (r_session req \<noteq> [] \<and> taint e (r_session req))"
            "r_surface (ei_request inp) = r_surface req"
            using n by (simp_all add: inp_def t)
          then show "?G (Inr (decided_verdict bl findings d), e8)"
            using w(1) taint_write_writes [OF w(2)] block_write_writes [OF w(3)] n
            by (auto simp: b named)
        qed
        then show ?thesis
          by (cases err) (simp_all add: det inp_def findings_def)
      qed
    done
qed

lemma Inspect_ends:
  "\<exists>v. fst (Inspect sha p req e) = Inr v
     \<and> (failed_verdict p v
        \<or> (\<exists>start e1 e2. clock p e = (start, e1) \<and> inspect_stages sha p req e1 = (Inr v, e2)
             \<and> snd (Inspect sha p req e) = emit sha p req v start None e2))"
proof -
  obtain start e1 where c: "clock p e = (start, e1)" by fastforce
  obtain r e2 where st: "inspect_stages sha p req e1 = (r, e2)" by fastforce
  show ?thesis
  proof (cases r)
    case (Inl x)
    obtain inp cause where "x = (inp, cause)" by fastforce
    then show ?thesis using c st Inl by (auto simp: Inspect_eq fail_eq failed_verdict_def)
  next
    case (Inr v)
    then show ?thesis using c st by (auto simp: Inspect_eq)
  qed
qed

lemma clock_views: "clock p e = (start, e1) \<Longrightarrow> taint e1 = taint e \<and> blocked e1 = blocked e"
  using clock_keeps [of e] by simp

lemma taint_left:
  assumes "fst (Inspect sha p req e) = Inr v" "v_taint_session v" "r_session req \<noteq> []"
  shows "taint (snd (Inspect sha p req e)) (r_session req)"
proof -
  have "\<not> failed_verdict p v" using assms(2) by (auto simp: failed_verdict_def)
  then obtain start e1 e2 where "inspect_stages sha p req e1 = (Inr v, e2)"
    "snd (Inspect sha p req e) = emit sha p req v start None e2"
    using Inspect_ends [of sha req e] assms(1) by auto
  then show ?thesis using stages_completed [of sha req e1] assms(2,3) emit_keeps by metis
qed

lemma block_left:
  assumes "fst (Inspect sha p req e) = Inr v" "v_action v = ActionBlock" "names_tool SurfaceToolDefinition req"
    "\<not> failed_verdict p v"
  shows "blocked (snd (Inspect sha p req e)) (r_session req) (r_source req)"
proof -
  obtain start e1 e2 where "inspect_stages sha p req e1 = (Inr v, e2)"
    "snd (Inspect sha p req e) = emit sha p req v start None e2"
    using Inspect_ends [of sha req e] assms(1,4) by auto
  then show ?thesis using stages_completed [of sha req e1] assms(2,3) emit_keeps by metis
qed

lemma failed_blocks:
  "(\<And>inp err. d_action (pl_OnError p inp err) = ActionBlock) \<Longrightarrow> failed_verdict p v \<Longrightarrow> v_action v = ActionBlock"
  by (auto simp: failed_verdict_def)

lemma tainted_hop_blocked:
  assumes "taint e (r_session req)" "r_session req \<noteq> []"
    and closed: "\<And>inp err. d_action (pl_OnError p inp err) = ActionBlock"
    and rule: "\<And>inp e d e'. ei_session_tainted inp \<Longrightarrow> r_surface (ei_request inp) = r_surface req \<Longrightarrow>
      pl_Evaluate p inp e = (Inr d, e') \<Longrightarrow> d_action d = ActionBlock"
  shows "\<exists>v. fst (Inspect sha p req e) = Inr v \<and> v_action v = ActionBlock"
proof -
  obtain v where v: "fst (Inspect sha p req e) = Inr v" and ends: "failed_verdict p v
      \<or> (\<exists>start e1 e2. clock p e = (start, e1) \<and> inspect_stages sha p req e1 = (Inr v, e2))"
    using Inspect_ends by blast
  have "v_action v = ActionBlock" if st: "clock p e = (start, e1)" "inspect_stages sha p req e1 = (Inr v, e2)" for start e1 e2
  proof -
    have "taint e1 (r_session req)" using clock_views [OF st(1)] assms(1) by simp
    then obtain inp d e3 e4 findings b where "pl_Evaluate p inp e3 = (Inr d, e4)" "ei_session_tainted inp"
      "r_surface (ei_request inp) = r_surface req" "v = decided_verdict b findings d"
      using stages_completed [of sha req e1] st(2) assms(2) by blast
    then show ?thesis using rule by simp
  qed
  then show ?thesis using v ends failed_blocks [OF closed] by blast
qed

lemma blocked_call_blocked:
  assumes "blocked e (r_session req) (r_source req)" "names_tool SurfaceToolCall req"
    and closed: "\<And>inp err. d_action (pl_OnError p inp err) = ActionBlock"
  shows "\<exists>v. fst (Inspect sha p req e) = Inr v \<and> v_action v = ActionBlock"
proof -
  obtain v where v: "fst (Inspect sha p req e) = Inr v" and ends: "failed_verdict p v
      \<or> (\<exists>start e1 e2. clock p e = (start, e1) \<and> inspect_stages sha p req e1 = (Inr v, e2))"
    using Inspect_ends by blast
  have "v_action v = ActionBlock" if st: "clock p e = (start, e1)" "inspect_stages sha p req e1 = (Inr v, e2)" for start e1 e2
  proof -
    have "blocked e1 (r_session req) (r_source req)" using clock_views [OF st(1)] assms(1) by simp
    then obtain findings d where "v = decided_verdict True findings d"
      using stages_completed [of sha req e1] st(2) assms(2) by auto
    then show ?thesis by simp
  qed
  then show ?thesis using v ends failed_blocks [OF closed] by blast
qed

end

section \<open>The two services\<close>

lemma Normalizer_keeps_request:
  "Normalizer_Normalize lib req = Some n \<Longrightarrow> r_session (n_request n) = r_session req
     \<and> r_surface (n_request n) = r_surface req \<and> r_source (n_request n) = r_source req"
  by (auto simp: Normalizer_Normalize_def split: option.splits)

text \<open>A process of its own, with the in-memory store.\<close>

interpretation alone: shared_inspection world_store "\<lambda>w. mem_taint (w_mem w)" "\<lambda>w. mem_pin (w_mem w)"
  "\<lambda>w. mem_blocked (w_mem w)" nul_free "inspector_pipeline lib reg pol ttl line" for lib reg pol ttl line
proof unfold_locales
  fix run req n and e e' :: world
  assume "pl_Normalizer (inspector_pipeline lib reg pol ttl line) = Some run" "run req e = (Inr n, e')"
  then show "mem_taint (w_mem e') = mem_taint (w_mem e) \<and> mem_blocked (w_mem e') = mem_blocked (w_mem e)
      \<and> r_session (n_request n) = r_session req \<and> r_surface (n_request n) = r_surface req \<and> r_source (n_request n) = r_source req"
    using Normalizer_keeps_request by (auto simp: inspector_pipeline_def run_normalizer_def split: option.splits)
qed (simp_all add: wiring world_audit_eq split_beta)

text \<open>
  The pipeline of a process that was given a Redis address. The state is the server, as the network shows it to
  this process, the lines written and the clock.
\<close>

record 'r shared_world =
  sw_server :: 'r
  sw_out :: "string list"
  sw_now :: time

definition lift_server :: "('r \<Rightarrow> 'a \<times> 'r) \<Rightarrow> 'r shared_world \<Rightarrow> 'a \<times> 'r shared_world" where
  "lift_server f w = (let (r, \<sigma>) = f (sw_server w) in (r, w\<lparr>sw_server := \<sigma>\<rparr>))"

definition lift_store :: "'r store \<Rightarrow> 'r shared_world store" where
  "lift_store s =
     \<lparr>st_Tainted = (\<lambda>k. lift_server (st_Tainted s k)), st_Taint = (\<lambda>k ttl. lift_server (st_Taint s k ttl)),
      st_ToolPin = (\<lambda>k t. lift_server (st_ToolPin s k t)), st_PinTool = (\<lambda>k t h ttl. lift_server (st_PinTool s k t h ttl)),
      st_ToolBlocked = (\<lambda>k t. lift_server (st_ToolBlocked s k t)),
      st_BlockTool = (\<lambda>k t ttl. lift_server (st_BlockTool s k t ttl))\<rparr>"

definition NewRedis :: "'r redis_client \<Rightarrow> string \<Rightarrow> 'r shared_world store" where
  "NewRedis c pre = lift_store (redis_store c (redis_prefix pre))"

definition redis_pipeline :: "'r redis_client \<Rightarrow> service \<Rightarrow> 'r shared_world pipeline" where
  "redis_pipeline c sv =
     \<lparr>pl_Normalizer = Some (run_normalizer (sv_lib sv)),
      pl_Detectors = (\<lambda>req w. (Registry_Detect (sv_registry sv) req, w)),
      pl_Evaluate = (\<lambda>inp w. (Inr (Evaluate (NewEvaluator (Some (sv_policy sv))) inp), w)),
      pl_OnError = (\<lambda>_ _. Policy_OnError (NewEvaluator (Some (sv_policy sv)))),
      pl_Sessions = NewRedis c [],
      pl_Audit = (\<lambda>ev w. (let (r, out) = JSONLSink_Write (sv_line sv) ev (sw_out w) in (r, w\<lparr>sw_out := out\<rparr>))),
      pl_TaintTTL = sv_ttl sv, pl_now = Some (\<lambda>w. (sw_now w, w)), pl_time_Now = (\<lambda>w. (sw_now w, w))\<rparr>"

definition serve_shared :: "'r redis_client \<Rightarrow> service \<Rightarrow> request \<Rightarrow> 'r shared_world \<Rightarrow> verdict result \<times> 'r shared_world" where
  "serve_shared c sv req w = Inspect (sv_sha sv) (redis_pipeline c sv) req w"

definition key_prefix :: string where "key_prefix = redis_prefix []"

definition shared_taint :: "('r \<Rightarrow> string \<Rightarrow> string option) \<Rightarrow> 'r shared_world \<Rightarrow> string \<Rightarrow> bool" where
  "shared_taint live w s = (live (sw_server w) (taintKey key_prefix s) \<noteq> None)"

definition shared_pin :: "('r \<Rightarrow> string \<Rightarrow> string option) \<Rightarrow> 'r shared_world \<Rightarrow> string \<Rightarrow> string \<Rightarrow> string option" where
  "shared_pin live w s t = live (sw_server w) (pinKey key_prefix s t)"

definition shared_block :: "('r \<Rightarrow> string \<Rightarrow> string option) \<Rightarrow> 'r shared_world \<Rightarrow> string \<Rightarrow> string \<Rightarrow> bool" where
  "shared_block live w s t = (live (sw_server w) (blockedKey key_prefix s t) \<noteq> None)"

lemma lift_server_iff:
  "lift_server f w = (x, w') \<longleftrightarrow> (\<exists>\<sigma>. f (sw_server w) = (x, \<sigma>) \<and> w' = w\<lparr>sw_server := \<sigma>\<rparr>)"
  by (auto simp: lift_server_def split: prod.splits)

lemma lift_store_laws:
  assumes "session_store S t pn b sep"
  shows "session_store (lift_store S) (\<lambda>w. t (sw_server w)) (\<lambda>w. pn (sw_server w)) (\<lambda>w. b (sw_server w)) sep"
proof unfold_locales
  fix k tool v k' tool' :: string and ttl :: int and w w' :: "'a shared_world" and r :: bool and h :: "string option" and u :: unit
  note laws = session_store.Tainted_law [OF assms, of k "sw_server w" r "sw_server w'"]
    session_store.Taint_law [OF assms, of k ttl "sw_server w" u "sw_server w'"]
    session_store.ToolPin_law [OF assms, of k tool "sw_server w" h "sw_server w'"]
    session_store.PinTool_law [OF assms, of k tool v ttl "sw_server w" u "sw_server w'" k' tool']
    session_store.ToolBlocked_law [OF assms, of k tool "sw_server w" r "sw_server w'"]
    session_store.BlockTool_law [OF assms, of k tool ttl "sw_server w" u "sw_server w'" k' tool']
  show "st_Tainted (lift_store S) k w = (Inr r, w') \<Longrightarrow> r = t (sw_server w) k \<and> t (sw_server w') = t (sw_server w)
      \<and> pn (sw_server w') = pn (sw_server w) \<and> b (sw_server w') = b (sw_server w)"
    using laws(1) by (auto simp: lift_store_def lift_server_iff)
  show "st_Taint (lift_store S) k ttl w = (Inr u, w') \<Longrightarrow> t (sw_server w') = (t (sw_server w))(k := True)
      \<and> pn (sw_server w') = pn (sw_server w) \<and> b (sw_server w') = b (sw_server w)"
    using laws(2) by (auto simp: lift_store_def lift_server_iff)
  show "st_ToolPin (lift_store S) k tool w = (Inr h, w') \<Longrightarrow> h = pn (sw_server w) k tool \<and> t (sw_server w') = t (sw_server w)
      \<and> pn (sw_server w') = pn (sw_server w) \<and> b (sw_server w') = b (sw_server w)"
    using laws(3) by (auto simp: lift_store_def lift_server_iff)
  show "st_PinTool (lift_store S) k tool v ttl w = (Inr u, w') \<Longrightarrow> pn (sw_server w') k tool = Some v
      \<and> t (sw_server w') = t (sw_server w) \<and> b (sw_server w') = b (sw_server w)
      \<and> (sep k \<and> sep k' \<and> (k', tool') \<noteq> (k, tool) \<longrightarrow> pn (sw_server w') k' tool' = pn (sw_server w) k' tool')"
    using laws(4) by (auto simp: lift_store_def lift_server_iff)
  show "st_ToolBlocked (lift_store S) k tool w = (Inr r, w') \<Longrightarrow> r = b (sw_server w) k tool \<and> t (sw_server w') = t (sw_server w)
      \<and> pn (sw_server w') = pn (sw_server w) \<and> b (sw_server w') = b (sw_server w)"
    using laws(5) by (auto simp: lift_store_def lift_server_iff)
  show "st_BlockTool (lift_store S) k tool ttl w = (Inr u, w') \<Longrightarrow> b (sw_server w') k tool
      \<and> t (sw_server w') = t (sw_server w) \<and> pn (sw_server w') = pn (sw_server w)
      \<and> (b (sw_server w) k' tool' \<longrightarrow> b (sw_server w') k' tool')
      \<and> (sep k \<and> sep k' \<and> (k', tool') \<noteq> (k, tool) \<longrightarrow> b (sw_server w') k' tool' = b (sw_server w) k' tool')"
    using laws(6) by (auto simp: lift_store_def lift_server_iff)
qed

lemma shared_taint_out:
  "shared_taint live (w\<lparr>sw_out := ls\<rparr>) = shared_taint live w" "shared_block live (w\<lparr>sw_out := ls\<rparr>) = shared_block live w"
  by (simp_all add: shared_taint_def shared_block_def fun_eq_iff)

lemma shared_redis:
  assumes "documented_server c live"
  shows "shared_inspection (NewRedis c []) (shared_taint live) (shared_pin live) (shared_block live) brace_free
    (redis_pipeline c sv)"
proof (rule shared_inspection.intro)
  show "session_store (NewRedis c []) (shared_taint live) (shared_pin live) (shared_block live) brace_free"
    using lift_store_laws [OF redis_implements_store [OF assms, of key_prefix]]
    by (simp add: NewRedis_def key_prefix_def shared_taint_def [abs_def] shared_pin_def [abs_def] shared_block_def [abs_def])
  show "shared_inspection_axioms (NewRedis c []) (shared_taint live) (shared_block live) (redis_pipeline c sv)"
  proof unfold_locales
    fix run req n and e e' :: "'a shared_world"
    assume "pl_Normalizer (redis_pipeline c sv) = Some run" "run req e = (Inr n, e')"
    then show "shared_taint live e' = shared_taint live e \<and> shared_block live e' = shared_block live e
        \<and> r_session (n_request n) = r_session req \<and> r_surface (n_request n) = r_surface req \<and> r_source (n_request n) = r_source req"
      using Normalizer_keeps_request by (auto simp: redis_pipeline_def run_normalizer_def split: option.splits)
  qed (simp_all add: redis_pipeline_def clock_def split_beta shared_taint_out)
qed

section \<open>Properties\<close>

text \<open>Replicas over one Redis server share what they know, and an outage does not lose it. When a
  replica's verdict taints a session, the server holds the taint when the verdict is given, and from then
  on, as long as the server holds it, every replica that fails closed blocks that session's hops on the surfaces its
  rules cover, whatever operation of the store, or detector, fails. A definition blocked by the rules is
  held in the same way and blocks the calls of its tool. The replicas need not share a policy, detectors or a ttl.\<close>

theorem replicas_share_state:
  assumes "documented_server c live" "OnError_Action (pol_on_error (sv_policy B)) = ActionBlock"
    "serve_shared c A first w = (Inr v, w1)"
  shows "(v_taint_session v \<and> r_session first \<noteq> [] \<longrightarrow> shared_taint live w1 (r_session first)
      \<and> (\<forall>w2 later. shared_taint live w2 (r_session first) \<and> r_session later = r_session first
           \<and> tainted_rule (r_surface later) \<in> set (pol_rules (sv_policy B)) \<longrightarrow>
           (\<exists>v'. fst (serve_shared c B later w2) = Inr v' \<and> v_action v' = ActionBlock)))
    \<and> (v_action v = ActionBlock \<and> names_tool SurfaceToolDefinition first
         \<and> v \<noteq> on_error_verdict (Policy_OnError (sv_policy A)) \<longrightarrow>
       shared_block live w1 (r_session first) (r_source first)
      \<and> (\<forall>w2 call. shared_block live w2 (r_session first) (r_source first) \<and> names_tool SurfaceToolCall call
           \<and> r_session call = r_session first \<and> r_source call = r_source first \<longrightarrow>
           (\<exists>v'. fst (serve_shared c B call w2) = Inr v' \<and> v_action v' = ActionBlock)))"
proof -
  note inA = shared_redis [OF assms(1), of A] and inB = shared_redis [OF assms(1), of B]
  have hop: "fst (Inspect (sv_sha A) (redis_pipeline c A) first w) = Inr v"
    "snd (Inspect (sv_sha A) (redis_pipeline c A) first w) = w1"
    using assms(3) by (simp_all add: serve_shared_def)
  have onerr: "d_action (pl_OnError (redis_pipeline c B) inp err) = ActionBlock" for inp err
    using assms(2) by (simp add: redis_pipeline_def Policy_OnError_def NewEvaluator_def)
  have decides: "d_action d = ActionBlock"
    if "tainted_rule surf \<in> set (pol_rules (sv_policy B))" "ei_session_tainted inp" "r_surface (ei_request inp) = surf"
      "pl_Evaluate (redis_pipeline c B) inp e = (Inr d, e')" for surf inp e e' d
  proof -
    have "rule_hit inp (tainted_rule surf)" using that by (simp add: state_rule_hit)
    from block_rule_decides [OF that(1) this] show ?thesis
      using that(4) by (simp add: redis_pipeline_def NewEvaluator_def tainted_rule_def state_rule_def)
  qed
  have failed: "failed_verdict (redis_pipeline c A) v \<Longrightarrow> v = on_error_verdict (Policy_OnError (sv_policy A))"
    by (auto simp: failed_verdict_def redis_pipeline_def NewEvaluator_def)
  show ?thesis
  proof (intro conjI impI allI)
    show "shared_taint live w1 (r_session first)" if "v_taint_session v \<and> r_session first \<noteq> []"
      using shared_inspection.taint_left [OF inA hop(1)] that hop(2) by simp
    show "shared_block live w1 (r_session first) (r_source first)"
      if "v_action v = ActionBlock \<and> names_tool SurfaceToolDefinition first \<and> v \<noteq> on_error_verdict (Policy_OnError (sv_policy A))"
      using shared_inspection.block_left [OF inA hop(1)] that hop(2) failed by auto
  next
    fix w2 and later :: request
    assume "v_taint_session v \<and> r_session first \<noteq> []"
      "shared_taint live w2 (r_session first) \<and> r_session later = r_session first
         \<and> tainted_rule (r_surface later) \<in> set (pol_rules (sv_policy B))"
    then show "\<exists>v'. fst (serve_shared c B later w2) = Inr v' \<and> v_action v' = ActionBlock"
      unfolding serve_shared_def
      by (intro shared_inspection.tainted_hop_blocked [OF inB]) (auto intro: onerr decides)
  next
    fix w2 and call :: request
    assume "shared_block live w2 (r_session first) (r_source first) \<and> names_tool SurfaceToolCall call
           \<and> r_session call = r_session first \<and> r_source call = r_source first"
    then show "\<exists>v'. fst (serve_shared c B call w2) = Inr v' \<and> v_action v' = ActionBlock"
      unfolding serve_shared_def
      by (intro shared_inspection.blocked_call_blocked [OF inB]) (auto intro: onerr)
  qed
qed

text \<open>One replica taints the session of a tool result, another then blocks its tool call.\<close>

definition taints_all :: service where
  "taints_all = sample_service [] None [taint_on SurfaceToolResult]"

definition guards_calls :: service where
  "guards_calls = sample_service [] None [tainted_rule SurfaceToolCall]"

lemma taints_all_hop:
  "\<exists>v w1. serve_shared kv_client taints_all (text_request SurfaceToolResult ''s'' ''web'' ''page'')
      \<lparr>sw_server = Map.empty, sw_out = [], sw_now = 0\<rparr> = (Inr v, w1) \<and> v_taint_session v"
proof -
  let ?req = "text_request SurfaceToolResult ''s'' ''web'' ''page''"
  have doc: "nfkc_documented (sv_lib taints_all)" by (simp add: taints_all_def sample_service_doc)
  have n: "Normalizer_Normalize (sv_lib taints_all) ?req = Some (normalized taints_all ?req)" by (rule normalized_eq(1) [OF doc])
  have d: "snd (Registry_Detect (sv_registry taints_all) (n_request (normalized taints_all ?req))) = None"
    using sample_detect_error [of "[]" None "[taint_on SurfaceToolResult]" ?req] by (simp add: detect_error_def taints_all_def)
  then obtain fs where fs: "Registry_Detect (sv_registry taints_all) (n_request (normalized taints_all ?req)) = (fs, None)"
    by (metis prod.collapse)
  have rules: "pol_rules (sv_policy taints_all) = [taint_on SurfaceToolResult]" by (simp add: taints_all_def)
  have t: "d_taint_session (Evaluate (sv_policy taints_all) inp)" if "r_surface (ei_request inp) = SurfaceToolResult" for inp
    using that by (simp add: Evaluate_taint rules sample_rule_hits)
  note fields = normalized_fields [OF doc, of ?req]
  let ?w = "\<lparr>sw_server = Map.empty, sw_out = [], sw_now = 0\<rparr> :: (string \<rightharpoonup> string) shared_world"
  define p where "p = redis_pipeline kv_client taints_all"
  have other: "SurfaceToolResult \<noteq> SurfaceToolDefinition" "SurfaceToolResult \<noteq> SurfaceToolCall" by (simp_all add: go_consts)
  have s0: "clock p ?w = (0, ?w)" "normalize_stage p ?req ?w = (Inr (normalized taints_all ?req), ?w)"
    by (simp_all add: p_def redis_pipeline_def clock_def normalize_stage_def run_normalizer_def n)
  have s1: "tainted_stage p (n_request (normalized taints_all ?req)) ?w = (Inr False, ?w)"
    by (simp add: tainted_stage_def fields p_def redis_pipeline_def NewRedis_def lift_store_def lift_server_def redis_store_def
        Redis_Tainted_def kv_client_def)
  have s2: "checkPin sha p ?req ?w = (Inr False, ?w)" "toolBlocked p ?req ?w = (Inr False, ?w)" for sha
    using other by (simp_all add: checkPin_def toolBlocked_def)
  have s3: "pl_Detectors p (n_request (normalized taints_all ?req)) ?w = ((fs, None), ?w)"
    "pl_Evaluate p inp ?w = (Inr (Evaluate (sv_policy taints_all) inp), ?w)" for inp
    by (simp_all add: p_def redis_pipeline_def fs NewEvaluator_def)
  have s4: "\<exists>w'. taint_write p (n_request (normalized taints_all ?req)) dec ?w = (Inr (), w')" if "d_taint_session dec" for dec
    using that by (simp add: taint_write_def fields p_def redis_pipeline_def NewRedis_def lift_store_def lift_server_def
        redis_store_def Redis_Taint_def kv_client_def Let_def)
  have s5: "block_write p (n_request (normalized taints_all ?req)) v' w' = (Inr (), w')" for v' w'
    using other by (simp add: block_write_def fields)
  define inp where "inp = \<lparr>ei_request = n_request (normalized taints_all ?req),
      ei_findings = n_findings (normalized taints_all ?req) @ remapSpans fs (n_maps (normalized taints_all ?req)),
      ei_session_tainted = False, ei_pin_changed = False\<rparr>"
  have "d_taint_session (Evaluate (sv_policy taints_all) inp)" by (rule t) (simp add: inp_def fields)
  moreover from s4 [OF this] obtain w' where
    "taint_write p (n_request (normalized taints_all ?req)) (Evaluate (sv_policy taints_all) inp) ?w = (Inr (), w')" ..
  ultimately show ?thesis
    unfolding serve_shared_def p_def [symmetric] Inspect_eq inspect_stages_def
    by (simp add: s0 s1 s2 s3 s5 Let_def flip: inp_def)
qed

theorem replicas_share_state_witness:
  "\<exists>v w1 v'. serve_shared kv_client taints_all (text_request SurfaceToolResult ''s'' ''web'' ''page'')
        \<lparr>sw_server = Map.empty, sw_out = [], sw_now = 0\<rparr> = (Inr v, w1) \<and> v_taint_session v
     \<and> fst (serve_shared kv_client guards_calls (text_request SurfaceToolCall ''s'' ''mail'' ''send'') w1) = Inr v'
     \<and> v_action v' = ActionBlock"
proof -
  have kv: "documented_server kv_client (\<lambda>\<sigma>. \<sigma>)"
    by (auto simp: documented_server_def kv_client_def split: option.splits)
  have closed: "OnError_Action (pol_on_error (sv_policy guards_calls)) = ActionBlock"
    by (simp add: guards_calls_def sample_policy_def OnError_Action_def go_consts)
  have rules: "pol_rules (sv_policy guards_calls) = [tainted_rule SurfaceToolCall]" by (simp add: guards_calls_def)
  obtain v w1 where hop: "serve_shared kv_client taints_all (text_request SurfaceToolResult ''s'' ''web'' ''page'')
      \<lparr>sw_server = Map.empty, sw_out = [], sw_now = 0\<rparr> = (Inr v, w1)" "v_taint_session v"
    using taints_all_hop by blast
  from replicas_share_state [OF kv closed hop(1)] hop rules show ?thesis by auto
qed

end
