(* ===== verification/Inspection_Calls.thy ===== *)
theory Inspection_Calls
  imports Replicas
begin

text \<open>
  \<open>Pipeline.Inspect\<close> again, cut at the points where its goroutine can be interrupted with an effect: the calls of
  the session store, the audit sink and the clock. Each of these holds a mutex of its own, or is one command of
  the Redis server, so it is atomic; the code between two calls works on the goroutine's own variables. An
  inspection is then a tree: a verdict, or a call and what to do with its reply.
\<close>

section \<open>Calls and replies\<close>

datatype call =
    NowCall
  | TaintedCall string
  | TaintCall string int
  | ToolPinCall string string
  | PinToolCall string string string int
  | ToolBlockedCall string string
  | BlockToolCall string string int
  | AuditCall event

datatype reply =
    TimeReply time
  | FlagReply "bool result"
  | PinReply "string option result"
  | UnitReply "unit result"

primrec perform :: "'e pipeline \<Rightarrow> call \<Rightarrow> 'e \<Rightarrow> reply \<times> 'e" where
  "perform p NowCall e = apfst TimeReply (clock p e)"
| "perform p (TaintedCall s) e = apfst FlagReply (st_Tainted (pl_Sessions p) s e)"
| "perform p (TaintCall s ttl) e = apfst UnitReply (st_Taint (pl_Sessions p) s ttl e)"
| "perform p (ToolPinCall s t) e = apfst PinReply (st_ToolPin (pl_Sessions p) s t e)"
| "perform p (PinToolCall s t h ttl) e = apfst UnitReply (st_PinTool (pl_Sessions p) s t h ttl e)"
| "perform p (ToolBlockedCall s t) e = apfst FlagReply (st_ToolBlocked (pl_Sessions p) s t e)"
| "perform p (BlockToolCall s t ttl) e = apfst UnitReply (st_BlockTool (pl_Sessions p) s t ttl e)"
| "perform p (AuditCall ev) e = apfst UnitReply (pl_Audit p ev e)"

text \<open>A call is answered by the reply of its kind; the other branches are never taken (\<open>perform_fits\<close>).\<close>

definition time_of :: "reply \<Rightarrow> time" where
  "time_of r = (case r of TimeReply t \<Rightarrow> t | _ \<Rightarrow> 0)"

definition flag_of :: "reply \<Rightarrow> bool result" where
  "flag_of r = (case r of FlagReply b \<Rightarrow> b | _ \<Rightarrow> Inl (ErrorText []))"

definition pin_of :: "reply \<Rightarrow> string option result" where
  "pin_of r = (case r of PinReply h \<Rightarrow> h | _ \<Rightarrow> Inl (ErrorText []))"

definition unit_of :: "reply \<Rightarrow> unit result" where
  "unit_of r = (case r of UnitReply u \<Rightarrow> u | _ \<Rightarrow> Inl (ErrorText []))"

lemmas reply_defs = time_of_def flag_of_def pin_of_def unit_of_def

definition reply_fits :: "call \<Rightarrow> reply \<Rightarrow> bool" where
  "reply_fits c r = (case c of
       NowCall \<Rightarrow> (\<exists>t. r = TimeReply t)
     | TaintedCall s \<Rightarrow> (\<exists>b. r = FlagReply b)
     | ToolPinCall s t \<Rightarrow> (\<exists>h. r = PinReply h)
     | ToolBlockedCall s t \<Rightarrow> (\<exists>b. r = FlagReply b)
     | _ \<Rightarrow> (\<exists>u. r = UnitReply u))"

lemma perform_fits: "perform p c e = (r, e') \<Longrightarrow> reply_fits c r"
  by (cases c) (auto simp: reply_fits_def apfst_def map_prod_def split: prod.splits)

section \<open>An inspection as a tree of calls\<close>

datatype prog = Done verdict | Call call "reply \<Rightarrow> prog"

text \<open>\<open>if err != nil { return p.fail(...) }\<close> on a reply.\<close>

definition reply_or_fail :: "'a result \<Rightarrow> (go_error \<Rightarrow> prog) \<Rightarrow> ('a \<Rightarrow> prog) \<Rightarrow> prog" where
  "reply_or_fail x failure k = (case x of Inl err \<Rightarrow> failure err | Inr y \<Rightarrow> k y)"

definition tainted_calls :: "request \<Rightarrow> (go_error \<Rightarrow> prog) \<Rightarrow> (bool \<Rightarrow> prog) \<Rightarrow> prog" where
  "tainted_calls req failure k =
     (if r_session req \<noteq> []
      then Call (TaintedCall (r_session req)) (\<lambda>r. reply_or_fail (flag_of r) failure k)
      else k False)"

definition checkPin_calls :: "service \<Rightarrow> request \<Rightarrow> (go_error \<Rightarrow> prog) \<Rightarrow> (bool \<Rightarrow> prog) \<Rightarrow> prog" where
  "checkPin_calls sv req failure k =
     (if r_surface req \<noteq> SurfaceToolDefinition \<or> r_session req = [] \<or> r_source req = [] then k False
      else
        let hash = ContentHash (sv_sha sv) req in
        Call (ToolPinCall (r_session req) (r_source req)) (\<lambda>r.
          reply_or_fail (pin_of r) failure (\<lambda>pin.
            case pin of
              None \<Rightarrow> Call (PinToolCall (r_session req) (r_source req) hash (sv_ttl sv)) (\<lambda>r.
                reply_or_fail (unit_of r) failure (\<lambda>_. k False))
            | Some approved \<Rightarrow> k (approved \<noteq> hash))))"

definition toolBlocked_calls :: "request \<Rightarrow> (go_error \<Rightarrow> prog) \<Rightarrow> (bool \<Rightarrow> prog) \<Rightarrow> prog" where
  "toolBlocked_calls req failure k =
     (if r_surface req \<noteq> SurfaceToolCall \<or> r_session req = [] \<or> r_source req = [] then k False
      else Call (ToolBlockedCall (r_session req) (r_source req)) (\<lambda>r. reply_or_fail (flag_of r) failure k))"

definition taint_calls :: "service \<Rightarrow> request \<Rightarrow> decision \<Rightarrow> (go_error \<Rightarrow> prog) \<Rightarrow> prog \<Rightarrow> prog" where
  "taint_calls sv req decision failure k =
     (if d_taint_session decision \<and> r_session req \<noteq> []
      then Call (TaintCall (r_session req) (sv_ttl sv)) (\<lambda>r. reply_or_fail (unit_of r) failure (\<lambda>_. k))
      else k)"

definition block_calls :: "service \<Rightarrow> request \<Rightarrow> verdict \<Rightarrow> (go_error \<Rightarrow> prog) \<Rightarrow> prog \<Rightarrow> prog" where
  "block_calls sv req verdict failure k =
     (if v_action verdict = ActionBlock \<and> r_surface req = SurfaceToolDefinition \<and> r_session req \<noteq> []
         \<and> r_source req \<noteq> []
      then Call (BlockToolCall (r_session req) (r_source req) (sv_ttl sv)) (\<lambda>r.
        reply_or_fail (unit_of r) failure (\<lambda>_. k))
      else k)"

definition emit_calls :: "service \<Rightarrow> request \<Rightarrow> verdict \<Rightarrow> time \<Rightarrow> go_error option \<Rightarrow> prog" where
  "emit_calls sv req v start cause =
     Call NowCall (\<lambda>now. Call (AuditCall (make_event (sv_sha sv) req v start cause (time_of now))) (\<lambda>_. Done v))"

definition fail_calls :: "service \<Rightarrow> request \<Rightarrow> time \<Rightarrow> go_error \<Rightarrow> prog" where
  "fail_calls sv req start cause =
     emit_calls sv req (on_error_verdict (Policy_OnError (NewEvaluator (Some (sv_policy sv))))) start (Some cause)"

definition decide_calls ::
  "service \<Rightarrow> request \<Rightarrow> time \<Rightarrow> normalization \<Rightarrow> bool \<Rightarrow> bool \<Rightarrow> bool \<Rightarrow> prog" where
  "decide_calls sv original start n tainted pinChanged blocked =
     (let req = n_request n;
          failure = fail_calls sv original start;
          (detected, err) = Registry_Detect (sv_registry sv) req;
          findings = n_findings n @ remapSpans detected (n_maps n);
          inp = \<lparr>ei_request = req, ei_findings = findings, ei_session_tainted = tainted, ei_pin_changed = pinChanged\<rparr>
      in
      case err of Some err \<Rightarrow> failure err | None \<Rightarrow>
      let decision = Evaluate (NewEvaluator (Some (sv_policy sv))) inp;
          verdict = decided_verdict blocked findings decision
      in
      taint_calls sv req decision failure (
      block_calls sv req verdict failure (
      emit_calls sv original verdict start None)))"

definition inspect_calls :: "service \<Rightarrow> request \<Rightarrow> prog" where
  "inspect_calls sv original =
     Call NowCall (\<lambda>now.
       let start = time_of now; failure = fail_calls sv original start in
       case Normalizer_Normalize (sv_lib sv) original of
         None \<Rightarrow> failure (ErrorText ''panic'')
       | Some n \<Rightarrow>
           tainted_calls (n_request n) failure (\<lambda>tainted.
           checkPin_calls sv original failure (\<lambda>pinChanged.
           toolBlocked_calls original failure (\<lambda>blocked.
           decide_calls sv original start n tainted pinChanged blocked))))"

section \<open>Running one inspection alone\<close>

primrec run_alone :: "'e pipeline \<Rightarrow> prog \<Rightarrow> 'e \<Rightarrow> verdict \<times> 'e" where
  "run_alone p (Done v) = (\<lambda>e. (v, e))"
| "run_alone p (Call c k) = (\<lambda>e. case perform p c e of (r, e') \<Rightarrow> run_alone p (k r) e')"

text \<open>A pipeline that runs the stages of a service, over any store, sink and clock.\<close>

definition wired :: "service \<Rightarrow> 'e pipeline \<Rightarrow> bool" where
  "wired sv p =
     (pl_Normalizer p = Some (run_normalizer (sv_lib sv))
      \<and> pl_Detectors p = (\<lambda>req e. (Registry_Detect (sv_registry sv) req, e))
      \<and> pl_Evaluate p = (\<lambda>inp e. (Inr (Evaluate (NewEvaluator (Some (sv_policy sv))) inp), e))
      \<and> pl_OnError p = (\<lambda>_ _. Policy_OnError (NewEvaluator (Some (sv_policy sv))))
      \<and> pl_TaintTTL p = sv_ttl sv)"

definition service_pipeline :: "service \<Rightarrow> world pipeline" where
  "service_pipeline sv = inspector_pipeline (sv_lib sv) (sv_registry sv) (sv_policy sv) (sv_ttl sv) (sv_line sv)"

lemma both_wired: "wired sv (service_pipeline sv)" "wired sv (redis_pipeline c sv)"
  by (simp_all add: wired_def service_pipeline_def inspector_pipeline_def redis_pipeline_def)

lemma run_emit: "run_alone p (emit_calls sv req v start cause) e = (v, emit (sv_sha sv) p req v start cause e)"
  by (simp add: emit_calls_def emit_def apfst_def map_prod_def time_of_def split_beta)

definition returned :: "verdict \<times> 'e \<Rightarrow> verdict result \<times> 'e" where
  "returned r = (Inr (fst r), snd r)"

lemma run_fail:
  "wired sv p \<Longrightarrow> fail (sv_sha sv) p req inp cause start = (\<lambda>e. returned (run_alone p (fail_calls sv req start cause) e))"
  by (simp add: fun_eq_iff fail_calls_def run_emit fail_eq wired_def returned_def)

lemma run_reply: "run_alone p (reply_or_fail x failure k) e = or_fail (x, e) (\<lambda>err. run_alone p (failure err)) (\<lambda>y. run_alone p (k y))"
  by (simp add: reply_or_fail_def or_fail_def split: sum.splits)

lemma run_tainted:
  "run_alone p (tainted_calls req failure k) e
     = or_fail (tainted_stage p req e) (\<lambda>err. run_alone p (failure err)) (\<lambda>b. run_alone p (k b))"
  by (simp add: tainted_calls_def tainted_stage_def run_reply apfst_def map_prod_def flag_of_def split_beta)

lemma run_toolBlocked:
  "run_alone p (toolBlocked_calls req failure k) e
     = or_fail (toolBlocked p req e) (\<lambda>err. run_alone p (failure err)) (\<lambda>b. run_alone p (k b))"
  by (simp add: toolBlocked_calls_def toolBlocked_def run_reply apfst_def map_prod_def flag_of_def split_beta)

lemma run_checkPin:
  "wired sv p \<Longrightarrow> run_alone p (checkPin_calls sv req failure k) e
     = or_fail (checkPin (sv_sha sv) p req e) (\<lambda>err. run_alone p (failure err)) (\<lambda>b. run_alone p (k b))"
  by (auto simp: checkPin_calls_def checkPin_def run_reply apfst_def map_prod_def pin_of_def unit_of_def wired_def
      or_fail_def Let_def split: prod.splits sum.splits option.splits)

lemma run_writes:
  "wired sv p \<Longrightarrow> run_alone p (taint_calls sv req d failure k) e
     = or_fail (taint_write p req d e) (\<lambda>err. run_alone p (failure err)) (\<lambda>_. run_alone p k)"
  "wired sv p \<Longrightarrow> run_alone p (block_calls sv req v failure k) e
     = or_fail (block_write p req v e) (\<lambda>err. run_alone p (failure err)) (\<lambda>_. run_alone p k)"
  by (auto simp: taint_calls_def block_calls_def taint_write_def block_write_def run_reply apfst_def map_prod_def
      unit_of_def wired_def or_fail_def split: prod.splits sum.splits)

lemma run_inspect:
  assumes "wired sv p"
  shows "Inspect (sv_sha sv) p req e = returned (run_alone p (inspect_calls sv req) e)"
proof -
  have stages: "pl_Detectors p r e = (Registry_Detect (sv_registry sv) r, e)"
    "pl_Evaluate p inp e = (Inr (Evaluate (NewEvaluator (Some (sv_policy sv))) inp), e)"
    "normalize_stage p r e = run_normalizer (sv_lib sv) r e" for r inp and e
    using assms by (simp_all add: wired_def normalize_stage_def)
  note runs = run_tainted run_checkPin [OF assms] run_toolBlocked run_writes [OF assms] run_fail [OF assms]
  show ?thesis
    unfolding Inspect_def inspect_calls_def decide_calls_def Let_def
    by (cases "Normalizer_Normalize (sv_lib sv) req")
      (simp_all add: stages run_normalizer_def split_beta apfst_def map_prod_def time_of_def runs
        or_fail_push [of returned] option.case_distrib [of "\<lambda>x. run_alone p x _"]
        option.case_distrib [of returned] run_emit returned_def [of "(_, _)"] cong: option.case_cong)
qed

end
