(* ===== verification/Concurrent.thy ===== *)
theory Concurrent
  imports Inspection_Calls "HOL-Library.Multiset"
begin

text \<open>
  Requests in parallel. The gateway server runs each request in a goroutine of its own, so the calls of several
  inspections interleave in any order, while the clock moves and, over Redis, other replicas change the store. A
  step relation on the inspections in flight and the state they share says so; its properties are proved by
  induction on the run.
\<close>

section \<open>Interleaved inspections\<close>

type_synonym thread = "request \<times> prog"
type_synonym 'e conf = "thread list \<times> 'e"

text \<open>
  A request arrives and gets its own thread; a thread makes its pending call; the environment acts. \<open>perf\<close>
  performs a call, \<open>start\<close> is the program of a request, \<open>moves\<close> what the environment may do.
\<close>

inductive conc_step ::
  "(call \<Rightarrow> 'e \<Rightarrow> reply \<times> 'e) \<Rightarrow> (request \<Rightarrow> prog) \<Rightarrow> ('e \<Rightarrow> 'e \<Rightarrow> bool) \<Rightarrow> 'e conf \<Rightarrow> 'e conf \<Rightarrow> bool"
  for perf start moves where
  Arrives: "conc_step perf start moves (ts, e) (ts @ [(req, start req)], e)"
| Goes: "i < length ts \<Longrightarrow> ts ! i = (req, Call c k) \<Longrightarrow> perf c e = (r, e') \<Longrightarrow>
    conc_step perf start moves (ts, e) (ts[i := (req, k r)], e')"
| Acts: "moves e e' \<Longrightarrow> conc_step perf start moves (ts, e) (ts, e')"

inductive conc_run ::
  "(call \<Rightarrow> 'e \<Rightarrow> reply \<times> 'e) \<Rightarrow> (request \<Rightarrow> prog) \<Rightarrow> ('e \<Rightarrow> 'e \<Rightarrow> bool) \<Rightarrow> 'e conf \<Rightarrow> 'e conf \<Rightarrow> bool"
  for perf start moves where
  Here: "conc_run perf start moves c c"
| Then: "conc_run perf start moves c c' \<Longrightarrow> conc_step perf start moves c' c'' \<Longrightarrow> conc_run perf start moves c c''"

lemma conc_run_trans:
  "conc_run perf start moves b c \<Longrightarrow> conc_run perf start moves a b \<Longrightarrow> conc_run perf start moves a c"
  by (induction rule: conc_run.induct) (auto intro: conc_run.Then)

text \<open>An inspection that nobody interrupts is one of the runs.\<close>

lemma alone_run_at:
  "run_alone p prog e = (v, e') \<Longrightarrow> i < length ts \<Longrightarrow> ts ! i = (req, prog) \<Longrightarrow>
     conc_run (perform p) start moves (ts, e) (ts[i := (req, Done v)], e')"
proof (induction prog arbitrary: e ts)
  case (Done v')
  then have "ts[i := (req, Done v)] = ts" by (metis list_update_id prod.inject run_alone.simps(1))
  with Done show ?case by (simp add: conc_run.Here)
next
  case (Call c k)
  obtain r e1 where c: "perform p c e = (r, e1)" by fastforce
  have "conc_run (perform p) start moves (ts, e) (ts[i := (req, k r)], e1)"
    by (rule conc_run.Then [OF conc_run.Here]) (use Call.prems(2,3) c in \<open>intro conc_step.Goes [where c = c and k = k]\<close>)
  moreover have "conc_run (perform p) start moves (ts[i := (req, k r)], e1) (ts[i := (req, Done v)], e')"
    using Call.IH [of "k r" e1 "ts[i := (req, k r)]"] Call.prems c by simp
  ultimately show ?case by (rule conc_run_trans [rotated])
qed

lemma inspected_alone:
  assumes "wired sv p" "Inspect (sv_sha sv) p req e = (Inr v, e')"
  shows "conc_run (perform p) (inspect_calls sv) moves (ts @ [(req, inspect_calls sv req)], e) (ts @ [(req, Done v)], e')"
  using alone_run_at [of p "inspect_calls sv req" e v e' "length ts" "ts @ [(req, inspect_calls sv req)]" req] assms
  by (simp add: run_inspect returned_def prod_eq_iff)

section \<open>Following one thread\<close>

primrec every_call :: "(call \<Rightarrow> bool) \<Rightarrow> prog \<Rightarrow> bool" where
  "every_call P (Done v) = True"
| "every_call P (Call c k) = (P c \<and> (\<forall>r. every_call P (k r)))"

lemma run_usual:
  assumes "conc_run perf start moves c c'" "\<And>req. every_call usual (start req)"
  shows "\<forall>t \<in> set (fst c). every_call usual (snd t) \<Longrightarrow> \<forall>t \<in> set (fst c'). every_call usual (snd t)"
  using assms(1)
proof (induction rule: conc_run.induct)
  case (Then c c' c'')
  from Then.hyps(2) Then.IH [OF Then.prems] show ?case
  proof (cases rule: conc_step.cases)
    case (Goes i ts req cl k r e')
    then have "every_call usual (Call cl k)" using Then.IH [OF Then.prems] by (force dest: nth_mem)
    then show ?thesis using Goes Then.IH [OF Then.prems] by (auto dest!: set_update_subset_insert [THEN subsetD])
  qed (use assms(2) in auto)
qed simp

text \<open>
  A statement about a thread and the shared state holds to the end of a run when the thread's own calls keep it,
  and so do the calls of the other threads and the environment.
\<close>

lemma thread_invariant:
  assumes "conc_run perf start moves c c'"
    and own: "\<And>c k e r e'. I (Call c k) e \<Longrightarrow> usual c \<Longrightarrow> perf c e = (r, e') \<Longrightarrow> I (k r) e'"
    and others: "\<And>p c e r e'. I p e \<Longrightarrow> usual c \<Longrightarrow> perf c e = (r, e') \<Longrightarrow> I p e'"
    and environment: "\<And>p e e'. I p e \<Longrightarrow> moves e e' \<Longrightarrow> I p e'"
    and starts: "\<And>req. every_call usual (start req)"
  shows "\<forall>t \<in> set (fst c). every_call usual (snd t) \<Longrightarrow> i < length (fst c) \<Longrightarrow> fst c ! i = (req, p) \<Longrightarrow> I p (snd c) \<Longrightarrow>
     (\<forall>t \<in> set (fst c'). every_call usual (snd t))
     \<and> (\<exists>p'. i < length (fst c') \<and> fst c' ! i = (req, p') \<and> I p' (snd c'))"
  using assms(1)
proof (induction rule: conc_run.induct)
  case (Here c)
  then show ?case by blast
next
  case (Then c c' c'')
  then obtain p' where all: "\<forall>t \<in> set (fst c'). every_call usual (snd t)"
    and i: "i < length (fst c')" "fst c' ! i = (req, p')" "I p' (snd c')"
    by blast
  obtain ts e where c': "c' = (ts, e)" by fastforce
  from Then.hyps(2) [unfolded c'] show ?case
  proof (cases rule: conc_step.cases)
    case (Arrives req')
    then show ?thesis using all i starts by (auto simp: c' nth_append)
  next
    case (Goes j req' cl k r e')
    have "every_call usual (Call cl k)" using all Goes(2,3) by (force simp: c' dest: nth_mem)
    then have u: "usual cl" "every_call usual (k r)" by simp_all
    have "\<forall>t \<in> set (ts[j := (req', k r)]). every_call usual (snd t)"
      using all u(2) by (auto simp: c' dest!: set_update_subset_insert [THEN subsetD])
    moreover have "\<exists>p'. ts[j := (req', k r)] ! i = (req, p') \<and> I p' e'"
    proof (cases "j = i")
      case True
      then show ?thesis using own [of cl k e r e'] u i Goes by (auto simp: c')
    next
      case False
      then show ?thesis using others [of p' e cl r e'] u i Goes by (auto simp: c')
    qed
    ultimately show ?thesis using i Goes(1) by (simp add: c')
  next
    case (Acts e')
    then show ?thesis using all i environment by (auto simp: c')
  qed
qed

section \<open>A mark left by one thread and met by another\<close>

text \<open>
  \<open>meets may Q\<close>: as long as every reply is one that \<open>may\<close> allows, the program ends with a verdict in \<open>Q\<close>. With
  the replies of \<open>unless gives put\<close>, those where \<open>put\<close> never succeeds, this says that the program has made the
  call \<open>put\<close> with success when it ends with any other verdict.
\<close>

primrec meets :: "(call \<Rightarrow> reply \<Rightarrow> bool) \<Rightarrow> (verdict \<Rightarrow> bool) \<Rightarrow> prog \<Rightarrow> bool" where
  "meets may Q (Done v) = Q v"
| "meets may Q (Call c k) = (\<forall>r. may c r \<longrightarrow> meets may Q (k r))"

text \<open>As long as the shared state stays fine, replies are allowed ones.\<close>

lemma run_met:
  assumes "conc_run perf start moves (ts @ [(req, p)], e) (ts', e')" "\<And>req. every_call usual (start req)"
    "\<forall>t \<in> set ts. every_call usual (snd t)" "every_call usual p"
    and call: "\<And>c e r e'. fine e \<Longrightarrow> usual c \<Longrightarrow> perf c e = (r, e') \<Longrightarrow> fine e' \<and> may c r"
    and environment: "\<And>e e'. fine e \<Longrightarrow> moves e e' \<Longrightarrow> fine e'"
    and start: "fine e" "meets may Q p" and ended: "ts' ! length ts = (req', Done v)"
  shows "Q v"
proof -
  define I where "I p e = (fine e \<and> meets may Q p)" for p e
  have "(\<forall>t \<in> set (fst (ts', e')). every_call usual (snd t))
     \<and> (\<exists>p'. length ts < length (fst (ts', e')) \<and> fst (ts', e') ! length ts = (req, p') \<and> I p' (snd (ts', e')))"
  proof (rule thread_invariant [OF assms(1), where I = I and usual = usual])
    show "I (k r) e'" if "I (Call c k) e" "usual c" "perf c e = (r, e')" for c k e r e'
      using that call unfolding I_def by (metis meets.simps(2))
    show "I q e'" if "I q e" "usual c" "perf c e = (r, e')" for q c e r e'
      using that call unfolding I_def by blast
    show "I q e''" if "I q e" "moves e e''" for q e e''
      using that environment unfolding I_def by blast
  qed (use assms(2-4) start in \<open>simp_all add: I_def\<close>)
  then show ?thesis using ended by (auto simp: I_def)
qed

definition unless :: "(call \<Rightarrow> reply \<Rightarrow> bool) \<Rightarrow> call \<Rightarrow> call \<Rightarrow> reply \<Rightarrow> bool" where
  "unless gives put c r = (gives c r \<and> \<not> (c = put \<and> r = UnitReply (Inr ())))"

text \<open>
  What a mark in the shared state must satisfy: a successful \<open>put\<close> sets it, every usual call and the
  environment keep it, and while it stands calls get replies that \<open>may\<close> allows. \<open>ready\<close> is what these laws
  need of the state, \<open>gives\<close> the replies that calls get at any time.
\<close>

locale shared_mark =
  fixes perf :: "call \<Rightarrow> 'e \<Rightarrow> reply \<times> 'e" and moves :: "'e \<Rightarrow> 'e \<Rightarrow> bool" and usual :: "call \<Rightarrow> bool"
    and ready :: "'e \<Rightarrow> bool" and mark :: "'e \<Rightarrow> bool" and put :: call and gives may :: "call \<Rightarrow> reply \<Rightarrow> bool"
  assumes call_ready: "ready e \<Longrightarrow> usual c \<Longrightarrow> perf c e = (r, e') \<Longrightarrow> ready e' \<and> gives c r"
    and moves_ready: "ready e \<Longrightarrow> moves e e' \<Longrightarrow> ready e'"
    and call_keeps: "ready e \<Longrightarrow> mark e \<Longrightarrow> usual c \<Longrightarrow> perf c e = (r, e') \<Longrightarrow> mark e' \<and> may c r"
    and moves_keep: "ready e \<Longrightarrow> mark e \<Longrightarrow> moves e e' \<Longrightarrow> mark e'"
    and put_marks: "ready e \<Longrightarrow> perf put e = (UnitReply (Inr ()), e') \<Longrightarrow> mark e'"
begin

lemma marked_when_done:
  assumes "conc_run perf start moves (ts @ [(req, p)], e) (ts', e')" "\<And>req. every_call usual (start req)"
    "\<forall>t \<in> set ts. every_call usual (snd t)" "every_call usual p" "ready e" "meets (unless gives put) Q p"
    "ts' ! length ts = (req', Done v)" "\<not> Q v"
  shows "ready e' \<and> mark e' \<and> (\<forall>t \<in> set ts'. every_call usual (snd t))"
proof -
  define I where "I p e = (ready e \<and> (mark e \<or> meets (unless gives put) Q p))" for p e
  have "(\<forall>t \<in> set (fst (ts', e')). every_call usual (snd t))
     \<and> (\<exists>p'. length ts < length (fst (ts', e')) \<and> fst (ts', e') ! length ts = (req, p') \<and> I p' (snd (ts', e')))"
  proof (rule thread_invariant [OF assms(1), where I = I and usual = usual])
    show "I (k r) e'" if I: "I (Call c k) e" and c: "usual c" "perf c e = (r, e')" for c k e r e'
    proof -
      have e: "ready e" "mark e \<or> (\<forall>r. unless gives put c r \<longrightarrow> meets (unless gives put) Q (k r))"
        using I by (simp_all add: I_def)
      then have "ready e'" "gives c r" using call_ready c by blast+
      then show ?thesis
        using e c call_keeps put_marks unfolding I_def unless_def by blast
    qed
    show "I q e'" if "I q e" "usual c" "perf c e = (r, e')" for q c e r e'
      using that call_ready call_keeps assms unfolding I_def by blast
    show "I q e''" if "I q e" "moves e e''" for q e e''
      using that moves_ready moves_keep unfolding I_def by blast
  qed (use assms(2-5) disjI2 [OF assms(6), of "mark e"] in \<open>simp_all add: I_def\<close>)
  then show ?thesis using assms(7,8) by (auto simp: I_def)
qed

lemma mark_met:
  assumes "conc_run perf start moves (ts @ [(req, p)], e) (ts', e')" "\<And>req. every_call usual (start req)"
    "\<forall>t \<in> set ts. every_call usual (snd t)" "every_call usual p" "ready e" "mark e" "meets may Q p"
    "ts' ! length ts = (req', Done v)"
  shows "Q v"
proof (rule run_met [OF assms(1-4), where fine = "\<lambda>e. ready e \<and> mark e" and may = may, OF _ _ _ assms(7,8)])
  show "(ready e' \<and> mark e') \<and> may c r" if "ready e \<and> mark e" "usual c" "perf c e = (r, e')" for c e r e'
    using that call_ready call_keeps by blast
  show "ready e' \<and> mark e'" if "ready e \<and> mark e" "moves e e'" for e e'
    using that moves_ready moves_keep by blast
qed (simp add: assms(5,6))

lemma ready_met:
  assumes "conc_run perf start moves (ts @ [(req, p)], e) (ts', e')" "\<And>req. every_call usual (start req)"
    "\<forall>t \<in> set ts. every_call usual (snd t)" "every_call usual p" "ready e" "meets gives Q p"
    "ts' ! length ts = (req', Done v)"
  shows "Q v"
  by (rule run_met [OF assms(1-4), where fine = ready and may = gives, OF call_ready moves_ready assms(5-7)])

end

section \<open>The calls of an inspection\<close>

definition service_call :: "service \<Rightarrow> call \<Rightarrow> bool" where
  "service_call sv c = (case c of
       TaintCall s ttl \<Rightarrow> ttl = sv_ttl sv
     | PinToolCall s t h ttl \<Rightarrow> ttl = sv_ttl sv
     | BlockToolCall s t ttl \<Rightarrow> ttl = sv_ttl sv
     | _ \<Rightarrow> True)"

definition refusal :: "service \<Rightarrow> verdict" where
  "refusal sv = on_error_verdict (Policy_OnError (sv_policy sv))"

text \<open>
  An inspection is built from its calls of the store and the clock, and ends with one audited verdict; what holds of
  every such tree holds of it.
\<close>

definition quiet_call :: "call \<Rightarrow> bool" where
  "quiet_call c = (\<forall>ev. c \<noteq> AuditCall ev)"

lemma inspect_calls_induct:
  assumes quiet: "\<And>c k. quiet_call c \<Longrightarrow> service_call sv c \<Longrightarrow> (\<And>r. P (k r)) \<Longrightarrow> P (Call c k)"
    and audited: "\<And>v start cause now. P (Call (AuditCall (make_event (sv_sha sv) req v start cause now)) (\<lambda>_. Done v))"
  shows "P (inspect_calls sv req)"
proof -
  note q = quiet [unfolded quiet_call_def service_call_def]
  have em: "P (emit_calls sv req v start cause)" for v start cause
    using q audited by (simp add: emit_calls_def)
  then have refused: "P (fail_calls sv req start err)" for start err
    by (simp add: fail_calls_def)
  have reads: "P (tainted_calls r (fail_calls sv req start) k)" "P (checkPin_calls sv r (fail_calls sv req start) k)"
      "P (toolBlocked_calls r (fail_calls sv req start) k)" if "\<And>b. P (k b)" for r start k
    using that refused q
    by (auto simp: tainted_calls_def checkPin_calls_def toolBlocked_calls_def reply_or_fail_def Let_def
        split: sum.splits option.splits)
  have writes: "P (taint_calls sv r d (fail_calls sv req start) k)" "P (block_calls sv r v (fail_calls sv req start) k)"
    if "P k" for r d v start k
    using that refused q by (auto simp: taint_calls_def block_calls_def reply_or_fail_def split: sum.splits)
  have "P (decide_calls sv req start n tainted changed blocked)" for start n tainted changed blocked
    using refused em writes by (simp add: decide_calls_def Let_def split: prod.splits option.splits)
  then show ?thesis
    using refused reads q by (simp add: inspect_calls_def Let_def split: option.splits)
qed

lemma inspect_usual: "every_call (service_call sv) (inspect_calls sv req)"
  by (rule inspect_calls_induct) (simp_all add: service_call_def)

lemma meets_emit: "Q v \<Longrightarrow> meets may Q (emit_calls sv req v start cause)"
  by (simp add: emit_calls_def)

lemma fail_calls_refusal: "fail_calls sv req start err = emit_calls sv req (refusal sv) start (Some err)"
  by (simp add: fail_calls_def refusal_def NewEvaluator_def)

text \<open>The reply of a call that did not fail. The sink's is never looked at.\<close>

definition answered :: "call \<Rightarrow> reply \<Rightarrow> bool" where
  "answered c r = (case c of
       NowCall \<Rightarrow> True
     | AuditCall ev \<Rightarrow> True
     | TaintedCall s \<Rightarrow> (\<exists>b. r = FlagReply (Inr b))
     | ToolPinCall s t \<Rightarrow> (\<exists>h. r = PinReply (Inr h))
     | ToolBlockedCall s t \<Rightarrow> (\<exists>b. r = FlagReply (Inr b))
     | _ \<Rightarrow> r = UnitReply (Inr ()))"

definition read_input :: "service \<Rightarrow> request \<Rightarrow> bool \<Rightarrow> bool \<Rightarrow> eval_input" where
  "read_input sv req tainted changed =
     \<lparr>ei_request = n_request (normalized sv req), ei_findings = all_findings sv req,
      ei_session_tainted = tainted, ei_pin_changed = changed\<rparr>"

lemma meets_stages:
  assumes "\<And>c r err. may c r \<Longrightarrow> \<not> answered c r \<Longrightarrow> meets may Q (failure err)"
  shows "(\<And>b. (if r_session req \<noteq> [] then may (TaintedCall (r_session req)) (FlagReply (Inr b)) else \<not> b) \<Longrightarrow> meets may Q (k b)) \<Longrightarrow>
      meets may Q (tainted_calls req failure k)"
    and "(\<And>b. (if names_tool SurfaceToolCall req
              then may (ToolBlockedCall (r_session req) (r_source req)) (FlagReply (Inr b)) else \<not> b) \<Longrightarrow> meets may Q (k b)) \<Longrightarrow>
      meets may Q (toolBlocked_calls req failure k)"
    and "(\<And>b. meets may Q (k b)) \<Longrightarrow> meets may Q (checkPin_calls sv req failure k)"
    and "((d_taint_session d \<and> r_session req \<noteq> [] \<Longrightarrow> may (TaintCall (r_session req) (sv_ttl sv)) (UnitReply (Inr ()))) \<Longrightarrow>
          meets may Q done) \<Longrightarrow> meets may Q (taint_calls sv req d failure done)"
    and "((v_action v = ActionBlock \<and> names_tool SurfaceToolDefinition req \<Longrightarrow>
            may (BlockToolCall (r_session req) (r_source req) (sv_ttl sv)) (UnitReply (Inr ()))) \<Longrightarrow>
          meets may Q done) \<Longrightarrow> meets may Q (block_calls sv req v failure done)"
proof -
  have flag: "flag_of r = Inl err \<Longrightarrow> c = TaintedCall s \<or> c = ToolBlockedCall s t \<Longrightarrow> \<not> answered c r"
    "flag_of r = Inr b \<Longrightarrow> r = FlagReply (Inr b)" for r err c s t b
    by (auto simp: flag_of_def answered_def split: reply.splits)
  have pin: "pin_of r = Inl err \<Longrightarrow> \<not> answered (ToolPinCall s t) r" for r err s t
    by (auto simp: pin_of_def answered_def)
  have unit: "unit_of r = Inl err \<Longrightarrow> c = TaintCall s ttl \<or> c = PinToolCall s t h ttl \<or> c = BlockToolCall s t ttl \<Longrightarrow> \<not> answered c r"
    for r err c s t h ttl
    by (auto simp: unit_of_def answered_def)
  show "meets may Q (tainted_calls req failure k)"
    if "\<And>b. (if r_session req \<noteq> [] then may (TaintedCall (r_session req)) (FlagReply (Inr b)) else \<not> b) \<Longrightarrow> meets may Q (k b)"
  proof (cases "r_session req = []")
    case False
    then show ?thesis using that assms flag by (auto simp: tainted_calls_def reply_or_fail_def split: sum.splits)
  qed (use that [of False] in \<open>simp add: tainted_calls_def\<close>)
  show "meets may Q (toolBlocked_calls req failure k)"
    if "\<And>b. (if names_tool SurfaceToolCall req
          then may (ToolBlockedCall (r_session req) (r_source req)) (FlagReply (Inr b)) else \<not> b) \<Longrightarrow> meets may Q (k b)"
  proof (cases "names_tool SurfaceToolCall req")
    case True
    then show ?thesis using that assms flag
      by (auto simp: toolBlocked_calls_def names_tool_def reply_or_fail_def split: sum.splits)
  qed (use that [of False] in \<open>auto simp: toolBlocked_calls_def names_tool_def\<close>)
  show "meets may Q (checkPin_calls sv req failure k)" if "\<And>b. meets may Q (k b)"
    using that assms pin unit by (auto simp: checkPin_calls_def Let_def reply_or_fail_def split: sum.splits option.splits)
  have ok: "unit_of r = Inr y \<Longrightarrow> r = UnitReply (Inr ())" for r y by (auto simp: unit_of_def split: reply.splits)
  show "meets may Q (taint_calls sv req d failure done)"
    if "(d_taint_session d \<and> r_session req \<noteq> [] \<Longrightarrow> may (TaintCall (r_session req) (sv_ttl sv)) (UnitReply (Inr ()))) \<Longrightarrow>
          meets may Q done"
    using that assms unit by (auto simp: taint_calls_def reply_or_fail_def dest: ok split: sum.splits)
  show "meets may Q (block_calls sv req v failure done)"
    if "(v_action v = ActionBlock \<and> names_tool SurfaceToolDefinition req \<Longrightarrow>
            may (BlockToolCall (r_session req) (r_source req) (sv_ttl sv)) (UnitReply (Inr ()))) \<Longrightarrow>
          meets may Q done"
    using that assms unit by (auto simp: block_calls_def names_tool_def reply_or_fail_def dest: ok split: sum.splits)
qed

lemma decide_meets:
  assumes doc: "nfkc_documented (sv_lib sv)"
    and refused: "(\<exists>c r. may c r \<and> \<not> answered c r) \<or> detect_error sv req \<noteq> None \<Longrightarrow> Q (refusal sv)"
    and decided: "\<And>v. detect_error sv req = None \<Longrightarrow>
      v = decided_verdict blocked (all_findings sv req) (Evaluate (sv_policy sv) (read_input sv req tainted changed)) \<Longrightarrow>
      (v_taint_session v \<and> r_session req \<noteq> [] \<Longrightarrow> may (TaintCall (r_session req) (sv_ttl sv)) (UnitReply (Inr ()))) \<Longrightarrow>
      (v_action v = ActionBlock \<and> names_tool SurfaceToolDefinition req \<Longrightarrow>
         may (BlockToolCall (r_session req) (r_source req) (sv_ttl sv)) (UnitReply (Inr ()))) \<Longrightarrow> Q v"
  shows "meets may Q (decide_calls sv req start (normalized sv req) tainted changed blocked)"
proof -
  define n where "n = normalized sv req"
  have n: "r_session (n_request n) = r_session req"
    "names_tool surf (n_request n) = names_tool surf req" "r_source (n_request n) = r_source req" for surf
    by (simp_all add: n_def normalized_fields [OF doc] names_tool_def)
  have fl: "meets may Q (fail_calls sv req start err)" if "may c r" "\<not> answered c r" for c r start err
    using refused that by (auto simp: fail_calls_refusal intro!: meets_emit)
  obtain fs err where det: "Registry_Detect (sv_registry sv) (n_request n) = (fs, err)" by fastforce
  then have facts: "detect_error sv req = err" "n_findings n @ remapSpans fs (n_maps n) = all_findings sv req"
    by (simp_all add: detect_error_def all_findings_def n_def)
  show ?thesis
  proof (cases err)
    case None
    define d where "d = Evaluate (sv_policy sv) (read_input sv req tainted changed)"
    define v where "v = decided_verdict blocked (all_findings sv req) d"
    have v: "v_taint_session v = d_taint_session d" by (simp add: v_def)
    have "decide_calls sv req start n tainted changed blocked = taint_calls sv (n_request n) d (fail_calls sv req start)
        (block_calls sv (n_request n) v (fail_calls sv req start) (emit_calls sv req v start None))"
      using None facts by (simp add: decide_calls_def det NewEvaluator_def read_input_def n_def [symmetric] d_def v_def Let_def)
    moreover have "meets may Q (taint_calls sv (n_request n) d (fail_calls sv req start)
        (block_calls sv (n_request n) v (fail_calls sv req start) (emit_calls sv req v start None)))"
      by (rule meets_stages(4) [OF fl], assumption+, rule meets_stages(5) [OF fl], assumption+, rule meets_emit,
          rule decided [OF _ v_def [unfolded d_def]]) (simp_all add: n v facts None)
    ultimately show ?thesis by (simp add: n_def)
  next
    case (Some x)
    then show ?thesis using refused facts det
      by (auto simp: decide_calls_def n_def Let_def fail_calls_refusal intro!: meets_emit)
  qed
qed

lemma inspect_meets:
  assumes doc: "nfkc_documented (sv_lib sv)"
    and refused: "(\<exists>c r. may c r \<and> \<not> answered c r) \<or> detect_error sv req \<noteq> None \<Longrightarrow> Q (refusal sv)"
    and decided: "\<And>tainted changed blocked v.
      (if r_session req \<noteq> [] then may (TaintedCall (r_session req)) (FlagReply (Inr tainted)) else \<not> tainted) \<Longrightarrow>
      (if names_tool SurfaceToolCall req
       then may (ToolBlockedCall (r_session req) (r_source req)) (FlagReply (Inr blocked)) else \<not> blocked) \<Longrightarrow>
      detect_error sv req = None \<Longrightarrow>
      v = decided_verdict blocked (all_findings sv req) (Evaluate (sv_policy sv) (read_input sv req tainted changed)) \<Longrightarrow>
      (v_taint_session v \<and> r_session req \<noteq> [] \<Longrightarrow> may (TaintCall (r_session req) (sv_ttl sv)) (UnitReply (Inr ()))) \<Longrightarrow>
      (v_action v = ActionBlock \<and> names_tool SurfaceToolDefinition req \<Longrightarrow>
         may (BlockToolCall (r_session req) (r_source req) (sv_ttl sv)) (UnitReply (Inr ()))) \<Longrightarrow> Q v"
  shows "meets may Q (inspect_calls sv req)"
proof -
  define n where "n = normalized sv req"
  have n: "Normalizer_Normalize (sv_lib sv) req = Some n" "r_session (n_request n) = r_session req"
    by (simp_all add: n_def normalized_eq(1) [OF doc] normalized_fields [OF doc])
  have fl: "meets may Q (fail_calls sv req start err)" if "may c r" "\<not> answered c r" for c r start err
    using refused that by (auto simp: fail_calls_refusal intro!: meets_emit)
  have de: "meets may Q (decide_calls sv req start n tainted changed blocked)"
    if "if r_session req \<noteq> [] then may (TaintedCall (r_session req)) (FlagReply (Inr tainted)) else \<not> tainted"
      "if names_tool SurfaceToolCall req
       then may (ToolBlockedCall (r_session req) (r_source req)) (FlagReply (Inr blocked)) else \<not> blocked"
    for start tainted changed blocked
    unfolding n_def by (rule decide_meets [where Q = Q and may = may, OF doc refused]) (assumption, rule decided [OF that])
  show ?thesis
    unfolding inspect_calls_def Let_def
    by (simp add: n(1)) (intro allI impI meets_stages [OF fl], assumption+, rule de, auto simp: n(2) split: if_splits)
qed

end
