(* ===== verification/Concurrent_Correct.thy ===== *)
theory Concurrent_Correct
  imports Concurrent
begin

text \<open>
  What interleaved inspections guarantee: taint and tool blocks reach the inspections that start after the verdict
  that set them was given, over the in-memory store and over Redis; every finished inspection has offered its one
  event to the sink; each finishes after at most eight calls of its own. Pinning is the exception: its look-up and its
  write are two calls, and a definition that arrives between them goes unnoticed.
\<close>

section \<open>The in-memory store\<close>

text \<open>Time passes, but not beyond \<open>till\<close>.\<close>

definition time_passes :: "time option \<Rightarrow> world \<Rightarrow> world \<Rightarrow> bool" where
  "time_passes till w w' = (\<exists>d. w' = w\<lparr>w_mem := mem_advance d (w_mem w)\<rparr> \<and> not_yet (m_now (w_mem w')) till)"

definition service_run :: "service \<Rightarrow> time option \<Rightarrow> world conf \<Rightarrow> world conf \<Rightarrow> bool" where
  "service_run sv till = conc_run (perform (service_pipeline sv)) (inspect_calls sv) (time_passes till)"

text \<open>The store operation of a call.\<close>

definition op_of :: "call \<Rightarrow> mem_op list" where
  "op_of c = (case c of
       TaintedCall s \<Rightarrow> [DoTainted s]
     | TaintCall s ttl \<Rightarrow> [DoTaint s ttl]
     | ToolPinCall s t \<Rightarrow> [DoToolPin s t]
     | PinToolCall s t h ttl \<Rightarrow> [DoPinTool s t h ttl]
     | ToolBlockedCall s t \<Rightarrow> [DoToolBlocked s t]
     | BlockToolCall s t ttl \<Rightarrow> [DoBlockTool s t ttl]
     | _ \<Rightarrow> [])"

lemma perform_mem:
  assumes "perform (service_pipeline sv) c w = (r, w')"
  shows "w_mem w' = mem_run (op_of c) (w_mem w)" "answered c r"
    "c = TaintedCall s \<Longrightarrow> r = FlagReply (Inr (mem_taint (w_mem w) s))"
    "c = ToolBlockedCall s t \<Longrightarrow> r = FlagReply (Inr (mem_blocked (w_mem w) s t))"
  using assms
  by (cases c; use Mem_Tainted_spec Mem_ToolPin_spec Mem_ToolBlocked_spec in
      \<open>auto simp: service_pipeline_def wiring world_audit_eq op_of_def answered_def apfst_def
        Mem_Taint_def Mem_PinTool_def Mem_BlockTool_def\<close>)+

lemma op_of_ttl: "service_call sv c \<Longrightarrow> list_all (op_ttl (sv_ttl sv)) (op_of c)"
  by (auto simp: service_call_def op_of_def split: call.splits)

definition in_window :: "time \<Rightarrow> time option \<Rightarrow> world \<Rightarrow> bool" where
  "in_window t0 till w = (t0 \<le> m_now (w_mem w) \<and> not_yet (m_now (w_mem w)) till)"

definition answers_yes :: "call \<Rightarrow> call \<Rightarrow> reply \<Rightarrow> bool" where
  "answers_yes ask c r = (answered c r \<and> (c = ask \<longrightarrow> r = FlagReply (Inr True)))"

lemma in_window_kept:
  "in_window t0 till w \<Longrightarrow> service_call sv c \<Longrightarrow> perform (service_pipeline sv) c w = (r, w') \<Longrightarrow> in_window t0 till w'"
  "in_window t0 till w \<Longrightarrow> time_passes till w w' \<Longrightarrow> in_window t0 till w'"
  using ops_now [OF op_of_ttl [of sv c], of "w_mem w"] perform_mem(1) [of sv c w r w']
  by (auto simp: in_window_def time_passes_def mem_advance_def)

text \<open>An entry that outlasts the ttl is a mark: of a tainted session, and of a blocked tool.\<close>

interpretation taint_mark: shared_mark "perform (service_pipeline sv)" "time_passes (expiry t0 (sv_ttl sv))"
  "service_call sv" "in_window t0 (expiry t0 (sv_ttl sv))" "\<lambda>w. held (expiry t0 (sv_ttl sv)) (m_taint (w_mem w)) s"
  "TaintCall s (sv_ttl sv)" answered "answers_yes (TaintedCall s)" for sv t0 s
proof unfold_locales
  let ?T = "expiry t0 (sv_ttl sv)"
  fix w w' c r
  show "in_window t0 ?T w \<Longrightarrow> service_call sv c \<Longrightarrow> perform (service_pipeline sv) c w = (r, w') \<Longrightarrow> in_window t0 ?T w' \<and> answered c r"
    using in_window_kept(1) perform_mem(2) by blast
  show "in_window t0 ?T w \<Longrightarrow> time_passes ?T w w' \<Longrightarrow> in_window t0 ?T w'" by (rule in_window_kept)
  show "in_window t0 ?T w \<Longrightarrow> held ?T (m_taint (w_mem w)) s \<Longrightarrow> service_call sv c \<Longrightarrow>
      perform (service_pipeline sv) c w = (r, w') \<Longrightarrow> held ?T (m_taint (w_mem w')) s \<and> answers_yes (TaintedCall s) c r"
    using perform_mem(1,2) [of sv c w r w'] perform_mem(3) [of sv c w r w' s] ops_held(1) [OF op_of_ttl [of sv c], of t0 "w_mem w" s]
      held_live [of ?T "m_taint (w_mem w)" s "m_now (w_mem w)"]
    by (auto simp: in_window_def answers_yes_def mem_taint_def)
  show "in_window t0 ?T w \<Longrightarrow> held ?T (m_taint (w_mem w)) s \<Longrightarrow> time_passes ?T w w' \<Longrightarrow> held ?T (m_taint (w_mem w')) s"
    by (auto simp: time_passes_def mem_advance_def)
  show "in_window t0 ?T w \<Longrightarrow> perform (service_pipeline sv) (TaintCall s (sv_ttl sv)) w = (UnitReply (Inr ()), w') \<Longrightarrow>
      held ?T (m_taint (w_mem w')) s"
    using perform_mem(1) [of sv "TaintCall s (sv_ttl sv)" w "UnitReply (Inr ())" w'] lasting_expiry [of t0 "m_now (w_mem w)"]
    by (simp add: op_of_def Mem_Taint_def held_def in_window_def)
qed

interpretation block_mark: shared_mark "perform (service_pipeline sv)" "time_passes (expiry t0 (sv_ttl sv))"
  "service_call sv" "in_window t0 (expiry t0 (sv_ttl sv))" "\<lambda>w. held (expiry t0 (sv_ttl sv)) (m_blocked (w_mem w)) (tool_key s t)"
  "BlockToolCall s t (sv_ttl sv)" answered "answers_yes (ToolBlockedCall s t)" for sv t0 s t
proof unfold_locales
  let ?T = "expiry t0 (sv_ttl sv)" and ?k = "tool_key s t"
  fix w w' c r
  show "in_window t0 ?T w \<Longrightarrow> service_call sv c \<Longrightarrow> perform (service_pipeline sv) c w = (r, w') \<Longrightarrow> in_window t0 ?T w' \<and> answered c r"
    using in_window_kept(1) perform_mem(2) by blast
  show "in_window t0 ?T w \<Longrightarrow> time_passes ?T w w' \<Longrightarrow> in_window t0 ?T w'" by (rule in_window_kept)
  show "in_window t0 ?T w \<Longrightarrow> held ?T (m_blocked (w_mem w)) ?k \<Longrightarrow> service_call sv c \<Longrightarrow>
      perform (service_pipeline sv) c w = (r, w') \<Longrightarrow> held ?T (m_blocked (w_mem w')) ?k \<and> answers_yes (ToolBlockedCall s t) c r"
    using perform_mem(1,2) [of sv c w r w'] perform_mem(4) [of sv c w r w' s t] ops_held(2) [OF op_of_ttl [of sv c], of t0 "w_mem w" ?k]
      held_live [of ?T "m_blocked (w_mem w)" ?k "m_now (w_mem w)"]
    by (auto simp: in_window_def answers_yes_def mem_blocked_def)
  show "in_window t0 ?T w \<Longrightarrow> held ?T (m_blocked (w_mem w)) ?k \<Longrightarrow> time_passes ?T w w' \<Longrightarrow> held ?T (m_blocked (w_mem w')) ?k"
    by (auto simp: time_passes_def mem_advance_def)
  show "in_window t0 ?T w \<Longrightarrow> perform (service_pipeline sv) (BlockToolCall s t (sv_ttl sv)) w = (UnitReply (Inr ()), w') \<Longrightarrow>
      held ?T (m_blocked (w_mem w')) ?k"
    using perform_mem(1) [of sv "BlockToolCall s t (sv_ttl sv)" w "UnitReply (Inr ())" w'] lasting_expiry [of t0 "m_now (w_mem w)"]
    by (simp add: op_of_def Mem_BlockTool_def held_def in_window_def)
qed

lemma service_run_usual:
  "service_run sv till ([], w0) (ts, w) \<Longrightarrow> \<forall>t \<in> set ts. every_call (service_call sv) (snd t)"
  using run_usual [where usual = "service_call sv", OF _ inspect_usual] by (fastforce simp: service_run_def)

lemma inspect_leaves_taint:
  assumes "nfkc_documented (sv_lib sv)" "r_session req \<noteq> []"
    and "gives = answered \<or> gives = (\<lambda>_ _. True)"
  shows "meets (unless gives (TaintCall (r_session req) (sv_ttl sv))) (\<lambda>v. \<not> v_taint_session v) (inspect_calls sv req)"
  by (rule inspect_meets [OF assms(1)]) (use assms(2,3) in \<open>auto simp: unless_def refusal_def\<close>)

lemma inspect_leaves_block:
  assumes "nfkc_documented (sv_lib sv)" "names_tool SurfaceToolDefinition req"
    and "gives = answered \<and> detect_error sv req = None \<and> Q = (\<lambda>v. v_action v \<noteq> ActionBlock)
      \<or> gives = (\<lambda>_ _. True) \<and> Q = (\<lambda>v. v_action v = ActionBlock \<longrightarrow> v = refusal sv)"
  shows "meets (unless gives (BlockToolCall (r_session req) (r_source req) (sv_ttl sv))) Q (inspect_calls sv req)"
  by (rule inspect_meets [OF assms(1)]) (use assms(2,3) in \<open>auto simp: unless_def answered_def\<close>)

lemma tainted_rule_decides:
  assumes "nfkc_documented (sv_lib sv)" "tainted_rule (r_surface req) \<in> set (pol_rules (sv_policy sv))"
  shows "d_action (Evaluate (sv_policy sv) (read_input sv req True changed)) = ActionBlock"
  by (rule block_rule_decides [OF assms(2)])
    (simp_all add: state_rule_hit read_input_def normalized_fields [OF assms(1)], simp add: tainted_rule_def state_rule_def)

lemma tainted_inspection_blocks:
  assumes "nfkc_documented (sv_lib sv)" "r_session req \<noteq> []"
    and rule: "\<And>changed. d_action (Evaluate (sv_policy sv) (read_input sv req True changed)) = ActionBlock"
    and may: "\<And>r. may (TaintedCall (r_session req)) r \<Longrightarrow> r = FlagReply (Inr True) \<or> (\<exists>err. r = FlagReply (Inl err))"
    and refused: "(\<exists>c r. may c r \<and> \<not> answered c r) \<or> detect_error sv req \<noteq> None \<Longrightarrow> v_action (refusal sv) = ActionBlock"
  shows "meets may (\<lambda>v. v_action v = ActionBlock) (inspect_calls sv req)"
  by (rule inspect_meets [where Q = "\<lambda>v. v_action v = ActionBlock", OF assms(1) refused])
    (use assms(2) rule may in \<open>fastforce split: if_splits\<close>)+

lemma blocked_inspection_blocks:
  assumes "nfkc_documented (sv_lib sv)" "names_tool SurfaceToolCall req"
    and may: "\<And>r. may (ToolBlockedCall (r_session req) (r_source req)) r \<Longrightarrow> r = FlagReply (Inr True) \<or> (\<exists>err. r = FlagReply (Inl err))"
    and refused: "(\<exists>c r. may c r \<and> \<not> answered c r) \<or> detect_error sv req \<noteq> None \<Longrightarrow> v_action (refusal sv) = ActionBlock"
  shows "meets may (\<lambda>v. v_action v = ActionBlock) (inspect_calls sv req)"
  by (rule inspect_meets [where Q = "\<lambda>v. v_action v = ActionBlock", OF assms(1) refused]) (use assms(2) may in \<open>fastforce split: if_splits\<close>)+

lemma taint_meets_hop:
  assumes "nfkc_documented (sv_lib sv)"
    and before: "service_run sv None ([], w0) (ts, w1)"
    and first: "service_run sv (expiry (m_now (w_mem w1)) (sv_ttl sv)) (ts @ [(req, inspect_calls sv req)], w1) (ts', w2)"
    "ts' ! length ts = (req, Done v)" "v_taint_session v" "r_session req \<noteq> []"
    and later: "service_run sv (expiry (m_now (w_mem w1)) (sv_ttl sv)) (ts' @ [(hop, inspect_calls sv hop)], w2) (ts'', w3)"
    "ts'' ! length ts' = (hop, Done v')" "r_session hop = r_session req" "detect_error sv hop = None"
    "\<And>changed. d_action (Evaluate (sv_policy sv) (read_input sv hop True changed)) = ActionBlock"
  shows "v_action v' = ActionBlock"
proof -
  let ?t0 = "m_now (w_mem w1)"
  have "in_window ?t0 (expiry ?t0 (sv_ttl sv)) w1" by (auto simp: in_window_def not_yet_expiry)
  from taint_mark.marked_when_done [OF first(1) [unfolded service_run_def] inspect_usual service_run_usual [OF before]
      inspect_usual this inspect_leaves_taint [OF assms(1) first(4)] first(2)] first(3)
  have left: "in_window ?t0 (expiry ?t0 (sv_ttl sv)) w2" "held (expiry ?t0 (sv_ttl sv)) (m_taint (w_mem w2)) (r_session req)"
    "\<forall>t \<in> set ts'. every_call (service_call sv) (snd t)" by auto
  have "meets (answers_yes (TaintedCall (r_session req))) (\<lambda>v. v_action v = ActionBlock) (inspect_calls sv hop)"
    by (rule tainted_inspection_blocks [OF assms(1) _ later(5)]) (use first(4) later(3,4) in \<open>auto simp: answers_yes_def\<close>)
  from taint_mark.mark_met [OF later(1) [unfolded service_run_def] inspect_usual left(3) inspect_usual left(1,2) this later(2)]
  show ?thesis .
qed

text \<open>C2: taint reaches later hops however the server interleaves its requests: once the verdict that taints a
  session is given, every inspection of that session that starts afterwards on a surface the rules block for tainted
  sessions, and that ends within the ttl counted from the arrival of the tainting request, ends blocked.\<close>

theorem taint_reaches_concurrent_hops:
  assumes "nfkc_documented (sv_lib sv)"
    and before: "service_run sv None ([], w0) (ts, w1)"
    and first: "service_run sv (expiry (m_now (w_mem w1)) (sv_ttl sv)) (ts @ [(req, inspect_calls sv req)], w1) (ts', w2)"
    "ts' ! length ts = (req, Done v)" "v_taint_session v" "r_session req \<noteq> []"
    and later: "service_run sv (expiry (m_now (w_mem w1)) (sv_ttl sv)) (ts' @ [(hop, inspect_calls sv hop)], w2) (ts'', w3)"
    "ts'' ! length ts' = (hop, Done v')" "r_session hop = r_session req" "detect_error sv hop = None"
    "tainted_rule (r_surface hop) \<in> set (pol_rules (sv_policy sv))"
  shows "v_action v' = ActionBlock"
  by (rule taint_meets_hop [OF assms(1-10) tainted_rule_decides [OF assms(1,11)]])

lemma block_meets_call:
  assumes "nfkc_documented (sv_lib sv)"
    and before: "service_run sv None ([], w0) (ts, w1)"
    and def: "service_run sv (expiry (m_now (w_mem w1)) (sv_ttl sv)) (ts @ [(def, inspect_calls sv def)], w1) (ts', w2)"
    "ts' ! length ts = (def, Done v)" "v_action v = ActionBlock" "names_tool SurfaceToolDefinition def" "detect_error sv def = None"
    and later: "service_run sv (expiry (m_now (w_mem w1)) (sv_ttl sv)) (ts' @ [(tcall, inspect_calls sv tcall)], w2) (ts'', w3)"
    "ts'' ! length ts' = (tcall, Done v')" "r_surface tcall = SurfaceToolCall" "r_session tcall = r_session def"
    "r_source tcall = r_source def" "detect_error sv tcall = None"
  shows "v_action v' = ActionBlock"
proof -
  let ?t0 = "m_now (w_mem w1)"
  have "in_window ?t0 (expiry ?t0 (sv_ttl sv)) w1" by (auto simp: in_window_def not_yet_expiry)
  from block_mark.marked_when_done [OF def(1) [unfolded service_run_def] inspect_usual service_run_usual [OF before]
      inspect_usual this inspect_leaves_block [OF assms(1) def(4)] def(2)] def(3,5)
  have left: "in_window ?t0 (expiry ?t0 (sv_ttl sv)) w2"
    "held (expiry ?t0 (sv_ttl sv)) (m_blocked (w_mem w2)) (tool_key (r_session def) (r_source def))"
    "\<forall>t \<in> set ts'. every_call (service_call sv) (snd t)" by auto
  have "names_tool SurfaceToolCall tcall" using def(4) later(3-5) by (simp add: names_tool_def)
  then have "meets (answers_yes (ToolBlockedCall (r_session def) (r_source def))) (\<lambda>v. v_action v = ActionBlock) (inspect_calls sv tcall)"
    by (rule blocked_inspection_blocks [OF assms(1)]) (use later(4-6) in \<open>auto simp: answers_yes_def\<close>)
  from block_mark.mark_met [OF later(1) [unfolded service_run_def] inspect_usual left(3) inspect_usual left(1,2) this later(2)]
  show ?thesis .
qed

text \<open>C3: a blocked tool stays blocked however the server interleaves its requests: once the verdict that blocks a
  tool's definition is given, every call of that tool in that session whose inspection starts afterwards and ends
  within the ttl ends blocked.\<close>

theorem block_reaches_concurrent_calls:
  assumes "nfkc_documented (sv_lib sv)"
    and before: "service_run sv None ([], w0) (ts, w1)"
    and def: "service_run sv (expiry (m_now (w_mem w1)) (sv_ttl sv)) (ts @ [(def, inspect_calls sv def)], w1) (ts', w2)"
    "ts' ! length ts = (def, Done v)" "v_action v = ActionBlock" "names_tool SurfaceToolDefinition def" "detect_error sv def = None"
    and later: "service_run sv (expiry (m_now (w_mem w1)) (sv_ttl sv)) (ts' @ [(tcall, inspect_calls sv tcall)], w2) (ts'', w3)"
    "ts'' ! length ts' = (tcall, Done v')" "r_surface tcall = SurfaceToolCall" "r_session tcall = r_session def"
    "r_source tcall = r_source def" "detect_error sv tcall = None"
  shows "v_action v' = ActionBlock"
  by (rule block_meets_call [OF assms])

lemma served_alone:
  assumes "nfkc_documented (sv_lib sv)"
  shows "service_run sv till (ts @ [(req, inspect_calls sv req)], w)
    (ts @ [(req, Done (the_verdict sv req (w_mem w)))], snd (serve sv req w))"
  using inspected_alone [OF both_wired(1), of sv req w "the_verdict sv req (w_mem w)" "snd (serve sv req w)"]
    serve_eq(1) [OF assms, of req w]
  by (simp add: service_run_def serve_def service_pipeline_def prod_eq_iff)

lemma request_waits: "service_run sv till ([], w) ([(req, inspect_calls sv req)], w)"
  unfolding service_run_def by (rule conc_run.Then [OF conc_run.Here]) (use conc_step.Arrives [of _ _ _ "[]"] in fastforce)

text \<open>A request \<open>o'\<close> stays in flight while \<open>a\<close> is inspected; then \<open>b\<close> arrives and is inspected.\<close>

lemma staged_runs:
  assumes "nfkc_documented (sv_lib sv)"
    and T_def: "T = [(o', inspect_calls sv o'), (a, Done (the_verdict sv a (w_mem w)))]" and W_def: "W = snd (serve sv a w)"
  shows "service_run sv till ([], w) ([(o', inspect_calls sv o')], w)"
    and "service_run sv till ([(o', inspect_calls sv o')] @ [(a, inspect_calls sv a)], w) (T, W)"
    and "service_run sv till (T @ [(b, inspect_calls sv b)], W) (T @ [(b, Done (the_verdict sv b (w_mem W)))], snd (serve sv b W))"
    and "service_run sv till ([], w) (T, W)"
proof -
  show 1: "service_run sv till ([], w) ([(o', inspect_calls sv o')], w)" by (rule request_waits)
  show 2: "service_run sv till ([(o', inspect_calls sv o')] @ [(a, inspect_calls sv a)], w) (T, W)"
    using served_alone [OF assms(1), of till "[(o', inspect_calls sv o')]" a w] by (simp add: T_def W_def)
  show "service_run sv till (T @ [(b, inspect_calls sv b)], W) (T @ [(b, Done (the_verdict sv b (w_mem W)))], snd (serve sv b W))"
    by (rule served_alone [OF assms(1)])
  have "service_run sv till ([(o', inspect_calls sv o')], w) ([(o', inspect_calls sv o')] @ [(a, inspect_calls sv a)], w)"
    unfolding service_run_def by (rule conc_run.Then [OF conc_run.Here conc_step.Arrives])
  then show "service_run sv till ([], w) (T, W)"
    using 1 2 unfolding service_run_def by (meson conc_run_trans)
qed

theorem taint_reaches_concurrent_hops_witness:
  "\<exists>sv hop v' ts ts'' w w3. service_run sv None ([], world0) (ts, w)
     \<and> service_run sv None (ts @ [(hop, inspect_calls sv hop)], w) (ts'', w3)
     \<and> ts'' ! length ts = (hop, Done v') \<and> v_action v' = ActionBlock"
proof -
  define sv where "sv = sample_service [] None [taint_on SurfaceToolResult, tainted_rule SurfaceToolCall]"
  note doc = sample_service_doc [of "[]" None "[taint_on SurfaceToolResult, tainted_rule SurfaceToolCall]", folded sv_def]
  define req where "req = text_request SurfaceToolResult ''s'' ''web'' ''page''"
  define hop where "hop = text_request SurfaceToolCall ''s'' ''mail'' ''send''"
  have noerr: "detect_error sv r = None" for r by (simp add: sv_def sample_detect_error)
  have rules: "pol_rules (sv_policy sv) = [taint_on SurfaceToolResult, tainted_rule SurfaceToolCall]" by (simp add: sv_def)
  have taints: "v_taint_session (the_verdict sv req (w_mem world0))"
    using doc rules by (simp add: the_verdict_def noerr Evaluate_taint sample_rule_hits req_def)
  note runs = staged_runs [where o' = hop and a = req and w = world0, OF doc refl refl]
  have "v_action (the_verdict sv hop (w_mem (snd (serve sv req world0)))) = ActionBlock"
    by (rule taint_reaches_concurrent_hops [OF doc runs(1,2) _ taints _ runs(3) [where b = hop]])
      (simp_all add: req_def hop_def noerr rules)
  then show ?thesis
    by (intro exI conjI) (rule runs(4), rule runs(3), rule nth_append_length)
qed

theorem block_reaches_concurrent_calls_witness:
  "\<exists>sv tcall v' ts ts'' w w3. service_run sv None ([], world0) (ts, w)
     \<and> service_run sv None (ts @ [(tcall, inspect_calls sv tcall)], w) (ts'', w3)
     \<and> ts'' ! length ts = (tcall, Done v') \<and> v_action v' = ActionBlock"
proof -
  define sv where "sv = sample_service [] None [block_on SurfaceToolDefinition]"
  note doc = sample_service_doc [of "[]" None "[block_on SurfaceToolDefinition]", folded sv_def]
  define def' where "def' = text_request SurfaceToolDefinition ''s'' ''mail'' ''evil''"
  define tcall where "tcall = text_request SurfaceToolCall ''s'' ''mail'' ''send''"
  have noerr: "detect_error sv r = None" for r by (simp add: sv_def sample_detect_error)
  have rules: "pol_rules (sv_policy sv) = [block_on SurfaceToolDefinition]" by (simp add: sv_def)
  have "d_action (Evaluate (sv_policy sv) (decision_input sv def' (w_mem world0))) = ActionBlock"
    by (rule block_rule_decides [of "block_on SurfaceToolDefinition"])
      (use doc rules in \<open>simp_all add: sample_rule_hits def'_def\<close>)
  then have blocks: "v_action (the_verdict sv def' (w_mem world0)) = ActionBlock" by (rule decided_block [OF noerr])
  note runs = staged_runs [where o' = tcall and a = def' and w = world0, OF doc refl refl]
  have "v_action (the_verdict sv tcall (w_mem (snd (serve sv def' world0)))) = ActionBlock"
    by (rule block_reaches_concurrent_calls [OF doc runs(1,2) _ blocks _ noerr runs(3) [where b = tcall]])
      (simp_all add: def'_def tcall_def noerr names_tool_def)
  then show ?thesis
    by (intro exI conjI) (rule runs(4), rule runs(3), rule nth_append_length)
qed

section \<open>The audit log\<close>

text \<open>
  What an audit event and a finished inspection have in common: who was inspected, by content hash, and how it ended.
\<close>

type_synonym tag = "string \<times> string \<times> string \<times> string \<times> string \<times> string \<times> bool"

definition event_tag :: "event \<Rightarrow> tag" where
  "event_tag ev = (ev_session_id ev, ev_surface ev, ev_caller ev, ev_source ev, ev_content_hash ev, ev_action ev, ev_taint_session ev)"

definition verdict_tag :: "(string \<Rightarrow> string) \<Rightarrow> request \<times> verdict \<Rightarrow> tag" where
  "verdict_tag sha rv = (case rv of (req, v) \<Rightarrow>
     (r_session req, r_surface req, r_caller req, r_source req, ContentHash sha req, v_action v, v_taint_session v))"

definition finished_thread :: "thread \<Rightarrow> (request \<times> verdict) option" where
  "finished_thread t = (case snd t of Done v \<Rightarrow> Some (fst t, v) | Call c k \<Rightarrow> None)"

definition finished :: "thread list \<Rightarrow> (request \<times> verdict) list" where
  "finished ts = List.map_filter finished_thread ts"

text \<open>A program that writes exactly one event, which agrees with the verdict it then ends with.\<close>

primrec writes_one :: "(event \<Rightarrow> verdict \<Rightarrow> bool) \<Rightarrow> prog \<Rightarrow> bool" where
  "writes_one B (Done v) = False"
| "writes_one B (Call c k) =
     (case c of AuditCall ev \<Rightarrow> \<forall>r. \<exists>v. k r = Done v \<and> B ev v | _ \<Rightarrow> \<forall>r. writes_one B (k r))"

definition tells :: "(string \<Rightarrow> string) \<Rightarrow> request \<Rightarrow> event \<Rightarrow> verdict \<Rightarrow> bool" where
  "tells sha req ev v = (event_tag ev = verdict_tag sha (req, v))"

lemma inspect_writes_one: "writes_one (tells (sv_sha sv) req) (inspect_calls sv req)"
proof (rule inspect_calls_induct)
  fix c and k :: "reply \<Rightarrow> prog"
  assume "quiet_call c" "\<And>r. writes_one (tells (sv_sha sv) req) (k r)"
  then show "writes_one (tells (sv_sha sv) req) (Call c k)" by (cases c) (simp_all add: quiet_call_def)
qed (simp add: tells_def event_tag_def verdict_tag_def make_event_def)

definition audits :: "(string \<Rightarrow> string) \<Rightarrow> thread \<Rightarrow> bool" where
  "audits sha t = (finished_thread t \<noteq> None \<or> writes_one (tells sha (fst t)) (snd t))"

lemma finished_append: "finished (ts @ us) = finished ts @ finished us"
  by (simp add: finished_def List.map_filter_def)

lemma finished_Cons: "finished (t # ts) = (case finished_thread t of None \<Rightarrow> [] | Some x \<Rightarrow> [x]) @ finished ts"
  by (simp add: finished_def split: option.splits)

lemma finished_update:
  "i < length ts \<Longrightarrow> finished_thread (ts ! i) = None \<Longrightarrow>
     mset (finished (ts[i := t])) = mset (finished ts) + (case finished_thread t of None \<Rightarrow> {#} | Some x \<Rightarrow> {#x#})"
  using arg_cong [OF id_take_nth_drop [of i ts], of "\<lambda>us. mset (finished us)"]
  by (simp add: upd_conv_take_nth_drop finished_append finished_Cons split: option.splits)

lemma finished_snoc: "finished_thread t = None \<Longrightarrow> finished (ts @ [t]) = finished ts"
  by (simp add: finished_append) (simp add: finished_def)

text \<open>The writes made since \<open>before\<close> are those of the finished inspections, in some order.\<close>

definition log_agrees ::
  "('e \<Rightarrow> 'l) \<Rightarrow> (event \<Rightarrow> 'l \<Rightarrow> 'l) \<Rightarrow> (string \<Rightarrow> string) \<Rightarrow> 'l \<Rightarrow> 'e conf \<Rightarrow> bool" where
  "log_agrees lg offer sha before c =
     ((\<forall>t \<in> set (fst c). audits sha t)
      \<and> (\<exists>evs. lg (snd c) = fold offer evs before
           \<and> mset (map event_tag evs) = mset (map (verdict_tag sha) (finished (fst c)))))"

context audited_pipeline
begin

lemma quiet_perform: "quiet_call c \<Longrightarrow> perform p c e = (r, e') \<Longrightarrow> log e' = log e"
  using quiet by (cases c) (auto simp: quiet_call_def apfst_def map_prod_def split_beta)

lemma audit_perform: "perform p (AuditCall ev) e = (r, e') \<Longrightarrow> log e' = offer ev (log e)"
  using audit_log [of ev e] by (auto simp: apfst_def map_prod_def split_beta)

lemma agrees_step:
  assumes "conc_step (perform p) (inspect_calls sv) moves c c'" "\<And>e e'. moves e e' \<Longrightarrow> log e' = log e"
    "log_agrees log offer (sv_sha sv) before c"
  shows "log_agrees log offer (sv_sha sv) before c'"
  using assms(1)
proof (cases rule: conc_step.cases)
  case (Arrives ts e req)
  have "finished_thread (req, inspect_calls sv req) = None" by (simp add: finished_thread_def inspect_calls_def)
  moreover have "audits (sv_sha sv) (req, inspect_calls sv req)" using inspect_writes_one by (simp add: audits_def)
  ultimately show ?thesis using Arrives assms(3) by (auto simp: log_agrees_def finished_snoc)
next
  case (Goes i ts req cl k e r e')
  then have open': "finished_thread (ts ! i) = None" by (simp add: finished_thread_def)
  have "audits (sv_sha sv) (ts ! i)" using assms(3) Goes(1,3) nth_mem unfolding log_agrees_def by fastforce
  then have one: "writes_one (tells (sv_sha sv) req) (Call cl k)" using Goes(4) open' by (simp add: audits_def)
  obtain evs where evs: "log e = fold offer evs before"
    "mset (map event_tag evs) = mset (map (verdict_tag (sv_sha sv)) (finished ts))"
    using assms(3) Goes(1) by (auto simp: log_agrees_def)
  show ?thesis
  proof (cases "quiet_call cl")
    case True
    then have "writes_one (tells (sv_sha sv) req) (k r)" using one by (cases cl) (auto simp: quiet_call_def)
    moreover from this have "finished_thread (req, k r) = None" by (cases "k r") (simp_all add: finished_thread_def)
    ultimately show ?thesis
      using Goes assms(3) finished_update [OF Goes(3) open', of "(req, k r)"] quiet_perform [OF True Goes(5)]
      by (auto simp: log_agrees_def audits_def dest!: set_update_subset_insert [THEN subsetD])
  next
    case False
    then obtain ev where ev: "cl = AuditCall ev" by (auto simp: quiet_call_def)
    then obtain v where v: "k r = Done v" "event_tag ev = verdict_tag (sv_sha sv) (req, v)"
      using one by (auto simp: tells_def)
    then have fin: "finished_thread (req, k r) = Some (req, v)" by (simp add: finished_thread_def)
    have "log e' = fold offer (evs @ [ev]) before" using evs(1) audit_perform Goes(5) ev by simp
    moreover have "mset (map event_tag (evs @ [ev]))
        = mset (map (verdict_tag (sv_sha sv)) (finished (ts[i := (req, k r)])))"
      using evs(2) v(2) finished_update [OF Goes(3) open', of "(req, k r)"] by (simp add: fin)
    moreover have "\<forall>t \<in> set (ts[i := (req, k r)]). audits (sv_sha sv) t"
      using assms(3) Goes(1) fin by (auto simp: log_agrees_def audits_def dest!: set_update_subset_insert [THEN subsetD])
    ultimately show ?thesis unfolding log_agrees_def Goes(2) by (simp only: fst_conv snd_conv) blast
  qed
next
  case (Acts e e' ts)
  then show ?thesis using assms(2,3) by (auto simp: log_agrees_def)
qed

lemma agrees_run:
  assumes "conc_run (perform p) (inspect_calls sv) moves c c'" "\<And>e e'. moves e e' \<Longrightarrow> log e' = log e"
  shows "log_agrees log offer (sv_sha sv) before c \<Longrightarrow> log_agrees log offer (sv_sha sv) before c'"
  using assms(1) by (induction rule: conc_run.induct) (auto intro: agrees_step assms(2))

lemma agrees_from_start:
  assumes "conc_run (perform p) (inspect_calls sv) moves ([], e0) (ts, e)" "\<And>e e'. moves e e' \<Longrightarrow> log e' = log e"
  shows "\<exists>evs. log e = fold offer evs (log e0)
     \<and> mset (map event_tag evs) = mset (map (verdict_tag (sv_sha sv)) (finished ts))"
proof -
  have "log_agrees log offer (sv_sha sv) (log e0) ([], e0)" by (simp add: log_agrees_def finished_def)
  from agrees_run [OF assms this] show ?thesis by (simp add: log_agrees_def)
qed

end

section \<open>Over Redis\<close>

text \<open>
  One replica among others: \<open>R\<close> says what the other replicas, the operators and the expiry of keys may do to the
  server meanwhile. The lines written are the replica's own.
\<close>

definition outside :: "('r \<Rightarrow> 'r \<Rightarrow> bool) \<Rightarrow> 'r shared_world \<Rightarrow> 'r shared_world \<Rightarrow> bool" where
  "outside R s s' = (R (sw_server s) (sw_server s') \<and> sw_out s' = sw_out s)"

definition shared_run ::
  "'r redis_client \<Rightarrow> service \<Rightarrow> ('r \<Rightarrow> 'r \<Rightarrow> bool) \<Rightarrow> 'r shared_world conf \<Rightarrow> 'r shared_world conf \<Rightarrow> bool" where
  "shared_run c sv R = conc_run (perform (redis_pipeline c sv)) (inspect_calls sv) (outside R)"

interpretation shared_trail: audited_pipeline "redis_pipeline c sv" sw_out "written (sv_line sv)" for c sv
proof unfold_locales
  fix run req and e :: "'a shared_world"
  show "pl_Normalizer (redis_pipeline c sv) = Some run \<Longrightarrow> sw_out (snd (run req e)) = sw_out e"
    by (auto simp: redis_pipeline_def run_normalizer_def split: option.splits)
qed (simp_all add: redis_pipeline_def clock_def NewRedis_def lift_store_def lift_server_def written_def split_beta)

text \<open>A command that fails, whether or not it took effect, deletes no key.\<close>

definition errors_keep_keys :: "'r redis_client \<Rightarrow> ('r \<Rightarrow> string \<Rightarrow> string option) \<Rightarrow> bool" where
  "errors_keep_keys c live =
     ((\<forall>k \<sigma> err \<sigma>' k'. rc_Exists c k \<sigma> = (Inl err, \<sigma>') \<and> live \<sigma> k' \<noteq> None \<longrightarrow> live \<sigma>' k' \<noteq> None)
      \<and> (\<forall>k v ttl \<sigma> err \<sigma>' k'. rc_Set c k v ttl \<sigma> = (Inl err, \<sigma>') \<and> live \<sigma> k' \<noteq> None \<longrightarrow> live \<sigma>' k' \<noteq> None)
      \<and> (\<forall>k \<sigma> err \<sigma>' k'. rc_Get c k \<sigma> = (Inl err, \<sigma>') \<and> live \<sigma> k' \<noteq> None \<longrightarrow> live \<sigma>' k' \<noteq> None))"

definition keeps_key :: "('r \<Rightarrow> string \<Rightarrow> string option) \<Rightarrow> string \<Rightarrow> ('r \<Rightarrow> 'r \<Rightarrow> bool) \<Rightarrow> bool" where
  "keeps_key live k R = (\<forall>\<sigma> \<sigma>'. R \<sigma> \<sigma>' \<and> live \<sigma> k \<noteq> None \<longrightarrow> live \<sigma>' k \<noteq> None)"

lemma redis_commands_keep:
  assumes "documented_server c live" "errors_keep_keys c live" "live \<sigma> k' \<noteq> None"
  shows "live (snd (rc_Exists c k \<sigma>)) k' \<noteq> None" "live (snd (rc_Set c k v ttl \<sigma>)) k' \<noteq> None" "live (snd (rc_Get c k \<sigma>)) k' \<noteq> None"
proof -
  have errors:
    "rc_Exists c k \<sigma> = (Inl err, \<sigma>') \<Longrightarrow> live \<sigma>' k' \<noteq> None"
    "rc_Set c k v ttl \<sigma> = (Inl err, \<sigma>') \<Longrightarrow> live \<sigma>' k' \<noteq> None"
    "rc_Get c k \<sigma> = (Inl err, \<sigma>') \<Longrightarrow> live \<sigma>' k' \<noteq> None" for err \<sigma>'
    using assms(2,3) unfolding errors_keep_keys_def by blast+
  note laws = documented_serverD(1) [OF assms(1), of k \<sigma>] documented_serverD(2) [OF assms(1), of k v ttl \<sigma>]
    documented_serverD(3) [OF assms(1), of k \<sigma>]
  show "live (snd (rc_Exists c k \<sigma>)) k' \<noteq> None"
  proof (cases "rc_Exists c k \<sigma>")
    case (Pair x \<sigma>')
    then show ?thesis using errors(1) laws(1) [of _ \<sigma>'] assms(3) by (cases x) auto
  qed
  show "live (snd (rc_Set c k v ttl \<sigma>)) k' \<noteq> None"
  proof (cases "rc_Set c k v ttl \<sigma>")
    case (Pair x \<sigma>')
    then show ?thesis using errors(2) laws(2) [of _ \<sigma>'] assms(3) by (cases x) auto
  qed
  show "live (snd (rc_Get c k \<sigma>)) k' \<noteq> None"
  proof (cases "rc_Get c k \<sigma>")
    case (Pair x \<sigma>')
    then show ?thesis using errors(3) laws(3) [of _ \<sigma>'] assms(3) by (cases x) auto
  qed
qed

lemma perform_keeps_key:
  assumes "documented_server c live" "errors_keep_keys c live" "live (sw_server s) k \<noteq> None"
    "perform (redis_pipeline c sv) cl s = (r, s')"
  shows "live (sw_server s') k \<noteq> None"
proof -
  have "live (sw_server (snd (perform (redis_pipeline c sv) cl s))) k \<noteq> None"
    using redis_commands_keep [OF assms(1-3)] assms(3)
    by (cases cl) (simp_all add: redis_pipeline_def clock_def NewRedis_def lift_store_def lift_server_def redis_store_def redis_op_defs
        JSONLSink_Write_def apfst_def map_prod_def Let_def split_beta split: sum.split prod.split)
  then show ?thesis using assms(4) by simp
qed

definition yes_or_error :: "call \<Rightarrow> call \<Rightarrow> reply \<Rightarrow> bool" where
  "yes_or_error ask c r = (c = ask \<longrightarrow> r = FlagReply (Inr True) \<or> (\<exists>err. r = FlagReply (Inl err)))"

definition any_reply :: "call \<Rightarrow> reply \<Rightarrow> bool" where
  "any_reply c r = True"

lemma redis_mark:
  assumes doc: "documented_server c live" "errors_keep_keys c live" and R: "keeps_key live k R"
    and pair: "(k = taintKey key_prefix s \<and> put = TaintCall s ttl \<and> ask = TaintedCall s)
      \<or> (k = blockedKey key_prefix s t \<and> put = BlockToolCall s t ttl \<and> ask = ToolBlockedCall s t)"
  shows "shared_mark (perform (redis_pipeline c sv)) (outside R) (service_call sv) (\<lambda>_. True)
    (\<lambda>e. live (sw_server e) k \<noteq> None) put any_reply (yes_or_error ask)"
proof unfold_locales
  fix e e' :: "'a shared_world" and cl r
  assume marked: "live (sw_server e) k \<noteq> None"
  show "live (sw_server e') k \<noteq> None" if "outside R e e'"
    using that marked R by (auto simp: outside_def keeps_key_def)
  assume call: "perform (redis_pipeline c sv) cl e = (r, e')"
  have "yes_or_error ask cl r"
    using pair marked call documented_serverD(1) [OF doc(1), of k "sw_server e"]
    by (auto simp: yes_or_error_def redis_pipeline_def NewRedis_def lift_store_def lift_server_def redis_store_def Redis_Tainted_def
        Redis_ToolBlocked_def key_prefix_def apfst_def map_prod_def split: prod.splits sum.splits)
  then show "live (sw_server e') k \<noteq> None \<and> yes_or_error ask cl r"
    using perform_keeps_key [OF doc marked call] by simp
next
  fix e e' :: "'a shared_world"
  assume call: "perform (redis_pipeline c sv) put e = (UnitReply (Inr ()), e')"
  show "live (sw_server e') k \<noteq> None"
    using pair call documented_serverD(2) [OF doc(1), of k _ _ "sw_server e"]
    by (auto simp: redis_pipeline_def NewRedis_def lift_store_def lift_server_def redis_store_def Redis_Taint_def
        Redis_BlockTool_def key_prefix_def apfst_def map_prod_def Let_def split: prod.splits sum.splits if_splits)
qed (simp_all add: any_reply_def)

lemma shared_run_usual:
  "shared_run c sv R ([], e0) (ts, e) \<Longrightarrow> \<forall>t \<in> set ts. every_call (service_call sv) (snd t)"
  using run_usual [where usual = "service_call sv", OF _ inspect_usual] by (fastforce simp: shared_run_def)

text \<open>What one replica leaves behind, and what another makes of it.\<close>

lemma replica_leaves:
  assumes "documented_server c live" "errors_keep_keys c live" "keeps_key live k R" "nfkc_documented (sv_lib sv)"
    "shared_run c sv R0 ([], e0) (ts, e1)" "shared_run c sv R (ts @ [(req, inspect_calls sv req)], e1) (ts', e2)"
    "ts' ! length ts = (req, Done v)"
    and kind: "(k = taintKey key_prefix (r_session req) \<and> v_taint_session v \<and> r_session req \<noteq> [])
      \<or> (k = blockedKey key_prefix (r_session req) (r_source req) \<and> names_tool SurfaceToolDefinition req
          \<and> v_action v = ActionBlock \<and> v \<noteq> refusal sv)"
  shows "live (sw_server e2) k \<noteq> None"
proof -
  have any: "any_reply = (\<lambda>_ _. True)" by (simp add: fun_eq_iff any_reply_def)
  obtain put ask Q where pair: "(k = taintKey key_prefix (r_session req) \<and> put = TaintCall (r_session req) (sv_ttl sv) \<and> ask = TaintedCall (r_session req))
      \<or> (k = blockedKey key_prefix (r_session req) (r_source req) \<and> put = BlockToolCall (r_session req) (r_source req) (sv_ttl sv)
          \<and> ask = ToolBlockedCall (r_session req) (r_source req))"
    and owed: "meets (unless any_reply put) Q (inspect_calls sv req)" "\<not> Q v"
    using kind inspect_leaves_taint [OF assms(4), of req any_reply]
      inspect_leaves_block [OF assms(4), of req any_reply "\<lambda>v. v_action v = ActionBlock \<longrightarrow> v = refusal sv"] any
    by blast
  from shared_mark.marked_when_done [OF redis_mark [OF assms(1-3) pair] assms(6) [unfolded shared_run_def] inspect_usual
      shared_run_usual [OF assms(5)] inspect_usual TrueI owed(1) assms(7) owed(2)]
  show ?thesis by simp
qed

lemma replica_meets:
  assumes "documented_server c live" "errors_keep_keys c live" "keeps_key live k R" "nfkc_documented (sv_lib sv)"
    "shared_run c sv R0 ([], e0) (ts, e1)" "shared_run c sv R (ts @ [(req, inspect_calls sv req)], e1) (ts', e2)"
    "ts' ! length ts = (req, Done v)" "live (sw_server e1) k \<noteq> None" "v_action (refusal sv) = ActionBlock"
    and kind: "(k = taintKey key_prefix (r_session req) \<and> r_session req \<noteq> []
          \<and> tainted_rule (r_surface req) \<in> set (pol_rules (sv_policy sv)))
      \<or> (k = blockedKey key_prefix (r_session req) (r_source req) \<and> names_tool SurfaceToolCall req)"
  shows "v_action v = ActionBlock"
proof -
  define ask where "ask = (if k = taintKey key_prefix (r_session req) then TaintedCall (r_session req)
      else ToolBlockedCall (r_session req) (r_source req))"
  define put where "put = (if k = taintKey key_prefix (r_session req) then TaintCall (r_session req) 0
      else BlockToolCall (r_session req) (r_source req) 0)"
  have pair: "(k = taintKey key_prefix (r_session req) \<and> put = TaintCall (r_session req) 0 \<and> ask = TaintedCall (r_session req))
      \<or> (k = blockedKey key_prefix (r_session req) (r_source req) \<and> put = BlockToolCall (r_session req) (r_source req) 0
          \<and> ask = ToolBlockedCall (r_session req) (r_source req))"
    using kind by (auto simp: ask_def put_def redis_keys_apart)
  have "meets (yes_or_error ask) (\<lambda>v. v_action v = ActionBlock) (inspect_calls sv req)"
    using kind tainted_inspection_blocks [OF assms(4) _ tainted_rule_decides [OF assms(4)], of req "yes_or_error ask"]
      blocked_inspection_blocks [OF assms(4), of req "yes_or_error ask"] assms(9)
    by (auto simp: ask_def yes_or_error_def redis_keys_apart)
  from shared_mark.mark_met [OF redis_mark [OF assms(1-3) pair] assms(6) [unfolded shared_run_def] inspect_usual
      shared_run_usual [OF assms(5)] inspect_usual TrueI assms(8) this assms(7)]
  show ?thesis .
qed

text \<open>C4: replicas over one Redis server share taint and blocks also while each interleaves its requests and any
  command may fail. Replica A gives a verdict that taints a session, or a verdict by the rules that blocks a tool's
  definition; a hop of that session, or a call of that tool, that replica B starts on from that state of the server
  ends blocked, if B fails closed and nobody else deletes the key meanwhile.\<close>

theorem replicas_share_state_concurrently:
  assumes server: "documented_server c live" "errors_keep_keys c live"
    and docs: "nfkc_documented (sv_lib A)" "nfkc_documented (sv_lib B)"
    and first: "shared_run c A R0 ([], a0) (ts, a1)" "shared_run c A R (ts @ [(req, inspect_calls A req)], a1) (ts', a2)"
    "ts' ! length ts = (req, Done v)"
    and later: "shared_run c B R1 ([], b0) (us, b1)" "sw_server b1 = sw_server a2"
    "shared_run c B R (us @ [(hop, inspect_calls B hop)], b1) (us', b2)" "us' ! length us = (hop, Done v')"
    "r_session hop = r_session req" "OnError_Action (pol_on_error (sv_policy B)) = ActionBlock"
  shows "(v_taint_session v \<and> r_session req \<noteq> [] \<and> tainted_rule (r_surface hop) \<in> set (pol_rules (sv_policy B))
        \<and> keeps_key live (taintKey key_prefix (r_session req)) R \<longrightarrow> v_action v' = ActionBlock)
    \<and> (v_action v = ActionBlock \<and> v \<noteq> refusal A \<and> names_tool SurfaceToolDefinition req
        \<and> names_tool SurfaceToolCall hop \<and> r_source hop = r_source req
        \<and> keeps_key live (blockedKey key_prefix (r_session req) (r_source req)) R \<longrightarrow> v_action v' = ActionBlock)"
proof -
  have refuses: "v_action (refusal B) = ActionBlock" using later(6) by (simp add: refusal_def Policy_OnError_def)
  have blocked: "v_action v' = ActionBlock"
    if "keeps_key live k R" "live (sw_server a2) k \<noteq> None"
      "(k = taintKey key_prefix (r_session hop) \<and> r_session hop \<noteq> [] \<and> tainted_rule (r_surface hop) \<in> set (pol_rules (sv_policy B)))
      \<or> (k = blockedKey key_prefix (r_session hop) (r_source hop) \<and> names_tool SurfaceToolCall hop)" for k
    using replica_meets [OF server that(1) docs(2) later(1,3,4) _ refuses that(3)] that(2) later(2) by simp
  have left: "live (sw_server a2) k \<noteq> None"
    if "keeps_key live k R" "(k = taintKey key_prefix (r_session req) \<and> v_taint_session v \<and> r_session req \<noteq> [])
      \<or> (k = blockedKey key_prefix (r_session req) (r_source req) \<and> names_tool SurfaceToolDefinition req
          \<and> v_action v = ActionBlock \<and> v \<noteq> refusal A)" for k
    by (rule replica_leaves [OF server that(1) docs(1) first that(2)])
  show ?thesis
    using blocked [OF _ left, of "taintKey key_prefix (r_session req)"]
      blocked [OF _ left, of "blockedKey key_prefix (r_session req) (r_source req)"] later(5)
    by auto
qed

text \<open>C5: auditing is complete and truthful under every interleaving and whatever the sink refuses: at any moment
  of any run, in memory or over Redis, the events offered to the sink since the start are those of the finished
  inspections, one each in some order, and each names the inspected request, by content hash, and the action and taint
  of the verdict that was returned for it. The lines written are those of the offered events that the sink accepted,
  in the order offered, none twice and none besides: one line for each finished inspection when it accepts every event.\<close>

theorem concurrent_audit_complete:
  "(service_run sv till ([], w0) (ts, w) \<longrightarrow>
      (\<exists>evs. trail_of (sv_line sv) evs (w_out w0) (w_out w)
         \<and> mset (map event_tag evs) = mset (map (verdict_tag (sv_sha sv)) (finished ts))))
   \<and> (shared_run c sv R ([], e0) (us, e) \<longrightarrow>
      (\<exists>evs. trail_of (sv_line sv) evs (sw_out e0) (sw_out e)
         \<and> mset (map event_tag evs) = mset (map (verdict_tag (sv_sha sv)) (finished us))))"
proof (intro conjI impI)
  assume "service_run sv till ([], w0) (ts, w)"
  then have "\<exists>evs. w_out w = fold (written (sv_line sv)) evs (w_out w0)
      \<and> mset (map event_tag evs) = mset (map (verdict_tag (sv_sha sv)) (finished ts))"
    unfolding service_run_def service_pipeline_def by (rule trail.agrees_from_start) (auto simp: time_passes_def)
  then show "\<exists>evs. trail_of (sv_line sv) evs (w_out w0) (w_out w)
      \<and> mset (map event_tag evs) = mset (map (verdict_tag (sv_sha sv)) (finished ts))"
    using written_trail by metis
next
  assume "shared_run c sv R ([], e0) (us, e)"
  then have "\<exists>evs. sw_out e = fold (written (sv_line sv)) evs (sw_out e0)
      \<and> mset (map event_tag evs) = mset (map (verdict_tag (sv_sha sv)) (finished us))"
    unfolding shared_run_def by (rule shared_trail.agrees_from_start) (auto simp: outside_def)
  then show "\<exists>evs. trail_of (sv_line sv) evs (sw_out e0) (sw_out e)
      \<and> mset (map event_tag evs) = mset (map (verdict_tag (sv_sha sv)) (finished us))"
    using written_trail by metis
qed

lemma shared_alone:
  "serve_shared c sv req e = (Inr v, e') \<Longrightarrow>
     shared_run c sv R (ts @ [(req, inspect_calls sv req)], e) (ts @ [(req, Done v)], e')"
  unfolding shared_run_def serve_shared_def by (rule inspected_alone [OF both_wired(2)])

lemma shared_waits: "shared_run c sv R ([], e) ([(req, inspect_calls sv req)], e)"
  unfolding shared_run_def by (rule conc_run.Then [OF conc_run.Here]) (use conc_step.Arrives [of _ _ _ "[]"] in fastforce)

lemma serve_shared_returns: "\<exists>v e'. serve_shared c sv req e = (Inr v, e')"
  using shared_trail.one_event [of "sv_sha sv" c sv req e] unfolding serve_shared_def by (metis prod.collapse)

abbreviation kv_world :: "(string \<rightharpoonup> string) shared_world" where
  "kv_world \<equiv> \<lparr>sw_server = Map.empty, sw_out = [], sw_now = 0\<rparr>"

lemma kv_client_lives: "documented_server kv_client (\<lambda>\<sigma>. \<sigma>)" "errors_keep_keys kv_client (\<lambda>\<sigma>. \<sigma>)"
  by (auto simp: documented_server_def errors_keep_keys_def kv_client_def split: option.splits)

lemma finished_one: "length (finished [(req, Done v)]) = 1"
  by (simp add: finished_Cons finished_thread_def) (simp add: finished_def)

text \<open>One replica taints the session while a call of its own waits; the other then blocks a call.\<close>

theorem replicas_share_state_concurrently_witness:
  "\<exists>hop v' us e'. shared_run kv_client guards_calls (=) ([(hop, inspect_calls guards_calls hop)],
       snd (serve_shared kv_client taints_all (text_request SurfaceToolResult ''s'' ''web'' ''page'') kv_world))
       ([(hop, Done v')], e') \<and> v_action v' = ActionBlock"
proof -
  let ?req = "text_request SurfaceToolResult ''s'' ''web'' ''page''" and ?hop = "text_request SurfaceToolCall ''s'' ''mail'' ''send''"
  obtain v w1 where v: "serve_shared kv_client taints_all ?req kv_world = (Inr v, w1)" "v_taint_session v"
    using taints_all_hop by blast
  obtain v' w2 where v': "serve_shared kv_client guards_calls ?hop w1 = (Inr v', w2)" using serve_shared_returns by blast
  have docs: "nfkc_documented (sv_lib taints_all)" "nfkc_documented (sv_lib guards_calls)"
    by (simp_all add: taints_all_def guards_calls_def sample_service_doc)
  have closed': "OnError_Action (pol_on_error (sv_policy guards_calls)) = ActionBlock"
    by (simp add: guards_calls_def sample_policy_def OnError_Action_def go_consts)
  have rule: "tainted_rule SurfaceToolCall \<in> set (pol_rules (sv_policy guards_calls))" by (simp add: guards_calls_def)
  have keeps: "keeps_key (\<lambda>\<sigma>. \<sigma>) k (=)" for k :: string by (simp add: keeps_key_def)
  have here: "shared_run kv_client guards_calls (=) ([], w1) ([], w1)" unfolding shared_run_def by (rule conc_run.Here)
  have runs: "shared_run kv_client taints_all (=) ([(?hop, inspect_calls taints_all ?hop)] @ [(?req, inspect_calls taints_all ?req)], kv_world)
      ([(?hop, inspect_calls taints_all ?hop)] @ [(?req, Done v)], w1)"
    "shared_run kv_client guards_calls (=) ([] @ [(?hop, inspect_calls guards_calls ?hop)], w1) ([] @ [(?hop, Done v')], w2)"
    using shared_alone [OF v(1)] shared_alone [OF v'] by blast+
  have "v_action v' = ActionBlock"
    by (rule replicas_share_state_concurrently [OF kv_client_lives docs shared_waits runs(1) _ here refl runs(2) _ _ closed',
        THEN conjunct1, THEN mp]) (use v(2) rule keeps in \<open>simp_all only: append_Nil nth_append_length list.size text_request_simps nth_Cons_0, simp_all\<close>)
  then show ?thesis using runs(2) v(1) by auto
qed

text \<open>One inspection in memory, one over Redis.\<close>

theorem concurrent_audit_complete_witness:
  "\<exists>sv evs evs'. trail_of (sv_line sv) evs [] (w_out (snd (serve sv (text_request SurfaceInput ''s'' [] ''hi'') world0)))
     \<and> length evs = 1
     \<and> trail_of (sv_line sv) evs' [] (sw_out (snd (serve_shared kv_client sv (text_request SurfaceInput ''s'' [] ''hi'') kv_world)))
     \<and> length evs' = 1"
proof -
  define sv where "sv = sample_service [] None []"
  note doc = sample_service_doc [of "[]" None "[]", folded sv_def]
  let ?req = "text_request SurfaceInput ''s'' [] ''hi''"
  have 1: "service_run sv None ([], world0) ([(?req, Done (the_verdict sv ?req (w_mem world0)))], snd (serve sv ?req world0))"
    using request_waits [of sv None world0 ?req] served_alone [OF doc, of None "[]" ?req world0]
    unfolding service_run_def by (simp add: conc_run_trans)
  obtain v e' where v: "serve_shared kv_client sv ?req kv_world = (Inr v, e')" using serve_shared_returns by blast
  have 2: "shared_run kv_client sv (=) ([], kv_world) ([(?req, Done v)], e')"
    using shared_waits [of kv_client sv "(=)" kv_world ?req] shared_alone [OF v, of "(=)" "[]"]
    unfolding shared_run_def by (simp add: conc_run_trans)
  have size: "length evs = 1"
    if "mset (map event_tag evs) = mset (map (verdict_tag (sv_sha sv)) (finished [(?req, Done u)]))" for evs u
    using arg_cong [OF that, of size] finished_one [of ?req u] by simp
  obtain evs where "trail_of (sv_line sv) evs (w_out world0) (w_out (snd (serve sv ?req world0)))" "length evs = 1"
    using concurrent_audit_complete [of sv None world0] 1 size by blast
  moreover obtain evs' where "trail_of (sv_line sv) evs' (sw_out kv_world) (sw_out e')" "length evs' = 1"
    using concurrent_audit_complete [of sv _ _ _ _ kv_client "(=)" kv_world] 2 size by blast
  ultimately show ?thesis using v by (intro exI [of _ sv] exI [of _ evs] exI [of _ evs']) (auto simp: world0_def)
qed

end
