(* ===== verification/Regex_Complete.thy ===== *)
theory Regex_Complete
  imports Regex
begin

text \<open>
  A declarative reading of patterns, for texts whose matched part is ASCII: which words a pattern accepts between
  what stands before and after. The matcher is complete for it: a word that is accepted anywhere in a text makes
  \<open>FindAll\<close> report a match, whatever surrounds it.
\<close>

section \<open>Acceptance\<close>

inductive accepts :: "re \<Rightarrow> string \<Rightarrow> string \<Rightarrow> string \<Rightarrow> bool" where
  Eps: "accepts Eps pre [] post"
| Cls: "byte_of c < 0x80 \<Longrightarrow> in_class neg rs (byte_of c) \<Longrightarrow> accepts (Cls neg rs) pre [c] post"
| Cat: "accepts a pre u (v @ post) \<Longrightarrow> accepts b (pre @ u) v post \<Longrightarrow> accepts (Cat a b) pre (u @ v) post"
| AltL: "accepts a pre w post \<Longrightarrow> accepts (Alt a b) pre w post"
| AltR: "accepts b pre w post \<Longrightarrow> accepts (Alt a b) pre w post"
| Rep: "lo \<le> length us \<Longrightarrow> (\<And>h. hi = Some h \<Longrightarrow> length us \<le> h) \<Longrightarrow>
    (\<And>i. i < length us \<Longrightarrow> us ! i \<noteq> [] \<and>
       accepts a (pre @ concat (take i us)) (us ! i) (concat (drop (Suc i) us) @ post)) \<Longrightarrow>
    accepts (Rep greedy lo hi a) pre (concat us) post"
| WordB: "word_boundary (pre @ post) (length pre) \<Longrightarrow> accepts WordB pre [] post"
| LineStart: "line_start (pre @ post) (length pre) \<Longrightarrow> accepts LineStart pre [] post"

lemma rep_loop_pieces:
  "length us \<le> n \<Longrightarrow> lo \<le> length us \<Longrightarrow> (\<And>h. hi = Some h \<Longrightarrow> length us \<le> h) \<Longrightarrow>
     (\<And>i. i < length us \<Longrightarrow> us ! i \<noteq> [] \<and>
        (k + length (concat (take (Suc i) us)), g) \<in> set (step (k + length (concat (take i us)), g))) \<Longrightarrow>
     (k + length (concat us), g) \<in> set (rep_loop n greedy step lo hi (k, g))"
proof (induction us arbitrary: n lo hi k)
  case Nil
  then show ?case by (cases n) (simp_all add: Let_def)
next
  case (Cons u us)
  obtain n' where n: "n = Suc n'" "length us \<le> n'" using Cons.prems(1) by (cases n) auto
  have hi: "hi \<noteq> Some 0" using Cons.prems(3) [of 0] by auto
  have step1: "u \<noteq> []" "(k + length u, g) \<in> set (step (k, g))" using Cons.prems(4) [of 0] by simp_all
  have "((k + length u) + length (concat us), g)
      \<in> set (rep_loop n' greedy step (lo - 1) (map_option (\<lambda>h. h - 1) hi) (k + length u, g))"
  proof (rule Cons.IH [OF n(2)])
    show "lo - 1 \<le> length us" using Cons.prems(2) by simp
    show "length us \<le> h" if "map_option (\<lambda>h. h - 1) hi = Some h" for h using that Cons.prems(3) by auto
    show "us ! i \<noteq> [] \<and> (k + length u + length (concat (take (Suc i) us)), g)
        \<in> set (step (k + length u + length (concat (take i us)), g))" if "i < length us" for i
      using Cons.prems(4) [of "Suc i"] that by (simp add: add.assoc)
  qed
  moreover have "(k + length u, g) \<in> set (filter (\<lambda>st'. 0 < lo \<or> fst (k, g) < fst st') (step (k, g)))"
    using step1 by simp
  ultimately have "(k + length (concat (u # us)), g) \<in> set (concat (map
      (rep_loop n' greedy step (lo - 1) (map_option (\<lambda>h. h - 1) hi)) (filter (\<lambda>st'. 0 < lo \<or> fst (k, g) < fst st') (step (k, g)))))"
    unfolding set_concat set_map by (simp only: concat.simps length_append add.assoc) blast
  then show ?case using hi by (cases greedy) (simp_all add: n(1) Let_def)
qed

lemma length_pieces: "\<forall>u \<in> set us. u \<noteq> [] \<Longrightarrow> length us \<le> length (concat us)"
proof (induction us)
  case (Cons u us)
  then show ?case by (cases u) auto
qed simp

lemma accepts_ends:
  "accepts r pre w post \<Longrightarrow> (length pre + length w, g) \<in> set (ends r (pre @ w @ post) (length pre, g))"
proof (induction rule: accepts.induct)
  case (Cls c neg rs pre post)
  then show ?case by (simp add: DecodeRune_ascii)
next
  case (Cat a pre u v post b)
  have "(length pre + length u + length v, g) \<in> set (ends b (pre @ u @ v @ post) (length pre + length u, g))"
    using Cat.IH(2) by simp
  then show ?case using Cat.IH(1) by (auto simp: add.assoc intro!: bexI [of _ "(length pre + length u, g)"])
next
  case (Rep lo us hi a pre post greedy)
  let ?s = "pre @ concat us @ post"
  have split: "concat us = concat (take i us) @ us ! i @ concat (drop (Suc i) us)"
    "concat (take (Suc i) us) = concat (take i us) @ us ! i" if "i < length us" for i
    using that arg_cong [OF id_take_nth_drop [OF that], of concat] by (simp_all add: take_Suc_conv_app_nth)
  have piece: "us ! i \<noteq> [] \<and> (length pre + length (concat (take (Suc i) us)), g)
      \<in> set (ends a ?s (length pre + length (concat (take i us)), g))" if "i < length us" for i
    using Rep.IH [OF that] split [OF that] by (simp add: add.assoc)
  have len: "length us \<le> length (concat us)" using piece by (intro length_pieces) (auto simp: in_set_conv_nth)
  have "(length pre + length (concat us), g)
      \<in> set (rep_loop (case hi of None \<Rightarrow> lo + length ?s | Some h \<Rightarrow> h) greedy (ends a ?s) lo hi (length pre, g))"
    by (rule rep_loop_pieces) (use len Rep.hyps(1,2) piece in \<open>auto split: option.split\<close>)
  then show ?case by simp
qed simp_all

section \<open>Searching\<close>

text \<open>An ASCII byte is never inside another rune, so the search stops at it.\<close>

lemma rune_ends_before_ascii:
  assumes "0 < i" "i < length s" "byte_of (s ! i) < 0x80"
  shows "rune_width s \<le> i"
proof -
  obtain c cs where s: "s = c # cs" using assms(2) by (cases s) auto
  define w where "w = rune_width s"
  have high: "0x80 \<le> byte_of (cs ! (j - 1))" if "j = 1 \<or> j = 2 \<or> j = 3" "j < w" for j
    using that unfolding w_def s rune_width_def
    by (auto simp: DecodeRune.simps(2) Let_def cont_byte_def second_lo_def split: list.splits if_splits)
  have "w \<le> 4" using rune_width_bounds [of s] s by (simp add: w_def)
  then have "i = 1 \<or> i = 2 \<or> i = 3" if "i < w" using assms(1) that by arith
  then have "\<not> i < w" using high [of i] assms by (auto simp: s nth_Cons')
  then show ?thesis by (simp add: w_def)
qed

lemma next_rune_ascii: "p < q \<Longrightarrow> q < length s \<Longrightarrow> byte_of (s ! q) < 0x80 \<Longrightarrow> next_rune s p \<le> q"
  using rune_ends_before_ascii [of "q - p" "drop p s"] by (simp add: next_rune_def less_diff_conv2)

lemma search_reaches:
  "p \<le> q \<Longrightarrow> q < length s \<Longrightarrow> byte_of (s ! q) < 0x80 \<Longrightarrow> match_at r s q \<noteq> None \<Longrightarrow> search r s p \<noteq> None"
proof (induction r s p rule: search.induct)
  case (1 r s p)
  then have p: "\<not> length s < p" by simp
  show ?case
  proof (cases "match_at r s p")
    case None
    then have "p < q" using "1.prems"(1,4) by (cases "p = q") auto
    then have "next_rune s p \<le> q" using next_rune_ascii "1.prems"(2,3) by blast
    from "1.IH" [OF p None this "1.prems"(2-4)] show ?thesis using None p by (simp add: search.simps [of r s p])
  next
    case (Some m)
    then show ?thesis using p by (simp add: search.simps [of r s p])
  qed
qed

lemma FindAll_search: "search r s 0 = Some m \<Longrightarrow> m \<in> set (FindAll r s)"
  by (simp add: FindAll_def all_matches.simps [of r s 0] Let_def)

lemma FindAll_nonempty:
  assumes "accepts r pre w post" "w \<noteq> []" "byte_of (hd w) < 0x80"
  shows "FindAll r (pre @ w @ post) \<noteq> []"
proof -
  let ?s = "pre @ w @ post"
  have "match_at r ?s (length pre) \<noteq> None"
    using accepts_ends [OF assms(1), of None] by (auto simp: match_at_def split: list.split)
  then have "search r ?s 0 \<noteq> None"
    using assms(2,3) by (intro search_reaches [of 0 "length pre"]) (simp_all add: nth_append hd_conv_nth)
  then show ?thesis using FindAll_search by fastforce
qed

section \<open>Rules for the pattern builders\<close>

lemma accepts_seq:
  "accepts (seq []) pre [] post"
  "accepts r pre w post \<Longrightarrow> accepts (seq [r]) pre w post"
  "accepts r pre u (v @ post) \<Longrightarrow> accepts (seq (r' # rs)) (pre @ u) v post \<Longrightarrow> accepts (seq (r # r' # rs)) pre (u @ v) post"
  by (simp_all add: accepts.Eps accepts.Cat)

lemma accepts_alts: "r \<in> set rs \<Longrightarrow> accepts r pre w post \<Longrightarrow> accepts (alts rs) pre w post"
  by (induction rs rule: alts.induct) (auto intro: accepts.AltL accepts.AltR)

lemma accepts_opt: "accepts (opt r) pre [] post" "accepts r pre w post \<Longrightarrow> w \<noteq> [] \<Longrightarrow> accepts (opt r) pre w post"
  using accepts.Rep [where lo = 0 and us = "[]" and hi = "Some 1" and a = r and greedy = True]
    accepts.Rep [where lo = 0 and us = "[w]" and hi = "Some 1" and a = r and greedy = True]
  by (simp_all add: opt_def)

text \<open>A repetition of words that are accepted in any surroundings.\<close>

lemma accepts_reps:
  assumes "\<And>u pre post. u \<in> set us \<Longrightarrow> u \<noteq> [] \<and> accepts r pre u post"
  shows "accepts (star r) pre (concat us) post" "us \<noteq> [] \<Longrightarrow> accepts (plus1 r) pre (concat us) post"
  using assms by (auto simp: star_def plus1_def Suc_le_eq intro!: accepts.Rep)

end
