(* ===== verification/Hidden_Text.thy ===== *)
theory Hidden_Text
  imports Normalize_Correct
begin

text \<open>
  What the pass on invisible characters does: the text it leaves is that of the visible runes, and the evidence it
  reports covers the invisible runes and nothing else, one span for each maximal run.
\<close>

section \<open>Visible text and hidden bytes\<close>

text \<open>The characters that render as nothing or reorder text: zero-width characters and marks, bidi embeddings and
  overrides, the word joiner and invisible operators, bidi isolates, the byte order mark, the soft hyphen and the
  Mongolian vowel separator.\<close>

definition unseen :: "nat \<Rightarrow> bool" where
  "unseen r = (r \<in> {0x200B..0x200F} \<union> {0x202A..0x202E} \<union> {0x2060..0x2064} \<union> {0x2066..0x2069} \<union> {0xFEFF, 0x00AD, 0x180E})"

lemma invisible_unseen [simp]: "invisible r = unseen r"
  by (auto simp: invisible_def unseen_def)

function visible_text :: "string \<Rightarrow> string" where
  "visible_text s =
     (if s = [] then [] else let (r, w) = DecodeRune s in (if unseen r then [] else take w s) @ visible_text (drop w s))"
  by pat_completeness auto
termination
  by (relation "measure length") (auto dest!: DecodeRune_width [OF sym])

text \<open>Whether byte \<open>j\<close> belongs to an invisible rune.\<close>

function hidden_byte :: "string \<Rightarrow> nat \<Rightarrow> bool" where
  "hidden_byte s j =
     (if s = [] then False
      else let (r, w) = DecodeRune s in if j < w then unseen r else hidden_byte (drop w s) (j - w))"
  by pat_completeness auto
termination
  by (relation "measure (\<lambda>(s, j). length s)") (auto dest!: DecodeRune_width [OF sym])

declare visible_text.simps [simp del] hidden_byte.simps [simp del]

lemma visible_text_Nil [simp]: "visible_text [] = []"
  by (simp add: visible_text.simps)

lemma rune_step:
  assumes "i < length inp" "DecodeRune (drop i inp) = (r, w)"
  shows "0 < w" "i + w \<le> length inp"
    and "runes_from i (drop i inp) = (i, r) # runes_from (i + w) (drop (i + w) inp)"
    and "visible_text (drop i inp) = (if unseen r then [] else take w (drop i inp)) @ visible_text (drop (i + w) inp)"
    and "hidden_byte (drop i inp) j = (if j < w then unseen r else hidden_byte (drop (i + w) inp) (j - w))"
proof -
  have "drop i inp \<noteq> []" using assms(1) by simp
  then show "0 < w" "i + w \<le> length inp"
    and "runes_from i (drop i inp) = (i, r) # runes_from (i + w) (drop (i + w) inp)"
    and "visible_text (drop i inp) = (if unseen r then [] else take w (drop i inp)) @ visible_text (drop (i + w) inp)"
    and "hidden_byte (drop i inp) j = (if j < w then unseen r else hidden_byte (drop (i + w) inp) (j - w))"
    using DecodeRune_width [OF assms(2)] assms
    by (simp_all add: le_diff_conv2 runes_from.simps [of i "drop i inp"] visible_text.simps [of "drop i inp"] hidden_byte.simps [of "drop i inp"]
        add.commute)
qed

lemma nothing_hidden: "(\<And>j. j < length s \<Longrightarrow> \<not> hidden_byte s j) \<Longrightarrow> visible_text s = s"
proof (induction s rule: visible_text.induct)
  case (1 s)
  show ?case
  proof (cases "s = []")
    case False
    obtain r w where d: "DecodeRune s = (r, w)" by fastforce
    then have w: "0 < w" "w \<le> length s" using DecodeRune_width [OF d] False by auto
    then have "\<not> unseen r" using "1.prems" [of 0] False d by (simp add: hidden_byte.simps [of s])
    moreover have "visible_text (drop w s) = drop w s"
    proof (rule "1.IH" [OF False d [symmetric] refl])
      show "\<not> hidden_byte (drop w s) j" if "j < length (drop w s)" for j
        using "1.prems" [of "w + j"] that False d by (simp add: hidden_byte.simps [of s])
    qed
    ultimately show ?thesis using False d by (simp add: visible_text.simps [of s])
  qed simp
qed

section \<open>The loop\<close>

text \<open>The evidence when the loop stands at byte \<open>i\<close>, the run in progress included.\<close>

definition runs_at :: "nat \<Rightarrow> int \<Rightarrow> evidence list \<Rightarrow> evidence list" where
  "runs_at i runStart ev = ev @ (if runStart \<ge> 0 then [hidden_text runStart (int i)] else [])"

definition evidence_on :: "evidence list \<Rightarrow> nat \<Rightarrow> bool" where
  "evidence_on es j = (\<exists>e \<in> set es. evd_start e \<le> int j \<and> int j < evd_end e)"

definition run_of :: "nat \<Rightarrow> evidence \<Rightarrow> bool" where
  "run_of n e = (evd_typ e = TypeHiddenText \<and> evd_score e = 1 \<and> 0 \<le> evd_start e \<and> evd_start e < evd_end e \<and> evd_end e \<le> int n)"

definition runs_apart :: "evidence list \<Rightarrow> bool" where
  "runs_apart = sorted_wrt (\<lambda>e e'. evd_end e < evd_start e')"

definition strip_text :: "string \<Rightarrow> nat \<Rightarrow> int \<times> int \<times> builder \<times> evidence list \<Rightarrow> bool" where
  "strip_text inp i st = (case st of (prev, runStart, b, ev) \<Rightarrow>
     builder_ok inp b \<and> 0 \<le> prev \<and> prev \<le> int i
     \<and> b_out b @ (if runStart \<ge> 0 then [] else take (i - nat prev) (drop (nat prev) inp)) @ visible_text (drop i inp) = visible_text inp
     \<and> (\<not> b_changed b \<longrightarrow> ev = []))"

definition strip_runs :: "string \<Rightarrow> nat \<Rightarrow> int \<times> int \<times> builder \<times> evidence list \<Rightarrow> bool" where
  "strip_runs inp i st = (case st of (prev, runStart, b, ev) \<Rightarrow>
     (\<forall>j. hidden_byte inp (i + j) = hidden_byte (drop i inp) j)
     \<and> (\<forall>j < i. hidden_byte inp j = evidence_on (runs_at i runStart ev) j)
     \<and> (\<forall>e \<in> set (runs_at i runStart ev). run_of i e) \<and> runs_apart (runs_at i runStart ev)
     \<and> -1 \<le> runStart \<and> runStart < int i \<and> (runStart = -1 \<longrightarrow> (\<forall>e \<in> set ev. evd_end e < int i)))"

lemmas strip_defs = strip_text_def strip_runs_def

lemma extend_run:
  "0 \<le> runStart \<Longrightarrow> runs_at i runStart ev = ev @ [hidden_text runStart (int i)]"
  "runs_at i (-1) ev = ev"
  by (simp_all add: runs_at_def)

lemma hidden_text_simps [simp]: "evd_start (hidden_text a b) = a" "evd_end (hidden_text a b) = b"
  "evd_typ (hidden_text a b) = TypeHiddenText" "evd_score (hidden_text a b) = 1"
  by (simp_all add: hidden_text_def)

lemma evidence_on_simps [simp]:
  "\<not> evidence_on [] j"
  "evidence_on (es @ es') j = (evidence_on es j \<or> evidence_on es' j)"
  "evidence_on [e] j = (evd_start e \<le> int j \<and> int j < evd_end e)"
  by (auto simp: evidence_on_def)

lemma runs_apart_simps [simp]:
  "runs_apart []" "runs_apart (es @ [e]) = (runs_apart es \<and> (\<forall>e' \<in> set es. evd_end e' < evd_start e))"
  by (auto simp: runs_apart_def sorted_wrt_append)

lemma run_of_later: "run_of i e \<Longrightarrow> i \<le> k \<Longrightarrow> run_of k e"
  by (auto simp: run_of_def)

lemma strip_runs_step:
  assumes "strip_runs inp i (prev, runStart, b, ev)" "i < length inp" "DecodeRune (drop i inp) = (r, w)"
  shows "unseen r \<Longrightarrow> runStart < 0 \<Longrightarrow> strip_runs inp (i + w) (prev', int i, b', ev)"
    and "unseen r \<Longrightarrow> \<not> runStart < 0 \<Longrightarrow> strip_runs inp (i + w) (prev', runStart, b', ev)"
    and "\<not> unseen r \<Longrightarrow> runStart \<ge> 0 \<Longrightarrow> strip_runs inp (i + w) (prev', -1, b', ev @ [hidden_text runStart (int i)])"
    and "\<not> unseen r \<Longrightarrow> \<not> runStart \<ge> 0 \<Longrightarrow> strip_runs inp (i + w) (prev', runStart, b', ev)"
proof -
  note step = rune_step [OF assms(2,3)]
  have inv: "\<And>j. hidden_byte inp (i + j) = hidden_byte (drop i inp) j"
    "\<And>j. j < i \<Longrightarrow> hidden_byte inp j = evidence_on (runs_at i runStart ev) j"
    "\<forall>e \<in> set (runs_at i runStart ev). run_of i e" "runs_apart (runs_at i runStart ev)"
    "-1 \<le> runStart" "runStart < int i" "runStart = -1 \<longrightarrow> (\<forall>e \<in> set ev. evd_end e < int i)"
    using assms(1) by (auto simp: strip_runs_def)
  have next': "hidden_byte inp (i + w + j) = hidden_byte (drop (i + w) inp) j" for j
    using inv(1) [of "w + j"] step(5) [of "w + j"] by (simp add: add.assoc)
  have here: "hidden_byte inp j = (if j < i then evidence_on (runs_at i runStart ev) j else unseen r)" if "j < i + w" for j
  proof (cases "j < i")
    case False
    then have "i + (j - i) = j" "j - i < w" using that by simp_all
    then show ?thesis using False inv(1) [of "j - i"] step(5) [of "j - i"] by simp
  qed (simp add: inv(2))
  have late: "\<not> evidence_on es j" if "\<forall>e \<in> set es. run_of i e" "i \<le> j" for es j
    using that by (force simp: evidence_on_def run_of_def)
  have further: "run_of (i + w) e" if "run_of i e" for e using that by (rule run_of_later) simp
  show "strip_runs inp (i + w) (prev', int i, b', ev)" if c: "unseen r" "runStart < 0"
  proof -
    have rs: "runStart = -1" using inv(5) c(2) by simp
    then have "runs_at i runStart ev = ev" "runs_at (i + w) (int i) ev = ev @ [hidden_text (int i) (int (i + w))]"
      by (simp_all add: runs_at_def)
    then show ?thesis using inv(3,4,7) rs c(1) step(1) next' here further
      by (auto simp: strip_runs_def run_of_def [of _ "hidden_text _ _"])
  qed
  show "strip_runs inp (i + w) (prev', runStart, b', ev)" if c: "unseen r" "\<not> runStart < 0"
  proof -
    have "runs_at i runStart ev = ev @ [hidden_text runStart (int i)]"
      "runs_at (i + w) runStart ev = ev @ [hidden_text runStart (int (i + w))]"
      using c(2) by (simp_all add: runs_at_def)
    then show ?thesis using inv(3-6) c step(1) next' here further
      by (auto simp: strip_runs_def run_of_def [of _ "hidden_text _ _"])
  qed
  show "strip_runs inp (i + w) (prev', -1, b', ev @ [hidden_text runStart (int i)])" if c: "\<not> unseen r" "runStart \<ge> 0"
  proof -
    have same: "runs_at i runStart ev = ev @ [hidden_text runStart (int i)]"
      "runs_at (i + w) (-1) (ev @ [hidden_text runStart (int i)]) = ev @ [hidden_text runStart (int i)]"
      using c(2) by (simp_all add: runs_at_def)
    have "hidden_byte inp j = evidence_on (ev @ [hidden_text runStart (int i)]) j" if "j < i + w" for j
      using here [OF that] late [OF inv(3), of j] c(1) same(1) by auto
    moreover have "evd_end e < int (i + w)" if "e \<in> set (ev @ [hidden_text runStart (int i)])" for e
      using that inv(3) step(1) unfolding same(1) by (auto simp: run_of_def)
    ultimately show ?thesis using inv(3,4) next' further unfolding strip_runs_def prod.case same by auto
  qed
  show "strip_runs inp (i + w) (prev', runStart, b', ev)" if c: "\<not> unseen r" "\<not> runStart \<ge> 0"
  proof -
    have same: "runs_at k runStart ev = ev" for k using c(2) by (simp add: runs_at_def)
    have "hidden_byte inp j = evidence_on ev j" if "j < i + w" for j
      using here [OF that] late [OF inv(3), of j] c(1) by (auto simp: same)
    moreover have "evd_end e < int (i + w)" if "e \<in> set ev" for e
      using that inv(3) step(1) unfolding same by (auto simp: run_of_def)
    ultimately show ?thesis using inv(3-6) next' further unfolding strip_runs_def prod.case same by auto
  qed
qed

lemma strip_text_step:
  assumes "strip_text inp i (prev, runStart, b, ev)" "i < length inp" "DecodeRune (drop i inp) = (r, w)"
  shows "unseen r \<Longrightarrow> runStart < 0 \<Longrightarrow> \<exists>b'. keep inp prev (int i) b = Some b' \<and> strip_text inp (i + w) (prev, int i, b', ev)"
    and "unseen r \<Longrightarrow> \<not> runStart < 0 \<Longrightarrow> strip_text inp (i + w) (prev, runStart, b, ev)"
    and "\<not> unseen r \<Longrightarrow> runStart \<ge> 0 \<Longrightarrow> runStart \<le> int i \<Longrightarrow>
      strip_text inp (i + w) (int i, -1, replace [] runStart (int i) b, ev @ [hidden_text runStart (int i)])"
    and "\<not> unseen r \<Longrightarrow> \<not> runStart \<ge> 0 \<Longrightarrow> strip_text inp (i + w) (prev, runStart, b, ev)"
proof -
  note step = rune_step [OF assms(2,3)]
  have inv: "builder_ok inp b" "0 \<le> prev" "prev \<le> int i" "\<not> b_changed b \<longrightarrow> ev = []"
    "b_out b @ (if runStart \<ge> 0 then [] else take (i - nat prev) (drop (nat prev) inp)) @ visible_text (drop i inp) = visible_text inp"
    using assms(1) by (auto simp: strip_text_def)
  show "\<exists>b'. keep inp prev (int i) b = Some b' \<and> strip_text inp (i + w) (prev, int i, b', ev)" if "unseen r" "runStart < 0"
    using keep_ok [OF inv(1,2), of "int i"] inv(2-5) that step(2,4) by (auto simp: strip_text_def)
  show "strip_text inp (i + w) (prev, runStart, b, ev)" if "unseen r" "\<not> runStart < 0"
    using inv that step(4) by (simp add: strip_text_def)
  show "strip_text inp (i + w) (int i, -1, replace [] runStart (int i) b, ev @ [hidden_text runStart (int i)])"
    if "\<not> unseen r" "runStart \<ge> 0" "runStart \<le> int i"
    using inv that step(4) replace_ok [OF inv(1) that(2,3), of "[]"] assms(2) by (simp add: strip_text_def)
  have "take (i + w - nat prev) (drop (nat prev) inp) = take (i - nat prev) (drop (nat prev) inp) @ take w (drop i inp)"
    using inv(2,3) take_add [of "i - nat prev" w "drop (nat prev) inp"] by (simp add: nat_le_iff)
  then show "strip_text inp (i + w) (prev, runStart, b, ev)" if "\<not> unseen r" "\<not> runStart \<ge> 0"
    using inv that step(4) by (simp add: strip_text_def)
qed

lemma strip_loop_reaches:
  "strip_text inp i (prev, runStart, b, ev) \<Longrightarrow> strip_runs inp i (prev, runStart, b, ev) \<Longrightarrow> i \<le> length inp \<Longrightarrow>
     \<exists>st. strip_loop inp (runes_from i (drop i inp)) prev runStart b ev = Some st
       \<and> strip_text inp (length inp) st \<and> strip_runs inp (length inp) st"
proof (induction "length inp - i" arbitrary: i prev runStart b ev rule: less_induct)
  case less
  show ?case
  proof (cases "i < length inp")
    case False
    then have "i = length inp" using less.prems(3) by simp
    then show ?thesis using less.prems(1,2) by (auto simp: runes_from.simps)
  next
    case True
    obtain r w where d: "DecodeRune (drop i inp) = (r, w)" by fastforce
    note step = rune_step [OF True d] and kept = strip_text_step [OF less.prems(1) True d] and runs = strip_runs_step [OF less.prems(2) True d]
    have rec: "\<exists>st. strip_loop inp (runes_from (i + w) (drop (i + w) inp)) prev' rs' b' ev' = Some st
        \<and> strip_text inp (length inp) st \<and> strip_runs inp (length inp) st"
      if "strip_text inp (i + w) (prev', rs', b', ev')" "strip_runs inp (i + w) (prev', rs', b', ev')" for prev' rs' b' ev'
      by (rule less.hyps [OF _ that]) (use step(1,2) in simp_all)
    have "runStart \<le> int i" using less.prems(2) by (simp add: strip_runs_def)
    note at = kept(3) [OF _ _ this]
    consider "unseen r" "runStart < 0" | "unseen r" "\<not> runStart < 0"
      | "\<not> unseen r" "runStart \<ge> 0" | "\<not> unseen r" "\<not> runStart \<ge> 0" by blast
    then show ?thesis
    proof cases
      case 1
      then obtain b' where "keep inp prev (int i) b = Some b'" "strip_text inp (i + w) (prev, int i, b', ev)" using kept(1) by blast
      then show ?thesis using rec [OF _ runs(1)] 1 by (simp add: step(3))
    next
      case 2
      then show ?thesis using rec [OF kept(2) runs(2)] by (simp add: step(3))
    next
      case 3
      then show ?thesis using rec [OF at runs(3)] by (simp add: step(3))
    next
      case 4
      then show ?thesis using rec [OF kept(4) runs(4)] by (simp add: step(3))
    qed
  qed
qed

section \<open>The pass\<close>

lemma stripInvisible_exact:
  "\<exists>m ev. stripInvisible s = Some (visible_text s, m, ev) \<and> (\<forall>j < length s. hidden_byte s j \<longleftrightarrow> evidence_on ev j)
     \<and> runs_apart ev \<and> (\<forall>e \<in> set ev. run_of (length s) e)"
proof -
  let ?n = "length s"
  have "strip_text s 0 (0, -1, empty_builder, [])" "strip_runs s 0 (0, -1, empty_builder, [])"
    by (simp_all add: strip_text_def strip_runs_def runs_at_def) (simp add: empty_builder_def)
  from strip_loop_reaches [OF this] obtain prev runStart b ev
    where run: "strip_loop s (runes s) 0 (-1) empty_builder [] = Some (prev, runStart, b, ev)"
      and kept: "strip_text s ?n (prev, runStart, b, ev)" and runs: "strip_runs s ?n (prev, runStart, b, ev)"
    by (auto simp: runes_def)
  define es where "es = runs_at ?n runStart ev"
  have ok: "builder_ok s b" "0 \<le> prev" "prev \<le> int ?n" "\<not> b_changed b \<longrightarrow> ev = []" "runStart < int ?n"
    and out: "b_out b @ (if runStart \<ge> 0 then [] else drop (nat prev) s) = visible_text s"
    using kept runs by (auto simp: strip_defs)
  have spec: "\<forall>j < ?n. hidden_byte s j \<longleftrightarrow> evidence_on es j" "runs_apart es" "\<forall>e \<in> set es. run_of ?n e"
    using runs by (auto simp: strip_runs_def es_def)
  define b1 prev1 where "b1 = (if runStart \<ge> 0 then replace [] runStart (int ?n) b else b)"
    and "prev1 = (if runStart \<ge> 0 then int ?n else prev)"
  have b1: "builder_ok s b1" "0 \<le> prev1" "b_out b1 @ drop (nat prev1) s = visible_text s"
    using ok out replace_ok [OF ok(1), of runStart "int ?n" "[]"] by (auto simp: b1_def prev1_def)
  obtain b2 where b2: "keep s prev1 (int ?n) b1 = Some b2" "b_changed b2 = b_changed b1" "b_out b2 = visible_text s"
    using keep_ok [OF b1(1,2), of "int ?n"] b1(3) by auto
  have "\<not> b_changed b2 \<Longrightarrow> visible_text s = s"
  proof (rule nothing_hidden)
    fix j assume "\<not> b_changed b2" "j < ?n"
    then have "es = []" using ok(4) by (auto simp: b2(2) b1_def es_def runs_at_def split: if_splits)
    then show "\<not> hidden_byte s j" using spec(1) \<open>j < ?n\<close> by simp
  qed
  then obtain m where m: "builder_result s b2 = (visible_text s, m)" using b2(3) by (cases "b_changed b2") (auto simp: builder_result_def)
  have "stripInvisible s = Some (visible_text s, m, es)"
    using run b2(1) m by (simp add: stripInvisible_def Let_def b1_def prev1_def es_def runs_at_def split: if_splits)
  with spec show ?thesis by blast
qed

text \<open>An invisible rune has no ASCII byte, no more than any other rune beyond ASCII.\<close>

lemma high_rune_bytes:
  assumes "DecodeRune s = (r, w)" "0x80 \<le> r" "r \<noteq> RuneError" "c \<in> set (take w s)"
  shows "0x80 \<le> byte_of c"
proof (cases s)
  case (Cons c0 cs)
  then show ?thesis using assms
    by (auto simp: DecodeRune.simps(2) Let_def cont_byte_def second_lo_def split: if_splits list.splits)
qed (use assms in simp)

lemma invisible_bytes: "DecodeRune s = (r, w) \<Longrightarrow> unseen r \<Longrightarrow> c \<in> set (take w s) \<Longrightarrow> 0x80 \<le> byte_of c"
  by (rule high_rune_bytes) (auto simp: unseen_def RuneError_def)

lemma visible_bytes: "c \<in> set s \<Longrightarrow> byte_of c < 0x80 \<Longrightarrow> c \<in> set (visible_text s)"
proof (induction s rule: visible_text.induct)
  case (1 s)
  then have "s \<noteq> []" by auto
  obtain r w where d: "DecodeRune s = (r, w)" by fastforce
  have "set s = set (take w s) \<union> set (drop w s)" by (metis append_take_drop_id set_append)
  then show ?case
    using 1(2,3) "1.IH" [OF \<open>s \<noteq> []\<close> d [symmetric] refl] invisible_bytes [OF d] d \<open>s \<noteq> []\<close>
    by (fastforce simp: visible_text.simps [of s])
qed

lemma visible_ascii: "byte_of c < 0x80 \<Longrightarrow> visible_text (c # t) = c # visible_text t"
  by (simp add: visible_text.simps [of "c # t"] DecodeRune_ascii unseen_def)

end
