(* ===== verification/Plain_Text.thy ===== *)
theory Plain_Text
  imports Hidden_Text
begin

text \<open>
  Text the normalizer has nothing to do on: ASCII without the characters that open an entity, an escape or a JSON
  document, and without a run long enough to be a Base64 payload.
\<close>

section \<open>Plain text\<close>

definition base64_byte :: "char \<Rightarrow> bool" where
  "base64_byte c =
     ((CHR ''A'' \<le> c \<and> c \<le> CHR ''Z'') \<or> (CHR ''a'' \<le> c \<and> c \<le> CHR ''z'') \<or> (CHR ''0'' \<le> c \<and> c \<le> CHR ''9'')
      \<or> c \<in> {CHR ''+'', CHR ''/'', CHR ''_'', CHR ''-''})"

text \<open>\<open>short_runs k s\<close>: no 16 such bytes follow each other in \<open>s\<close>, \<open>k\<close> of them standing before it.\<close>

fun short_runs :: "nat \<Rightarrow> string \<Rightarrow> bool" where
  "short_runs k [] = True"
| "short_runs k (c # cs) = (if base64_byte c then k < 15 \<and> short_runs (k + 1) cs else short_runs 0 cs)"

definition plain :: "string \<Rightarrow> bool" where
  "plain s =
     (list_all (\<lambda>c. byte_of c < 0x80 \<and> c \<noteq> CHR ''&'' \<and> c \<noteq> CHR ''%'' \<and> c \<noteq> CHR ''{'' \<and> c \<noteq> CHR ''['') s
      \<and> short_runs 0 s)"

section \<open>No pass changes it\<close>

lemma short_runs_breaks:
  "short_runs k s \<Longrightarrow> 16 \<le> k + n \<Longrightarrow> n \<le> length s \<Longrightarrow> k \<le> 15 \<Longrightarrow> \<exists>j < n. \<not> base64_byte (s ! j)"
proof (induction k s arbitrary: n rule: short_runs.induct)
  case (2 k c cs)
  show ?case
  proof (cases "base64_byte c")
    case True
    then have "\<exists>j < n - 1. \<not> base64_byte (cs ! j)" using 2 by (intro "2.IH"(1)) auto
    then obtain j where "j < n - 1" "\<not> base64_byte (cs ! j)" by blast
    then show ?thesis by (intro exI [of _ "Suc j"]) auto
  next
    case False
    then show ?thesis using "2.prems" by (intro exI [of _ 0]) auto
  qed
qed auto

lemma short_runs_drop: "short_runs k s \<Longrightarrow> k \<le> 15 \<Longrightarrow> short_runs 0 (drop n s)"
proof (induction k s arbitrary: n rule: short_runs.induct)
  case (2 k c cs)
  have weak: "short_runs i s \<Longrightarrow> j \<le> i \<Longrightarrow> short_runs j s" for i j s
    by (induction i s arbitrary: j rule: short_runs.induct) auto
  show ?case
  proof (cases n)
    case 0
    then show ?thesis using weak [OF "2.prems"(1), of 0] by simp
  next
    case (Suc m)
    then show ?thesis using 2 by (cases "base64_byte c") auto
  qed
qed simp

text \<open>A repetition of one ASCII class needs as many bytes of it as its lower bound says.\<close>

lemma rep_class_bytes:
  assumes "\<And>p g st'. st' \<in> set (step (p, g)) \<Longrightarrow> good p \<and> fst st' = p + 1"
  shows "st' \<in> set (rep_loop n greedy step lo hi (p, g)) \<Longrightarrow> j < lo \<Longrightarrow> good (p + j)"
proof (induction n arbitrary: lo hi p g j)
  case 0
  then show ?case by (auto split: if_splits)
next
  case (Suc n)
  then obtain m where m: "m \<in> set (step (p, g))"
    "st' \<in> set (rep_loop n greedy step (lo - 1) (map_option (\<lambda>h. h - 1) hi) m)"
    by (auto simp: Let_def split: if_splits)
  have s: "good p" "fst m = p + 1" using assms [OF m(1)] by simp_all
  show ?case
  proof (cases j)
    case 0
    then show ?thesis using s by simp
  next
    case (Suc i)
    have "good (p + 1 + i)"
    proof (rule Suc.IH)
      show "st' \<in> set (rep_loop n greedy step (lo - 1) (map_option (\<lambda>h. h - 1) hi) (p + 1, snd m))"
        using m(2) s(2) by (cases m) simp
    qed (use Suc.prems(2) Suc in simp)
    then show ?thesis using Suc by simp
  qed
qed

lemma search_none: "(\<And>q. q \<le> length s \<Longrightarrow> match_at r s q = None) \<Longrightarrow> search r s p = None"
proof (induction r s p rule: search.induct)
  case (1 r s p)
  then show ?case by (simp add: search.simps [of r s p])
qed

lemma FindAll_none: "(\<And>q. q \<le> length s \<Longrightarrow> match_at r s q = None) \<Longrightarrow> FindAll r s = []"
  using search_none [of s r 0] by (simp add: FindAll_def all_matches.simps [of r s 0])

lemma base64_class:
  "in_class False [(65, 90), (97, 122), (48, 57), (43, 43), (47, 47), (95, 95), (45, 45)] (byte_of c) = base64_byte c"
  by (cases c) (auto simp: in_class_def base64_byte_def byte_of_def less_eq_char_def of_char_eq_iff)

definition base64_cls :: re where
  "base64_cls = cls [(CHR ''A'', CHR ''Z''), (CHR ''a'', CHR ''z''), (CHR ''0'', CHR ''9''),
     (CHR ''+'', CHR ''+''), (CHR ''/'', CHR ''/''), (CHR ''_'', CHR ''_''), (CHR ''-'', CHR ''-'')]"

lemma base64_cls_ends:
  assumes "\<forall>c \<in> set s. byte_of c < 0x80" "st' \<in> set (ends base64_cls s (p, g))"
  shows "(p < length s \<and> base64_byte (s ! p)) \<and> fst st' = p + 1"
proof (cases "p < length s")
  case True
  then have "DecodeRune (drop p s) = (byte_of (s ! p), 1)"
    using assms(1) by (simp add: DecodeRune_ascii flip: Cons_nth_drop_Suc)
  moreover have C: "base64_cls = Cls False [(65, 90), (97, 122), (48, 57), (43, 43), (47, 47), (95, 95), (45, 45)]"
    by (simp add: base64_cls_def cls_def byte_of_def)
  ultimately show ?thesis using assms(2) True unfolding C by (auto simp: base64_class split: if_splits)
qed (use assms(2) in \<open>simp add: base64_cls_def cls_def split_beta\<close>)

lemma no_base64_match:
  assumes "\<forall>c \<in> set s. byte_of c < 0x80" "short_runs 0 s"
  shows "FindAll base64Re s = []"
proof (rule FindAll_none)
  fix q assume "q \<le> length s"
  have "ends (atleast 16 base64_cls) s (q, None) = []"
  proof (rule ccontr)
    assume "ends (atleast 16 base64_cls) s (q, None) \<noteq> []"
    then obtain st' where "st' \<in> set (ends (atleast 16 base64_cls) s (q, None))" by (meson last_in_set)
    then have run: "q + j < length s \<and> base64_byte (s ! (q + j))" if "j < 16" for j
      using rep_class_bytes [where step = "ends base64_cls s" and good = "\<lambda>p. p < length s \<and> base64_byte (s ! p)"
          and st' = st' and n = "16 + length s" and greedy = True and lo = 16 and hi = None and p = q and g = None and j = j,
          OF base64_cls_ends [OF assms(1)]] that
      by (simp add: atleast_def)
    have "short_runs 0 (drop q s)" using short_runs_drop [OF assms(2)] by simp
    moreover have "16 \<le> length (drop q s)" using run [of 15] by simp arith
    ultimately obtain j where "j < 16" "\<not> base64_byte (drop q s ! j)"
      using short_runs_breaks [of 0 "drop q s" 16] by auto
    then show False using run [of j] \<open>q \<le> length s\<close> by simp
  qed
  then show "match_at base64Re s q = None" by (simp add: base64Re_def match_at_def base64_cls_def)
qed

lemma ascii_runes: "\<forall>c \<in> set s. byte_of c < 0x80 \<Longrightarrow> \<forall>(j, r) \<in> set (runes_from i s). r < 0x80"
proof (induction s arbitrary: i)
  case (Cons c s)
  then show ?case by (simp add: runes_from.simps [of i "c # s"] DecodeRune_ascii)
qed (simp add: runes_from.simps)

lemma strip_nothing: "\<forall>(j, r) \<in> set rs. r < 0x80 \<Longrightarrow> strip_loop s rs prev (-1) b ev = Some (prev, -1, b, ev)"
  by (induction rs) (auto simp: unseen_def)

lemma keep_unchanged: "0 \<le> n \<Longrightarrow> n \<le> int (length s) \<Longrightarrow> \<exists>b. keep s 0 n empty_builder = Some b \<and> \<not> b_changed b"
  by (auto simp: keep_def go_slice_def empty_builder_def Let_def)

lemma TrimSpace_subset: "set (TrimSpace s) \<subseteq> set s"
proof (cases "filter (\<lambda>(i, r). \<not> IsSpace r) (runes s)")
  case (Cons x xs)
  then obtain n m where "TrimSpace s = take n (drop m s)" by (simp add: TrimSpace_def Let_def)
  then show ?thesis using in_set_takeD in_set_dropD by (metis subsetI)
qed (simp add: TrimSpace_def)

lemma unmarked_passes:
  assumes "CHR ''&'' \<notin> set s" "CHR ''%'' \<notin> set s" "CHR ''{'' \<notin> set s" "CHR ''['' \<notin> set s"
  shows "extractJSON s = Some (untouched s)" "decodeEntities lib s = Some (untouched s)" "decodePercent s = Some (untouched s)"
proof -
  have "TrimSpace s = [] \<or> (hd (TrimSpace s) \<noteq> CHR ''{'' \<and> hd (TrimSpace s) \<noteq> CHR ''['')"
  proof (cases "TrimSpace s = []")
    case False
    then have "hd (TrimSpace s) \<in> set s" using subsetD [OF TrimSpace_subset hd_in_set] by blast
    then show ?thesis using assms(3,4) by metis
  qed simp
  then show "extractJSON s = Some (untouched s)" by (auto simp: extractJSON_def Let_def)
qed (use assms in \<open>simp_all add: decodeEntities_def decodePercent_def\<close>)

lemma plain_unmarked:
  "plain s \<Longrightarrow> (\<forall>c \<in> set s. byte_of c < 0x80) \<and> CHR ''&'' \<notin> set s \<and> CHR ''%'' \<notin> set s \<and> CHR ''{'' \<notin> set s \<and> CHR ''['' \<notin> set s"
  by (auto simp: plain_def list_all_iff)

lemma plain_late_passes:
  assumes "plain s" "nfkc_IsNormalString lib s"
  shows "expandBase64 lib s = Some (untouched s)" "nfkc lib s = Some (untouched s)"
proof -
  have "FindAll base64Re s = []" by (rule no_base64_match) (use assms(1) plain_unmarked in \<open>auto simp: plain_def\<close>)
  then show "expandBase64 lib s = Some (untouched s)" by (simp add: expandBase64_def payloads_def List.map_filter_simps Let_def)
qed (simp add: nfkc_def assms(2))

lemma ComposeOffsets_identity [simp]: "ComposeOffsets m [] = m" "ComposeOffsets [] m = m"
  by (simp_all add: ComposeOffsets_def Identity_def)

text \<open>Text that is plain once its invisible characters are gone.\<close>

lemma hidden_text_kept:
  assumes "plain (visible_text s)" "nfkc_IsNormalString lib (visible_text s)"
  shows "\<exists>m ev. Text lib s = Some (visible_text s, m, map (evidence_finding []) ev) \<and> stripInvisible s = Some (visible_text s, m, ev)"
proof -
  obtain m ev where strip: "stripInvisible s = Some (visible_text s, m, ev)" using stripInvisible_exact by blast
  have "c \<notin> set s" if "byte_of c < 0x80" "c \<notin> set (visible_text s)" for c
    using that visible_bytes by blast
  then have "CHR ''&'' \<notin> set s" "CHR ''%'' \<notin> set s" "CHR ''{'' \<notin> set s" "CHR ''['' \<notin> set s"
    using plain_unmarked [OF assms(1)] by (simp_all add: byte_of_def)
  note early = unmarked_passes [OF this]
  show ?thesis
    by (intro exI [of _ m] exI [of _ ev])
      (simp add: Text_def passes_def early plain_late_passes [OF assms] strip untouched_def)
qed

lemma plain_text_kept:
  assumes "plain s" "nfkc_IsNormalString lib s"
  shows "Text lib s = Some (s, [], [])"
proof -
  have low: "\<forall>c \<in> set s. byte_of c < 0x80" using plain_unmarked [OF assms(1)] by blast
  obtain b where b: "keep s 0 (int (length s)) empty_builder = Some b" "\<not> b_changed b" using keep_unchanged [of "int (length s)" s] by auto
  have "stripInvisible s = Some (untouched s)"
    using strip_nothing [OF ascii_runes [OF low], of s 0 0 empty_builder "[]"] b
    by (simp add: stripInvisible_def runes_def builder_result_def untouched_def Let_def)
  then show ?thesis
    using plain_unmarked [OF assms(1)] by (simp add: Text_def passes_def unmarked_passes plain_late_passes [OF assms] untouched_def)
qed

text \<open>The normalizer leaves plain text as it is: the same text, the identity as its offset map, and no finding of
  its own, whenever the NFKC library counts the text as normal.\<close>

theorem plain_text_untouched:
  assumes "plain s" "nfkc_IsNormalString lib s"
  shows "Text lib s = Some (s, [], [])"
  by (rule plain_text_kept [OF assms])

theorem plain_text_untouched_witness:
  "Text ascii_lib ''The plan costs 20 dollars a month.'' = Some (''The plan costs 20 dollars a month.'', [], [])"
proof -
  have "plain ''The plan costs 20 dollars a month.''" by code_simp
  then show ?thesis using plain_text_untouched [of "''The plan costs 20 dollars a month.''" ascii_lib]
    by (simp add: ascii_lib_def byte_of_def)
qed

text \<open>A part reaches the detectors as its text is normalized, whatever the other parts of its request hold.\<close>

lemma part_normalized:
  "normalize_parts lib k ps = Some (qs, ms, fs) \<Longrightarrow> i < length ps \<Longrightarrow> Text lib (p_text (ps ! i)) = Some (body, m, gs) \<Longrightarrow>
     i < length qs \<and> p_text (qs ! i) = body"
proof (induction ps arbitrary: k qs ms fs i)
  case (Cons p ps)
  then obtain body' m' gs' qs' ms' fss where t: "Text lib (p_text p) = Some (body', m', gs')"
    "normalize_parts lib (k + 1) ps = Some (qs', ms', fss)" "qs = p\<lparr>p_text := body'\<rparr> # qs'"
    by (auto split: option.splits)
  show ?case
  proof (cases i)
    case 0
    then show ?thesis using Cons.prems(3) t(1,3) by simp
  next
    case (Suc j)
    then show ?thesis using Cons.IH [OF t(2), of j] Cons.prems t(3) by simp
  qed
qed simp

lemma request_part_normalized:
  assumes "Normalizer_Normalize lib req = Some n" "i < length (r_parts req)" "Text lib (p_text (r_parts req ! i)) = Some (body, m, gs)"
  shows "i < length (r_parts (n_request n)) \<and> p_text (r_parts (n_request n) ! i) = body"
  using assms part_normalized [of lib 0 "r_parts req"] by (auto simp: Normalizer_Normalize_def split: option.splits)

text \<open>What the normalizer reports of a part is among the findings of the request, at that part.\<close>

definition at_part :: "nat \<Rightarrow> finding \<Rightarrow> finding" where
  "at_part i f = f\<lparr>f_span := (f_span f)\<lparr>span_part := int i\<rparr>\<rparr>"

lemma part_reported:
  "normalize_parts lib k ps = Some (qs, ms, fs) \<Longrightarrow> i < length ps \<Longrightarrow> Text lib (p_text (ps ! i)) = Some (body, m, gs) \<Longrightarrow>
     f \<in> set gs \<Longrightarrow> at_part (k + i) f \<in> set fs"
proof (induction ps arbitrary: k qs ms fs i)
  case (Cons p ps)
  then obtain body' m' gs' qs' ms' fss where t: "Text lib (p_text p) = Some (body', m', gs')"
    "normalize_parts lib (k + 1) ps = Some (qs', ms', fss)" "fs = map (at_part k) gs' @ fss"
    by (auto simp: at_part_def fun_eq_iff split: option.splits)
  show ?case
  proof (cases i)
    case 0
    then show ?thesis using Cons.prems(3,4) t(1,3) by simp
  next
    case (Suc j)
    then show ?thesis using Cons.IH [OF t(2), of j] Cons.prems t(3) by simp
  qed
qed simp

lemma request_part_reported:
  assumes "Normalizer_Normalize lib req = Some n" "i < length (r_parts req)" "Text lib (p_text (r_parts req ! i)) = Some (body, m, gs)"
    "f \<in> set gs"
  shows "at_part i f \<in> set (n_findings n)"
  using assms part_reported [of lib 0 "r_parts req"] by (fastforce simp: Normalizer_Normalize_def split: option.splits)

end
