(* ===== verification/Gateway.thy ===== *)
theory Gateway
  imports Mcp_Correct Llm_Correct E2e
begin

text \<open>
  \<open>internal/adapters/agentgateway/agentgateway.go\<close>: both gateway protocols over one inspector, on one gRPC server; and
  what follows from sharing it: an injection that arrives in a chat request is held against the agent's tool calls.
\<close>

section \<open>Registration\<close>

definition MaxMessageSize :: int where
  "MaxMessageSize = push_bit 20 32"

datatype grpc_option = MaxRecvMsgSize int | MaxSendMsgSize int

definition ServerOptions :: "grpc_option list" where
  "ServerOptions = [MaxRecvMsgSize MaxMessageSize, MaxSendMsgSize MaxMessageSize]"

text \<open>The two servers are the inspector they hold; their methods are \<open>Process\<close>, \<open>CheckRequest\<close> and \<open>CheckResponse\<close>.\<close>

record 's LLM =
  llm_Inspector :: "'s inspector"

record 's MCP =
  mcp_Inspector :: "'s inspector"

definition NewLLM :: "'s inspector \<Rightarrow> 's LLM" where
  "NewLLM inspect = \<lparr>llm_Inspector = inspect\<rparr>"

definition NewMCP :: "'s inspector \<Rightarrow> 's MCP" where
  "NewMCP inspect = \<lparr>mcp_Inspector = inspect\<rparr>"

text \<open>The registration functions of the generated packages are parameters.\<close>

definition Register_services :: "('g \<Rightarrow> 's LLM \<Rightarrow> 'g) \<Rightarrow> ('g \<Rightarrow> 's MCP \<Rightarrow> 'g) \<Rightarrow> 'g \<Rightarrow> 's inspector \<Rightarrow> 'g" where
  "Register_services registerExternalProcessor registerExtMcp s inspect =
     (let s = registerExternalProcessor s (NewLLM inspect) in registerExtMcp s (NewMCP inspect))"

section \<open>The tool messages of a chat request\<close>

text \<open>A chat request that is not blocked has had its tool messages inspected, last.\<close>

lemma tool_batch_inspected:
  assumes "\<And>req \<sigma>. \<exists>v \<sigma>'. inspect req \<sigma> = (Inr v, \<sigma>')"
    and "decodeJSON (ls_reqBody st) = Inr v" "isChat (ls_path st)" "fst (inspectRequest inspect st \<sigma>) \<noteq> Inr ([], True)"
    and tools_def: "tools = chat_batches (as_object v) ! 1" and "b_fields tools \<noteq> []"
  shows "\<exists>model \<sigma>1 verdict. inspect (batch_request st model tools) \<sigma>1 = (Inr verdict, snd (inspectRequest inspect st \<sigma>))"
proof -
  define chat where "chat = as_object v"
  define model where "model = as_string (value_at chat ''model'')"
  obtain prompts where batches: "chat_batches chat = [prompts, tools]" by (simp add: chat_batches_def tools_def chat_def)
  have all: "answers inspect" using assms(1) by (simp add: answers_def)
  obtain res \<sigma>' where run: "batches_loop inspect st model [prompts, tools] False (JObject chat) \<sigma> = (res, \<sigma>')" by fastforce
  have request: "inspectRequest inspect st \<sigma> = (case res of
        Inl err \<Rightarrow> (Inl err, \<sigma>')
      | Inr None \<Rightarrow> (Inr ([], True), \<sigma>')
      | Inr (Some (changed, chat')) \<Rightarrow> (if \<not> changed then Inr (ls_reqBody st, False) else encoded_body chat', \<sigma>'))"
    using assms(2,3) batches run
    by (simp add: inspectRequest_def Let_def chat_def [symmetric] model_def [symmetric] split: sum.splits option.splits)
  have "res \<noteq> Inr None"
  proof
    assume "res = Inr None"
    then show False using request assms(4) by simp
  qed
  moreover define \<sigma>1 where "\<sigma>1 = after_batch inspect st model prompts \<sigma>"
  ultimately have "\<not> batch_blocked inspect st model prompts \<sigma>"
    using run by (auto simp: batches_loop_step [OF all] simp del: batches_loop.simps)
  then obtain changed chat' where "batches_loop inspect st model [tools] changed chat' \<sigma>1 = (res, \<sigma>')"
    using run by (simp add: batches_loop_step [OF all] Let_def \<sigma>1_def del: batches_loop.simps)
  moreover obtain verdict \<sigma>2 where verdict: "inspect (batch_request st model tools) \<sigma>1 = (Inr verdict, \<sigma>2)" using assms(1) by blast
  ultimately have "\<sigma>' = \<sigma>2"
    using assms(6) by (auto simp: Let_def split: if_splits prod.splits)
  moreover have "snd (inspectRequest inspect st \<sigma>) = \<sigma>'"
    using request by (auto split: sum.splits option.splits)
  ultimately show ?thesis using verdict by blast
qed

section \<open>Properties\<close>

text \<open>C8: an injection on one route is held against the agent on the other: when a chat request with the sample
  server's video description among its \<open>tool\<close> messages has not been blocked, every MCP call of \<open>send_email\<close> in its
  session is denied until the ttl has passed, whatever is inspected in between.\<close>

theorem chat_injection_denies_email:
  assumes "nfkc_documented (sv_lib sv)" "ascii_normal (sv_lib sv)" "fast_registry libs (sv_registry sv)" "sv_policy sv = e2e_policy ver"
    and chat: "decodeJSON (ls_reqBody st) = Inr v" "isChat (ls_path st)" "ls_session st \<noteq> []"
    "(''tool'', f) \<in> set (chat_fields (as_object v))" "ctr_Content (get_video_description a) = [tf_text f]" "plain (va_VideoID a)"
    "fst (inspectRequest (serve sv) st w) \<noteq> Inr ([], True)"
    and call: "sv_ttl sv \<le> 0 \<or> waited hs < sv_ttl sv" "mq_method r = methodToolsCall" "decodeJSON (mq_params r) = Inr u"
    "as_string (value_at (as_object u) ''name'') = ''send_email''" "requestSession (mq_metadata r) (mq_headers r) = ls_session st"
  shows "fst (CheckRequest (serve sv) r (run_hops sv hs (snd (inspectRequest (serve sv) st w)))) = Inr denied"
proof -
  note doc = assms(1)
  have error: "detect_error sv req = None" for req by (simp add: detect_error_def fast_registry_facts(2) [OF assms(3)])
  define tools where "tools = chat_batches (as_object v) ! 1"
  have f: "(''tool'', f) \<in> set (b_fields tools)" "b_surface tools = SurfaceToolResult" using chat(4) by (simp_all add: tools_def chat_batches_def)
  then have "b_fields tools \<noteq> []" by auto
  then obtain model w1 verdict where tool: "serve sv (batch_request st model tools) w1 = (Inr verdict, snd (inspectRequest (serve sv) st w))"
    using tool_batch_inspected [OF _ chat(1,2,7) tools_def] serve_eq(1) [OF doc] by (metis prod.collapse)
  define req where "req = batch_request st model tools"
  obtain i where "i < length (b_fields tools)" "b_fields tools ! i = (''tool'', f)" using f(1) by (metis in_set_conv_nth)
  then have i: "i < length (r_parts req)" "p_text (r_parts req ! i) = tf_text f" by (simp_all add: req_def batch_request_def)
  have "found_by DetectorInjectionHeuristic (all_findings sv req)"
    by (rule phrase_found [OF assms(1-3) i(1) _ video_plain [OF chat(6)] ignore_instructions])
      (use i(2) chat(5) in \<open>simp_all add: video_reply video_lead_end\<close>)
  then have "v_taint_session verdict"
    using tool serve_eq(1) [OF doc, of req w1] f(2)
    by (simp add: req_def the_verdict_def error assms(4) e2e_evaluates decision_input_def normalized_fields [OF doc] batch_request_def)
  moreover define mail where "mail = call_request r (as_object u)"
  moreover define w2 where "w2 = run_hops sv hs (snd (inspectRequest (serve sv) st w))"
  ultimately have "is_tainted mail (w_mem w2)"
    using tainted_for_later_hops [OF doc, of req w1 verdict hs mail] tool call(1,5) chat(3)
    by (simp add: req_def mail_def batch_request_def call_request_def)
  then have "v_action (the_verdict sv mail (w_mem w2)) = ActionBlock"
    using call(4) by (intro decided_block [OF error])
      (simp add: assms(4) e2e_evaluates e2e_action_def Let_def decision_input_def normalized_fields [OF doc] mail_def call_request_def)
  then obtain v' w' where "serve sv mail w2 = (Inr v', w')" "v_action v' = ActionBlock"
    by (metis prod.collapse serve_eq(1) [OF doc])
  then show ?thesis
    using call(2,3) decodeJSON_nonempty [OF call(3)] by (simp add: CheckRequest_def Let_def mail_def w2_def)
qed

text \<open>A chat request with the description, and a call of \<open>send_email\<close> in the same session.\<close>

definition v42 :: videoArgs where
  "v42 = \<lparr>va_VideoID = ''v42''\<rparr>"

definition v42_text :: string where
  "v42_text = hd (ctr_Content (get_video_description v42))"

definition video_chat :: json where
  "video_chat = JObject [(''messages'', JArray [JObject [(''content'', JString v42_text), (''role'', JString ''tool'')]])]"

definition email_params :: json where
  "email_params = JObject [(''name'', JString ''send_email'')]"

lemma v42_plain: "plain (va_VideoID v42)" "ctr_Content (get_video_description v42) = [v42_text]"
proof -
  have "plain ''v42''" by code_simp
  then show "plain (va_VideoID v42)" by (simp add: v42_def)
qed (simp add: v42_text_def video_reply)

lemma ascii_valid: "ascii s \<Longrightarrow> ValidString s"
  by (induction s) (simp_all add: ascii_def ValidString_ascii ValidString.simps [of "[]"])

lemma payloads_ok: "json_ok video_chat" "json_ok email_params"
proof -
  have "ascii v42_text" by (rule plain_ascii) (use video_plain [OF v42_plain(1)] v42_plain(2) in \<open>simp add: video_reply\<close>)
  moreover have "ascii ''messages''" "ascii ''content''" "ascii ''role''" "ascii ''tool''" "ascii ''name''" "ascii ''send_email''" by code_simp+
  ultimately show "json_ok video_chat" "json_ok email_params"
    by (simp_all add: json_ok_def video_chat_def email_params_def maxNestingDepth_def ascii_valid)
qed

lemma decodable: "json_ok v \<Longrightarrow> \<exists>b. decodeJSON b = Inr v"
  using json_round_trip [of v] by (auto simp: decodeJSON_def split: option.splits)

lemma video_chat_fields:
  "chat_fields (as_object video_chat) = [(''tool'', \<lparr>tf_text = v42_text, tf_path = [Key ''messages'', Index 0, Key ''content'']\<rparr>)]"
  by (simp add: video_chat_def chat_fields_def message_fields_def messageText_def as_object_def as_array_def value_at_def
      stringField_def as_string_def under_def field_here_def)

lemma e2e_lets_results: "r_surface req = SurfaceToolResult \<Longrightarrow> v_action (the_verdict e2e_service req m) \<noteq> ActionBlock"
  by (simp add: the_verdict_def is_blocked_call_def names_tool_def detect_error_def fast_registry_facts(2) [OF e2e_service_facts(3)]
      e2e_service_facts(4) e2e_evaluates e2e_action_def decision_input_def normalized_fields [OF e2e_service_facts(1)] Let_def go_consts)

lemma chat_not_blocked:
  assumes "decodeJSON (ls_reqBody st) = Inr video_chat" "isChat (ls_path st)"
  shows "fst (inspectRequest (serve e2e_service) st w) \<noteq> Inr ([], True)"
proof -
  define b1 b2 where "b1 = chat_batches (as_object video_chat) ! 0" and "b2 = chat_batches (as_object video_chat) ! 1"
  have batches: "chat_batches (as_object video_chat) = [b1, b2]" "b_fields b1 = []" "b_surface b2 = SurfaceToolResult"
    by (simp_all add: chat_batches_def b1_def b2_def video_chat_fields)
  have all: "answers (serve e2e_service)"
    unfolding answers_def using serve_eq(1) [OF e2e_service_facts(1)] by (metis prod.collapse)
  have "v_action (the_verdict e2e_service (batch_request st model b2) m) \<noteq> ActionBlock" for model m
    by (rule e2e_lets_results) (simp add: batch_request_def batches(3))
  then have "\<not> batch_blocked (serve e2e_service) st model b1 w" "\<not> batch_blocked (serve e2e_service) st model b2 w" for model and w
    by (simp_all add: batch_blocked_def batches(2) serve_eq(1) [OF e2e_service_facts(1)])
  then show ?thesis
    using assms batches(1)
    by (simp add: inspectRequest_def batches_loop_step [OF all] Let_def encoded_body_def del: batches_loop.simps(2) split: sum.splits)
qed

theorem chat_injection_denies_email_witness:
  "\<exists>sv st r. fst (CheckRequest (serve sv) r (run_hops sv [Wait 99] (snd (inspectRequest (serve sv) st world0)))) = Inr denied"
proof -
  obtain raw call where raw: "decodeJSON raw = Inr video_chat" "decodeJSON call = Inr email_params"
    using decodable [OF payloads_ok(1)] decodable [OF payloads_ok(2)] by auto
  define st where "st = new_stream\<lparr>ls_path := ''/v1/chat/completions'', ls_session := ''s'', ls_reqBody := raw\<rparr>"
  define r where "r = \<lparr>mq_method = methodToolsCall, mq_params = call, mq_metadata = Some [(''session'', StringValue ''s'')], mq_headers = []\<rparr>"
  have st: "decodeJSON (ls_reqBody st) = Inr video_chat" "isChat (ls_path st)" "ls_session st = ''s''"
    using raw by (simp_all add: st_def isChat_def has_suffix_def)
  have r: "mq_method r = methodToolsCall" "decodeJSON (mq_params r) = Inr email_params"
    "requestSession (mq_metadata r) (mq_headers r) = ''s''" "as_string (value_at (as_object email_params) ''name'') = ''send_email''"
    using raw by (simp_all add: r_def requestSession_def metadataString_def email_params_def as_object_def value_at_def as_string_def)
  have ttl: "sv_ttl e2e_service = 100" by (simp add: e2e_service_def fast_service_def sample_service_def)
  have f: "(''tool'', \<lparr>tf_text = v42_text, tf_path = [Key ''messages'', Index 0, Key ''content'']\<rparr>) \<in> set (chat_fields (as_object video_chat))"
    by (simp add: video_chat_fields)
  have "fst (CheckRequest (serve e2e_service) r (run_hops e2e_service [Wait 99] (snd (inspectRequest (serve e2e_service) st world0)))) = Inr denied"
    by (rule chat_injection_denies_email [OF e2e_service_facts st(1,2) _ f _ v42_plain(1) chat_not_blocked [OF st(1,2)] _ r(1,2,4)])
      (simp_all add: st(3) r(3) v42_plain(2) ttl)
  then show ?thesis by blast
qed

end
