(* ===== verification/Litellm.thy ===== *)
theory Litellm
  imports Wire
begin

text \<open>
  \<open>internal/adapters/litellm/litellm.go\<close>: the three hooks of the guardrail API. The hook decides the
  surface, whatever the request says.
\<close>

definition PreCall :: "'s inspector \<Rightarrow> request \<Rightarrow> 's \<Rightarrow> verdict result \<times> 's" where
  "PreCall inspect req = inspect (req\<lparr>r_surface := SurfaceInput\<rparr>)"

definition DuringCall :: "'s inspector \<Rightarrow> request \<Rightarrow> 's \<Rightarrow> verdict result \<times> 's" where
  "DuringCall inspect req = inspect (req\<lparr>r_surface := SurfaceInput\<rparr>)"

definition PostCall :: "'s inspector \<Rightarrow> request \<Rightarrow> 's \<Rightarrow> verdict result \<times> 's" where
  "PostCall inspect req = inspect (req\<lparr>r_surface := SurfaceOutput\<rparr>)"

end
