(* ===== verification/Schedules.thy ===== *)
theory Schedules
  imports Concurrent_Correct
begin

text \<open>
  Runs as schedules that can be computed: which thread has the next turn, when a request arrives, what happens to
  the state meanwhile. No inspection waits for another, and one schedule shows what interleaving does to tool pins.
\<close>

section \<open>How many calls an inspection makes\<close>

primrec calls_left :: "prog \<Rightarrow> nat \<Rightarrow> bool" where
  "calls_left (Done v) = (\<lambda>n. True)"
| "calls_left (Call c k) = (\<lambda>n. 0 < n \<and> (\<forall>r. calls_left (k r) (n - 1)))"

lemma calls_left_mono: "calls_left p n \<Longrightarrow> n \<le> m \<Longrightarrow> calls_left p m"
proof (induction p arbitrary: n m)
  case (Call c k)
  have "calls_left (k r) (m - 1)" for r
  proof (rule Call.IH [of "k r" "n - 1" "m - 1"])
    show "k r \<in> range k" "calls_left (k r) (n - 1)" "n - 1 \<le> m - 1" using Call.prems by auto
  qed
  moreover have "0 < m" using Call.prems by simp
  ultimately show ?case by simp
qed simp

lemma read_stage:
  assumes "\<And>err. calls_left (failure err) n" "\<And>b. calls_left (k b) n"
  shows "calls_left (tainted_calls req failure k) (Suc n)" "calls_left (toolBlocked_calls req failure k) (Suc n)"
  using assms calls_left_mono [of "k False" n "Suc n"]
  by (simp_all add: tainted_calls_def toolBlocked_calls_def reply_or_fail_def split: sum.split)

lemma pin_stage:
  assumes "\<And>err. calls_left (failure err) (Suc n)" "\<And>err. calls_left (failure err) n" "\<And>b. calls_left (k b) n"
  shows "calls_left (checkPin_calls sv req failure k) (Suc (Suc n))"
  using assms calls_left_mono [of "k _" n "Suc n"] calls_left_mono [of "k False" n "Suc (Suc n)"]
  by (simp add: checkPin_calls_def reply_or_fail_def Let_def split: sum.split option.split)

lemma write_stage:
  assumes "\<And>err. calls_left (failure err) n" "calls_left done n"
  shows "calls_left (taint_calls sv req d failure done) (Suc n)" "calls_left (block_calls sv req v failure done) (Suc n)"
  using assms calls_left_mono [of "done" n "Suc n"]
  by (simp_all add: taint_calls_def block_calls_def reply_or_fail_def split: sum.split)

lemma emit_left: "calls_left (emit_calls sv req v start cause) 2"
  by (simp add: emit_calls_def)

lemma fail_left: "2 \<le> n \<Longrightarrow> calls_left (fail_calls sv req start err) n"
  using calls_left_mono [OF emit_left] by (simp add: fail_calls_def)

lemma decide_left: "calls_left (decide_calls sv req start n tainted changed blocked) 4"
proof -
  have "calls_left (taint_calls sv r d (fail_calls sv req start) (block_calls sv r v (fail_calls sv req start)
      (emit_calls sv req v start None))) (Suc (Suc 2))" for r d v
    by (intro write_stage) (simp_all add: fail_left emit_left)
  then show ?thesis
    using fail_left [of 4] by (simp add: decide_calls_def Let_def numeral_eq_Suc split: prod.split option.split)
qed

lemma tool_left:
  "calls_left (checkPin_calls sv req (fail_calls sv req start) (\<lambda>changed.
     toolBlocked_calls req (fail_calls sv req start) (decide_calls sv req start n tainted changed))) 6"
proof (cases "r_surface req = SurfaceToolDefinition")
  case True
  then have "toolBlocked_calls req failure k = k False" for failure k by (simp add: toolBlocked_calls_def go_consts)
  moreover have "calls_left (checkPin_calls sv req (fail_calls sv req start) (\<lambda>changed.
       decide_calls sv req start n tainted changed False)) (Suc (Suc 4))"
    by (rule pin_stage) (simp_all add: fail_left decide_left)
  ultimately show ?thesis by simp
next
  case False
  then have "checkPin_calls sv req failure k = k False" for failure k by (simp add: checkPin_calls_def)
  moreover have "calls_left (toolBlocked_calls req (fail_calls sv req start) (decide_calls sv req start n tainted False)) (Suc 4)"
    by (rule read_stage) (simp_all add: fail_left decide_left)
  ultimately show ?thesis using calls_left_mono by simp
qed

lemma inspect_left: "calls_left (inspect_calls sv req) 8"
proof -
  have "calls_left (tainted_calls r (fail_calls sv req start) (\<lambda>tainted.
      checkPin_calls sv req (fail_calls sv req start) (\<lambda>changed.
      toolBlocked_calls req (fail_calls sv req start) (decide_calls sv req start n tainted changed)))) (Suc 6)" for r start n
    by (rule read_stage) (simp_all add: fail_left tool_left)
  then show ?thesis using fail_left [of 7] by (simp add: inspect_calls_def Let_def split: option.split)
qed

text \<open>A schedule: requests received, turns of the threads, and what happens to the state meanwhile.\<close>

datatype 'e act = Receive request | Turn nat | Meanwhile "'e \<Rightarrow> 'e"

fun do_act :: "(call \<Rightarrow> 'e \<Rightarrow> reply \<times> 'e) \<Rightarrow> (request \<Rightarrow> prog) \<Rightarrow> 'e act \<Rightarrow> 'e conf \<Rightarrow> 'e conf" where
  "do_act perf start (Receive req) (ts, e) = (ts @ [(req, start req)], e)"
| "do_act perf start (Turn i) (ts, e) =
     (if i < length ts
      then case ts ! i of
          (req, Done v) \<Rightarrow> (ts, e)
        | (req, Call c k) \<Rightarrow> (case perf c e of (r, e') \<Rightarrow> (ts[i := (req, k r)], e'))
      else (ts, e))"
| "do_act perf start (Meanwhile f) (ts, e) = (ts, f e)"

fun do_acts :: "(call \<Rightarrow> 'e \<Rightarrow> reply \<times> 'e) \<Rightarrow> (request \<Rightarrow> prog) \<Rightarrow> 'e act list \<Rightarrow> 'e conf \<Rightarrow> 'e conf" where
  "do_acts perf start [] c = c"
| "do_acts perf start (a # as) c = do_acts perf start as (do_act perf start a c)"

fun turns :: "nat \<Rightarrow> 'e act list \<Rightarrow> nat" where
  "turns i [] = 0"
| "turns i (Turn j # as) = (if i = j then 1 else 0) + turns i as"
| "turns i (a # as) = turns i as"

text \<open>Schedules are exactly the runs of the step relation.\<close>

lemma do_act_step:
  assumes "\<And>f e. a = Meanwhile f \<Longrightarrow> moves e (f e)"
  shows "conc_run perf start moves c (do_act perf start a c)"
proof -
  obtain ts e where c: "c = (ts, e)" by fastforce
  note once = conc_run.Then [OF conc_run.Here]
  show ?thesis
  proof (cases a)
    case (Receive req)
    then show ?thesis using once [OF conc_step.Arrives] by (simp add: c)
  next
    case (Turn i)
    show ?thesis
    proof (cases "i < length ts")
      case True
      obtain req p where t: "ts ! i = (req, p)" by fastforce
      show ?thesis
      proof (cases p)
        case (Call cl k)
        obtain r e' where "perf cl e = (r, e')" by fastforce
        then show ?thesis using once [OF conc_step.Goes] True t Call by (simp add: c Turn)
      qed (simp add: c Turn t conc_run.Here)
    qed (simp add: c Turn conc_run.Here)
  next
    case (Meanwhile f)
    have "conc_step perf start moves (ts, e) (ts, f e)" by (rule conc_step.Acts) (rule assms [OF Meanwhile])
    then show ?thesis using once Meanwhile by (simp add: c)
  qed
qed

lemma step_do_act:
  assumes "conc_step perf start moves c c'"
  shows "\<exists>a. do_act perf start a c = c'"
  using assms
proof (cases rule: conc_step.cases)
  case (Arrives ts e req)
  then show ?thesis by (intro exI [of _ "Receive req"]) simp
next
  case (Goes i ts req cl k e r e')
  then show ?thesis by (intro exI [of _ "Turn i"]) simp
next
  case (Acts e e' ts)
  then show ?thesis by (intro exI [of _ "Meanwhile (\<lambda>_. e')"]) simp
qed

lemma turn_progress:
  "fst c ! i = (req, p) \<Longrightarrow> i < length (fst c) \<Longrightarrow> calls_left p n \<Longrightarrow> n \<le> turns i as \<Longrightarrow>
     \<exists>v. fst (do_acts perf start as c) ! i = (req, Done v)"
proof (induction as arbitrary: c p n)
  case Nil
  then show ?case by (cases p) auto
next
  case (Cons a as)
  obtain ts e where c: "c = (ts, e)" by fastforce
  show ?case
  proof (cases a)
    case (Receive req')
    then show ?thesis using Cons.IH [of "do_act perf start a c" p n] Cons.prems by (simp add: c nth_append)
  next
    case (Meanwhile f)
    then show ?thesis using Cons.IH [of "do_act perf start a c" p n] Cons.prems by (simp add: c)
  next
    case (Turn j)
    show ?thesis
    proof (cases "i = j")
      case False
      have "fst (do_act perf start a c) ! i = (req, p) \<and> i < length (fst (do_act perf start a c))"
        using False Cons.prems by (auto simp: c Turn split: prod.split prog.split)
      then show ?thesis using Cons.IH [of "do_act perf start a c" p n] Cons.prems False by (simp add: Turn)
    next
      case True
      show ?thesis
      proof (cases p)
        case (Done v)
        then show ?thesis using Cons.IH [of c p 0] Cons.prems True by (simp add: c Turn)
      next
        case (Call cl k)
        obtain r e' where "perf cl e = (r, e')" by fastforce
        then show ?thesis
          using Cons.IH [of "do_act perf start a c" "k r" "n - 1"] Cons.prems True Call by (simp add: c Turn)
      qed
    qed
  qed
qed

section \<open>Properties\<close>

text \<open>C11: no inspection waits for another: whatever the schedule and whatever the calls answer, a request has its
  verdict after at most eight turns of its own thread, each one call of the store, the sink or the clock.\<close>

theorem finishes_in_eight_turns:
  assumes "8 \<le> turns (length ts) as"
  shows "\<exists>v. fst (do_acts perf start as (ts @ [(req, inspect_calls sv req)], e)) ! length ts = (req, Done v)"
  by (rule turn_progress [OF _ _ inspect_left assms]) simp_all

theorem finishes_in_eight_turns_witness:
  "\<exists>sv v. fst (do_acts (perform (service_pipeline sv)) (inspect_calls sv)
       (Receive (text_request SurfaceInput ''t'' [] ''hi'') # concat (replicate 8 [Turn 1, Meanwhile id, Turn 0]))
       ([(text_request SurfaceToolResult ''s'' ''web'' ''page'',
          inspect_calls sv (text_request SurfaceToolResult ''s'' ''web'' ''page''))], world0)) ! 0
     = (text_request SurfaceToolResult ''s'' ''web'' ''page'', Done v)"
  using finishes_in_eight_turns [of "[]" "Receive (text_request SurfaceInput ''t'' [] ''hi'') # concat (replicate 8 [Turn 1, Meanwhile id, Turn 0])"
      "perform (service_pipeline (sample_service [] None []))" "inspect_calls (sample_service [] None [])"
      "text_request SurfaceToolResult ''s'' ''web'' ''page''" "sample_service [] None []" world0]
  by (auto simp: numeral_eq_Suc)

end
