(* ===== verification/Pin_Race.thy ===== *)
theory Pin_Race
  imports Concurrent_Correct
begin

text \<open>
  \<open>checkPin\<close> looks a tool's pin up and writes it in two calls. Two definitions of one tool that arrive together can
  both find no pin: neither is seen as a change, and the second write replaces the first.
\<close>

section \<open>What a program alone keeps and decides\<close>

lemma run_keeps:
  assumes "\<And>c e r e'. P c \<Longrightarrow> perform p c e = (r, e') \<Longrightarrow> f e' = f e"
  shows "every_call P prog \<Longrightarrow> f (snd (run_alone p prog e)) = f e"
proof (induction prog arbitrary: e)
  case (Call c k)
  obtain r e' where c: "perform p c e = (r, e')" by fastforce
  then show ?case using Call.IH [of "k r" e'] Call.prems assms [OF _ c] by simp
qed simp

lemma meets_run:
  assumes "\<And>c e r e'. perform p c e = (r, e') \<Longrightarrow> may c r"
  shows "meets may Q prog \<Longrightarrow> Q (fst (run_alone p prog e))"
proof (induction prog arbitrary: e)
  case (Call c k)
  obtain r e' where c: "perform p c e = (r, e')" by fastforce
  then show ?case using Call.IH [of "k r" e'] Call.prems assms [OF c] by simp
qed simp

definition spares_pins :: "call \<Rightarrow> bool" where
  "spares_pins c = (\<forall>s t h ttl. c \<noteq> PinToolCall s t h ttl)"

lemma decide_spares: "every_call spares_pins (decide_calls sv req start n tainted changed blocked)"
  by (simp add: decide_calls_def taint_calls_def block_calls_def reply_or_fail_def fail_calls_def emit_calls_def Let_def
      spares_pins_def split: prod.split option.split sum.split)

lemma perform_spares:
  assumes "spares_pins c" "perform (service_pipeline sv) c w = (r, w')"
  shows "mem_pin (w_mem w') = mem_pin (w_mem w)"
  using perform_mem(1) [OF assms(2)] assms(1) Mem_Tainted_spec Mem_ToolPin_spec Mem_ToolBlocked_spec Mem_Taint_spec Mem_BlockTool_spec
  by (cases c) (simp_all add: op_of_def spares_pins_def)

section \<open>A definition that has found no pin\<close>

definition unpinned_rest :: "service \<Rightarrow> request \<Rightarrow> time \<Rightarrow> bool \<Rightarrow> prog" where
  "unpinned_rest sv req start tainted =
     Call (PinToolCall (r_session req) (r_source req) (ContentHash (sv_sha sv) req) (sv_ttl sv)) (\<lambda>r.
       reply_or_fail (unit_of r) (fail_calls sv req start)
         (\<lambda>_. decide_calls sv req start (normalized sv req) tainted False False))"

lemma finds_no_pin:
  assumes doc: "nfkc_documented (sv_lib sv)" and tool: "names_tool SurfaceToolDefinition req"
    and none: "mem_pin (w_mem w) (r_session req) (r_source req) = None"
    and i: "i < length ts" "ts ! i = (req, inspect_calls sv req)"
  shows "\<exists>start w'. service_run sv till (ts, w) (ts[i := (req, unpinned_rest sv req start (mem_taint (w_mem w) (r_session req)))], w')
    \<and> mem_taint (w_mem w') = mem_taint (w_mem w) \<and> mem_pin (w_mem w') = mem_pin (w_mem w)"
proof -
  let ?p = "service_pipeline sv" and ?s = "r_session req" and ?t = "r_source req"
  define start where "start = m_now (w_mem w)"
  define pin where "pin = (\<lambda>tainted. checkPin_calls sv req (fail_calls sv req start) (\<lambda>changed.
      toolBlocked_calls req (fail_calls sv req start) (decide_calls sv req start (normalized sv req) tainted changed)))"
  define k1 where "k1 = (\<lambda>r. reply_or_fail (flag_of r) (fail_calls sv req start) pin)"
  define k2 where "k2 = (\<lambda>r. reply_or_fail (pin_of r) (fail_calls sv req start) (\<lambda>h. case h of
      None \<Rightarrow> unpinned_rest sv req start (mem_taint (w_mem w) ?s)
    | Some approved \<Rightarrow> decide_calls sv req start (normalized sv req) (mem_taint (w_mem w) ?s) (approved \<noteq> ContentHash (sv_sha sv) req) False))"
  define w1 w2 where "w1 = w\<lparr>w_mem := snd (Mem_Tainted ?s (w_mem w))\<rparr>" and "w2 = w1\<lparr>w_mem := snd (Mem_ToolPin ?s ?t (w_mem w1))\<rparr>"
  have views: "mem_taint (w_mem w1) = mem_taint (w_mem w)" "mem_pin (w_mem w1) = mem_pin (w_mem w)"
    "mem_taint (w_mem w2) = mem_taint (w_mem w)" "mem_pin (w_mem w2) = mem_pin (w_mem w)"
    using Mem_Tainted_spec [of ?s "w_mem w"] Mem_ToolPin_spec [of ?s ?t "w_mem w1"] by (simp_all add: w1_def w2_def)
  obtain k0 where k0: "inspect_calls sv req = Call NowCall k0" "k0 (TimeReply start) = Call (TaintedCall ?s) k1"
    using tool normalized_eq(1) [OF doc, of req] normalized_fields(1) [OF doc, of req]
    by (simp add: inspect_calls_def tainted_calls_def time_of_def names_tool_def k1_def pin_def Let_def)
  have k1: "k1 (FlagReply (Inr (mem_taint (w_mem w) ?s))) = Call (ToolPinCall ?s ?t) k2"
    using tool by (simp add: k1_def k2_def pin_def flag_of_def reply_or_fail_def checkPin_calls_def toolBlocked_calls_def
        names_tool_def unpinned_rest_def go_consts Let_def cong: option.case_cong)
  have calls: "perform ?p NowCall w = (TimeReply start, w)"
    "perform ?p (TaintedCall ?s) w = (FlagReply (Inr (mem_taint (w_mem w) ?s)), w1)"
    "perform ?p (ToolPinCall ?s ?t) w1 = (PinReply (Inr None), w2)"
    using Mem_Tainted_spec [of ?s "w_mem w"] Mem_ToolPin_spec [of ?s ?t "w_mem w1"] none
    by (simp_all add: service_pipeline_def wiring start_def w1_def w2_def apfst_def map_prod_def views)
  have step: "service_run sv till (us, e) (us[i := (req, k r)], e')"
    if "i < length us" "us ! i = (req, Call c k)" "perform ?p c e = (r, e')" for us e c k r e'
    unfolding service_run_def by (rule conc_run.Then [OF conc_run.Here])
      (use that in \<open>intro conc_step.Goes [where c = c and k = k]\<close>)
  have "service_run sv till (ts, w) (ts[i := (req, Call (TaintedCall ?s) k1)], w)"
    using step [of ts NowCall k0 w] i k0 calls(1) by simp
  moreover have "service_run sv till (ts[i := (req, Call (TaintedCall ?s) k1)], w) (ts[i := (req, Call (ToolPinCall ?s ?t) k2)], w1)"
    using step [of "ts[i := (req, Call (TaintedCall ?s) k1)]" "TaintedCall ?s" k1 w] i k1 calls(2) by simp
  moreover have "service_run sv till (ts[i := (req, Call (ToolPinCall ?s ?t) k2)], w1)
      (ts[i := (req, unpinned_rest sv req start (mem_taint (w_mem w) ?s))], w2)"
    using step [of "ts[i := (req, Call (ToolPinCall ?s ?t) k2)]" "ToolPinCall ?s ?t" k2 w1] i calls(3)
    by (simp add: k2_def pin_of_def reply_or_fail_def)
  ultimately show ?thesis using views unfolding service_run_def by (meson conc_run_trans)
qed

definition unchanged_verdict :: "service \<Rightarrow> request \<Rightarrow> bool \<Rightarrow> verdict" where
  "unchanged_verdict sv req tainted =
     (case detect_error sv req of
        Some err \<Rightarrow> refusal sv
      | None \<Rightarrow> decided_verdict False (all_findings sv req) (Evaluate (sv_policy sv) (read_input sv req tainted False)))"

lemma unpinned_ends:
  assumes doc: "nfkc_documented (sv_lib sv)" and tool: "names_tool SurfaceToolDefinition req"
  shows "\<exists>w'. run_alone (service_pipeline sv) (unpinned_rest sv req start tainted) w = (unchanged_verdict sv req tainted, w')
    \<and> mem_pin (w_mem w') (r_session req) (r_source req) = Some (ContentHash (sv_sha sv) req)"
proof -
  let ?p = "service_pipeline sv" and ?d = "decide_calls sv req start (normalized sv req) tainted False False"
  let ?put = "PinToolCall (r_session req) (r_source req) (ContentHash (sv_sha sv) req) (sv_ttl sv)"
  obtain r w1 where put: "perform ?p ?put w = (r, w1)" by fastforce
  have w1: "mem_pin (w_mem w1) (r_session req) (r_source req) = Some (ContentHash (sv_sha sv) req)"
    using perform_mem(1) [OF put] Mem_PinTool_spec [of "r_session req" "r_source req"] by (simp add: op_of_def)
  have r: "r = UnitReply (Inr ())" using perform_mem(2) [OF put] by (simp add: answered_def)
  have "meets answered (\<lambda>v. v = unchanged_verdict sv req tainted) ?d"
    by (rule decide_meets [OF doc]) (auto simp: unchanged_verdict_def split: option.splits)
  then have v: "fst (run_alone ?p ?d w1) = unchanged_verdict sv req tainted"
    by (rule meets_run [rotated]) (rule perform_mem(2))
  have keep: "mem_pin (w_mem (snd (run_alone ?p ?d w1))) = mem_pin (w_mem w1)"
    by (rule run_keeps [where P = spares_pins and f = "\<lambda>w. mem_pin (w_mem w)", OF _ decide_spares]) (rule perform_spares)
  have "run_alone ?p (unpinned_rest sv req start tainted) w = run_alone ?p ?d w1"
    by (simp add: unpinned_rest_def put [simplified] r unit_of_def reply_or_fail_def)
  then show ?thesis using v keep w1 by (metis prod.collapse)
qed

section \<open>The race\<close>

text \<open>C10: two definitions of a tool no one has pinned, with different contents, can arrive so close together that
  both are judged as unchanged, whatever the rules say of changed pins, and the pin that is left is the second's.
  One after the other, the second is reported as a change and the first pin is kept.\<close>

theorem concurrent_definitions_race:
  assumes "nfkc_documented (sv_lib sv)" "names_tool SurfaceToolDefinition a"
    "r_surface b = SurfaceToolDefinition" "r_session b = r_session a" "r_source b = r_source a"
    "mem_pin (w_mem w) (r_session a) (r_source a) = None"
  shows "\<exists>w'. service_run sv None ([], w)
      ([(a, Done (unchanged_verdict sv a (mem_taint (w_mem w) (r_session a)))),
        (b, Done (unchanged_verdict sv b (mem_taint (w_mem w) (r_session a))))], w')
    \<and> mem_pin (w_mem w') (r_session a) (r_source a) = Some (ContentHash (sv_sha sv) b)"
proof -
  note doc = assms(1)
  have b: "names_tool SurfaceToolDefinition b" using assms(2-5) by (simp add: names_tool_def)
  let ?t = "mem_taint (w_mem w) (r_session a)"
  let ?run = "service_run sv None"
  let ?ts = "[(a, inspect_calls sv a), (b, inspect_calls sv b)]"
  have "?run ([], w) ([(a, inspect_calls sv a)], w)" by (rule request_waits)
  moreover have "?run ([(a, inspect_calls sv a)], w) (?ts, w)"
    using conc_run.Then [OF conc_run.Here conc_step.Arrives, of _ _ _ "[(a, inspect_calls sv a)]" w b] by (simp add: service_run_def)
  ultimately have arrive: "?run ([], w) (?ts, w)" unfolding service_run_def by (rule conc_run_trans [rotated])
  obtain s1 w1 where one: "?run (?ts, w) ([(a, unpinned_rest sv a s1 ?t), (b, inspect_calls sv b)], w1)"
    "mem_taint (w_mem w1) = mem_taint (w_mem w)" "mem_pin (w_mem w1) = mem_pin (w_mem w)"
    using finds_no_pin [OF doc assms(2,6), of 0 ?ts None] by auto
  have "mem_pin (w_mem w1) (r_session b) (r_source b) = None" using one(3) assms(4-6) by simp
  from finds_no_pin [OF doc b this, of 1 "[(a, unpinned_rest sv a s1 ?t), (b, inspect_calls sv b)]" None]
  obtain s2 w2 where two: "?run ([(a, unpinned_rest sv a s1 ?t), (b, inspect_calls sv b)], w1)
      ([(a, unpinned_rest sv a s1 ?t), (b, unpinned_rest sv b s2 ?t)], w2)"
    using one(2) assms(4) by auto
  obtain w3 where a3: "run_alone (service_pipeline sv) (unpinned_rest sv a s1 ?t) w2 = (unchanged_verdict sv a ?t, w3)"
    using unpinned_ends [OF doc assms(2)] by blast
  obtain w4 where b4: "run_alone (service_pipeline sv) (unpinned_rest sv b s2 ?t) w3 = (unchanged_verdict sv b ?t, w4)"
    and pin: "mem_pin (w_mem w4) (r_session b) (r_source b) = Some (ContentHash (sv_sha sv) b)"
    using unpinned_ends [OF doc b] by blast
  have "?run ([(a, unpinned_rest sv a s1 ?t), (b, unpinned_rest sv b s2 ?t)], w2)
      ([(a, Done (unchanged_verdict sv a ?t)), (b, unpinned_rest sv b s2 ?t)], w3)"
    using alone_run_at [OF a3, of 0 "[(a, unpinned_rest sv a s1 ?t), (b, unpinned_rest sv b s2 ?t)]" a] by (simp add: service_run_def)
  moreover have "?run ([(a, Done (unchanged_verdict sv a ?t)), (b, unpinned_rest sv b s2 ?t)], w3)
      ([(a, Done (unchanged_verdict sv a ?t)), (b, Done (unchanged_verdict sv b ?t))], w4)"
    using alone_run_at [OF b4, of 1 "[(a, Done (unchanged_verdict sv a ?t)), (b, unpinned_rest sv b s2 ?t)]" b]
    by (simp add: service_run_def)
  ultimately have "?run ([], w) ([(a, Done (unchanged_verdict sv a ?t)), (b, Done (unchanged_verdict sv b ?t))], w4)"
    using arrive one(1) two unfolding service_run_def by (meson conc_run_trans)
  then show ?thesis using pin assms(4,5) by auto
qed

lemma unpinned_allowed:
  assumes "nfkc_documented (sv_lib sv)" "pol_rules (sv_policy sv) = [pin_rule]" "detect_error sv req = None"
  shows "v_action (unchanged_verdict sv req tainted) = ActionAllow"
  using assms by (simp add: unchanged_verdict_def Evaluate_action state_rule_hit read_input_def MostSevere_def)

theorem concurrent_definitions_race_witness:
  "\<exists>sv v v' w'. pin_rule \<in> set (pol_rules (sv_policy sv))
     \<and> service_run sv None ([], world0)
         ([(text_request SurfaceToolDefinition ''s'' ''mail'' ''sends mail'', Done v),
           (text_request SurfaceToolDefinition ''s'' ''mail'' ''sends mail and files'', Done v')], w')
     \<and> v_action v = ActionAllow \<and> v_action v' = ActionAllow"
proof -
  define sv where "sv = sample_service [] None [pin_rule]"
  note doc = sample_service_doc [of "[]" None "[pin_rule]", folded sv_def]
  let ?a = "text_request SurfaceToolDefinition ''s'' ''mail'' ''sends mail''"
  let ?b = "text_request SurfaceToolDefinition ''s'' ''mail'' ''sends mail and files''"
  have rules: "pol_rules (sv_policy sv) = [pin_rule]" and noerr: "detect_error sv req = None" for req
    by (simp_all add: sv_def sample_detect_error)
  have "mem_pin (w_mem world0) ''s'' ''mail'' = None" by (simp add: world0_def NewMemory_def mem_pin_def live_entry_def)
  with concurrent_definitions_race [OF doc, of ?a ?b world0]
  obtain w' where "service_run sv None ([], world0)
      ([(?a, Done (unchanged_verdict sv ?a (mem_taint (w_mem world0) ''s''))),
        (?b, Done (unchanged_verdict sv ?b (mem_taint (w_mem world0) ''s'')))], w')"
    by (auto simp: names_tool_def)
  then show ?thesis
    using unpinned_allowed [OF doc rules noerr] rules by (intro exI conjI) (simp_all only: list.set insert_iff simp_thms)
qed

end
