(* ===== verification/Eval.thy ===== *)
theory Eval
  imports Fast_Set "HOL-Library.AList"
begin

text \<open>
  \<open>cmd/eval/eval.go\<close>: the scoring of the detectors against a labelled corpus, and the gate that
  compares the scores with a baseline. Reading the corpus goes through a file system and a JSON
  decoder that are parameters. A Go map is an association list with distinct keys, whose order
  stands for the order the map happens to be ranged over in. A score is the rational number that the
  \<open>float64\<close> is, and every operation on scores rounds as the code's does (\<open>f64\<close>); a multiplication and
  an addition are two roundings, as on amd64. Counts of cases stay exact below \<open>2\<^sup>5\<^sup>3\<close>.
\<close>

section \<open>Data\<close>

record label =
  lb_Detector :: string
  lb_Type :: string

definition Label_String :: "label \<Rightarrow> string" where
  "Label_String l = lb_Detector l @ ''/'' @ lb_Type l"

record eval_case =
  cs_ID :: string
  cs_Note :: string
  cs_Surface :: string
  cs_Text :: string
  cs_Expect :: "label list"
  cs_Synthetic :: bool
  cs_Dict :: "string list"
  cs_AllowedDomains :: "string list"

record case_result =
  rs_ID :: string
  rs_Expected :: "string list"
  rs_Produced :: "string list"
  rs_Missing :: "string list"
  rs_Extra :: "string list"
  rs_Pass :: bool

record counts =
  ct_TP :: int
  ct_FP :: int
  ct_FN :: int

record score =
  sc_Counts :: counts
  sc_Precision :: rat
  sc_Recall :: rat
  sc_F1 :: rat

record summary =
  sm_Cases :: int
  sm_Negatives :: int
  sm_FPRate :: rat
  sm_PerDetector :: "(string \<times> score) list"
  sm_PerCase :: "(string \<times> bool) list"

section \<open>Numbers\<close>

text \<open>A conversion to \<open>int\<close> truncates toward zero.\<close>

definition to_int :: "rat \<Rightarrow> int" where
  "to_int x = (if x < 0 then \<lceil>x\<rceil> else \<lfloor>x\<rfloor>)"

definition round4 :: "rat \<Rightarrow> rat" where
  "round4 f = f64 (of_int (to_int (f64 (f64 (f * 10000) + 1 / 2))) / 10000)"

definition ratio :: "int \<Rightarrow> int \<Rightarrow> rat" where
  "ratio num den = (if den = 0 then 1 else round4 (f64 (of_int num / of_int den)))"

section \<open>The corpus\<close>

record eval_host =
  eh_Glob :: "string \<Rightarrow> string list result"
  eh_unmarshal_cases :: "string \<Rightarrow> eval_case list result"

text \<open>\<open>read\<close> is \<open>os.ReadFile\<close>; the directory's pattern is the one for the files with the suffix \<open>.json\<close>.\<close>

fun load_batches :: "eval_host \<Rightarrow> (string \<Rightarrow> string result) \<Rightarrow> string list \<Rightarrow> eval_case list \<Rightarrow> eval_case list result" where
  "load_batches h read [] cs = Inr cs"
| "load_batches h read (p # ps) cs =
     (case read p of
        Inl err \<Rightarrow> Inl err
      | Inr data \<Rightarrow>
          (case eh_unmarshal_cases h data of
             Inl err \<Rightarrow> Inl (Wrap p err)
           | Inr batch \<Rightarrow> load_batches h read ps (cs @ batch)))"

fun duplicate_id :: "string set \<Rightarrow> eval_case list \<Rightarrow> string option" where
  "duplicate_id seen [] = None"
| "duplicate_id seen (c # cs) =
     (if cs_ID c \<in> seen then Some (cs_ID c) else duplicate_id (insert (cs_ID c) seen) cs)"

definition LoadCases :: "eval_host \<Rightarrow> (string \<Rightarrow> string result) \<Rightarrow> string \<Rightarrow> eval_case list result" where
  "LoadCases h read dir =
     (case eh_Glob h dir of
        Inl err \<Rightarrow> Inl err
      | Inr paths \<Rightarrow>
          (case load_batches h read (sort paths) [] of
             Inl err \<Rightarrow> Inl err
           | Inr cs \<Rightarrow>
               (case duplicate_id {} cs of
                  Some i \<Rightarrow> Inl (ErrorText (''duplicate case id: '' @ i))
                | None \<Rightarrow> Inr cs)))"

section \<open>Running a case\<close>

text \<open>The sets of labels are lists without repetitions. \<open>keys\<close> sorts one.\<close>

definition keys :: "string list \<Rightarrow> string list" where
  "keys m = sort m"

definition produced_labels :: "finding list \<Rightarrow> string list" where
  "produced_labels fs =
     fold (\<lambda>f m. List.insert (Label_String \<lparr>lb_Detector = f_detector f, lb_Type = f_type f\<rparr>) m) fs []"

definition expected_labels :: "label list \<Rightarrow> string list" where
  "expected_labels ls = fold (\<lambda>l m. List.insert (Label_String l) m) ls []"

definition compare_labels :: "string \<Rightarrow> string list \<Rightarrow> string list \<Rightarrow> case_result" where
  "compare_labels i expected produced =
     (let missing = sort (filter (\<lambda>l. l \<notin> set produced) expected);
          extra = sort (filter (\<lambda>l. l \<notin> set expected) produced)
      in \<lparr>rs_ID = i, rs_Expected = keys expected, rs_Produced = keys produced, rs_Missing = missing, rs_Extra = extra,
          rs_Pass = (length missing = 0 \<and> length extra = 0)\<rparr>)"

text \<open>The normalizer returns no error; \<^const>\<open>None\<close> is a panic in it.\<close>

definition Run :: "detect_libs \<Rightarrow> text_lib \<Rightarrow> eval_case \<Rightarrow> case_result result option" where
  "Run libs lib c =
     (case NewCustomDict (dl_compile libs) (cs_Dict c) [] of
        Inl err \<Rightarrow> Some (Inl err)
      | Inr dict \<Rightarrow>
     (case V1 libs (Some dict) (cs_AllowedDomains c) of
        Inl err \<Rightarrow> Some (Inl err)
      | Inr registry \<Rightarrow>
     (let req = zero_request\<lparr>r_surface := cs_Surface c, r_parts := [\<lparr>p_role = [], p_text = cs_Text c, p_trust = []\<rparr>]\<rparr> in
     (case Normalizer_Normalize lib req of
        None \<Rightarrow> None
      | Some n \<Rightarrow>
     (case Registry_Detect registry (n_request n) of
        (_, Some err) \<Rightarrow> Some (Inl err)
      | (findings, None) \<Rightarrow>
          Some (Inr (compare_labels (cs_ID c) (expected_labels (cs_Expect c)) (produced_labels (findings @ n_findings n)))))))))"

section \<open>Scoring\<close>

fun detector_loop :: "string \<Rightarrow> string \<Rightarrow> string" where
  "detector_loop label [] = label"
| "detector_loop label (c # cs) =
     (if c = CHR ''/'' then take (length label - length (c # cs)) label else detector_loop label cs)"

definition detectorOf :: "string \<Rightarrow> string" where
  "detectorOf label = detector_loop label label"

fun contains :: "string list \<Rightarrow> string \<Rightarrow> bool" where
  "contains [] s = False"
| "contains (v # vs) s = (if v = s then True else contains vs s)"

definition zero_counts :: counts where
  "zero_counts = \<lparr>ct_TP = 0, ct_FP = 0, ct_FN = 0\<rparr>"

type_synonym count_map = "(string \<times> counts) list"

definition at_detector :: "string \<Rightarrow> (counts \<Rightarrow> counts) \<Rightarrow> count_map \<Rightarrow> count_map" where
  "at_detector d f m = AList.map_default d (f zero_counts) f m"

definition inc_TP :: "counts \<Rightarrow> counts" where "inc_TP c = c\<lparr>ct_TP := ct_TP c + 1\<rparr>"
definition inc_FP :: "counts \<Rightarrow> counts" where "inc_FP c = c\<lparr>ct_FP := ct_FP c + 1\<rparr>"
definition inc_FN :: "counts \<Rightarrow> counts" where "inc_FN c = c\<lparr>ct_FN := ct_FN c + 1\<rparr>"

fun count_produced :: "string list \<Rightarrow> string list \<Rightarrow> count_map \<Rightarrow> count_map" where
  "count_produced extra [] m = m"
| "count_produced extra (l # ls) m =
     count_produced extra ls (at_detector (detectorOf l) (if contains extra l then inc_FP else inc_TP) m)"

fun count_missing :: "string list \<Rightarrow> count_map \<Rightarrow> count_map" where
  "count_missing [] m = m"
| "count_missing (l # ls) m = count_missing ls (at_detector (detectorOf l) inc_FN m)"

text \<open>Reading a missing key of \<open>expectNothing\<close> gives false; a repeated id keeps its last case.\<close>

definition expect_nothing :: "eval_case list \<Rightarrow> string \<Rightarrow> bool" where
  "expect_nothing cs i =
     (map_of (fold (\<lambda>c m. AList.update (cs_ID c) (length (cs_Expect c) = 0) m) cs []) i = Some True)"

fun summarize_loop :: "(string \<Rightarrow> bool) \<Rightarrow> case_result list \<Rightarrow> summary \<times> count_map \<Rightarrow> summary \<times> count_map" where
  "summarize_loop nothing [] (s, m) = (s, m)"
| "summarize_loop nothing (r # rs) (s, m) =
     (let s = s\<lparr>sm_PerCase := AList.update (rs_ID r) (rs_Pass r) (sm_PerCase s)\<rparr>;
          m = count_missing (rs_Missing r) (count_produced (rs_Extra r) (rs_Produced r) m);
          s = (if nothing (rs_ID r)
               then s\<lparr>sm_Negatives := sm_Negatives s + 1,
                  sm_FPRate := (if length (rs_Produced r) > 0 then sm_FPRate s + 1 else sm_FPRate s)\<rparr>
               else s)
      in summarize_loop nothing rs (s, m))"

definition score_of :: "counts \<Rightarrow> score" where
  "score_of c =
     (let p = ratio (ct_TP c) (ct_TP c + ct_FP c);
          rec = ratio (ct_TP c) (ct_TP c + ct_FN c);
          f1 = (if f64 (p + rec) > 0 then round4 (f64 (f64 (f64 (2 * p) * rec) / f64 (p + rec))) else 0)
      in \<lparr>sc_Counts = c, sc_Precision = p, sc_Recall = rec, sc_F1 = f1\<rparr>)"

definition Summarize :: "eval_case list \<Rightarrow> case_result list \<Rightarrow> summary" where
  "Summarize cs results =
     (let (s, m) = summarize_loop (expect_nothing cs) results
            (\<lparr>sm_Cases = int (length results), sm_Negatives = 0, sm_FPRate = 0, sm_PerDetector = [], sm_PerCase = []\<rparr>, []);
          s = (if sm_Negatives s > 0 then s\<lparr>sm_FPRate := round4 (f64 (sm_FPRate s / of_int (sm_Negatives s)))\<rparr> else s)
      in s\<lparr>sm_PerDetector := map (\<lambda>(name, c). (name, score_of c)) m\<rparr>)"

section \<open>The gate\<close>

definition Tolerance :: rat where "Tolerance = f64 (5 / 1000)"

text \<open>What \<open>%d\<close> and \<open>%.4f\<close> print; the latter rounds the exact value of the \<open>float64\<close>, ties to even.\<close>

definition digit_char :: "nat \<Rightarrow> char" where "digit_char d = char_of (48 + d)"

fun show_nat :: "nat \<Rightarrow> string" where
  "show_nat n = (if n < 10 then [digit_char n] else show_nat (n div 10) @ [digit_char (n mod 10)])"

declare show_nat.simps [simp del]

definition show_d :: "int \<Rightarrow> string" where
  "show_d i = (if i < 0 then ''-'' @ show_nat (nat (- i)) else show_nat (nat i))"

definition show_4f :: "rat \<Rightarrow> string" where
  "show_4f x =
     (let k = nat (half_even (\<bar>x\<bar> * 10000)); r = k mod 10000
      in (if x < 0 then ''-'' else []) @ show_nat (k div 10000) @ ''.''
         @ map digit_char [r div 1000, r div 100 mod 10, r div 10 mod 10, r mod 10])"

text \<open>An em dash in UTF-8.\<close>

definition em_dash :: string where "em_dash = [CHR 0xE2, CHR 0x80, CHR 0x94]"

definition detector_failures :: "summary \<Rightarrow> string \<times> score \<Rightarrow> string list" where
  "detector_failures s nw =
     (case map_of (sm_PerDetector s) (fst nw) of
        None \<Rightarrow> [''detector '' @ fst nw @ '' is in the baseline but reported nothing'']
      | Some got \<Rightarrow>
          (if sc_Precision got < f64 (sc_Precision (snd nw) - Tolerance)
           then [fst nw @ '' precision regressed: '' @ show_4f (sc_Precision got) @ '' < baseline '' @ show_4f (sc_Precision (snd nw))]
           else [])
        @ (if sc_Recall got < f64 (sc_Recall (snd nw) - Tolerance)
           then [fst nw @ '' recall regressed: '' @ show_4f (sc_Recall got) @ '' < baseline '' @ show_4f (sc_Recall (snd nw))]
           else []))"

definition case_failures :: "summary \<Rightarrow> string \<times> bool \<Rightarrow> string list" where
  "case_failures s ip =
     (case map_of (sm_PerCase s) (fst ip) of
        None \<Rightarrow> [''case '' @ fst ip @ '' is in the baseline but was not run'']
      | Some ok \<Rightarrow>
          (if snd ip \<and> \<not> ok
           then [''case '' @ fst ip @ '' regressed: it passed in the baseline and now fails''] else []))"

definition Check :: "summary \<Rightarrow> summary \<Rightarrow> string list" where
  "Check s baseline =
     sort
       ((if sm_Cases s \<noteq> sm_Cases baseline
         then [''case count '' @ show_d (sm_Cases s) @ '' != baseline '' @ show_d (sm_Cases baseline) @ '' ''
               @ em_dash @ '' rerun with -write-baseline''] else [])
      @ (if sm_FPRate s > f64 (sm_FPRate baseline + Tolerance)
         then [''false-positive rate regressed: '' @ show_4f (sm_FPRate s) @ '' > baseline '' @ show_4f (sm_FPRate baseline)]
         else [])
      @ concat (map (detector_failures s) (sm_PerDetector baseline))
      @ concat (map (case_failures s) (sm_PerCase baseline)))"

end
