(* ===== verification/Eval_Correct.thy ===== *)
theory Eval_Correct
  imports Eval
begin

text \<open>
  What the evaluation's numbers mean: a case passes exactly when the labels found are the labels
  expected, the counts of a summary are those of a confusion matrix over the corpus, the scores are
  between zero and one, and the gate accepts exactly the summaries that did not get worse.
\<close>

section \<open>Labels\<close>

definition fast_detector_names :: "string list" where
  "fast_detector_names = [DetectorPII, DetectorSecrets, DetectorCustomDict, DetectorInjectionHeuristic, DetectorExfilURL]"

definition named :: "finding \<Rightarrow> bool" where
  "named f = (f_detector f \<in> set fast_detector_names)"

lemma named_scan:
  "(\<And>part body. \<forall>f \<in> set (scan part body). named f) \<Longrightarrow> f \<in> set (scan_parts scan i ps) \<Longrightarrow> named f"
  using scan_parts_mem by blast

lemma named_pii_finding [simp]: "named (pii_finding part typ m score)"
  by (simp add: pii_finding_def named_def fast_detector_names_def)

lemma named_hits [simp]: "\<forall>f \<in> set (hits part body r check typ score). named f"
  by (auto simp: hits_def)

lemma named_suppressed: "\<forall>f \<in> set fs. named f \<Longrightarrow> \<forall>f \<in> set (suppressContained fs). named f"
  using suppressed_subset by (fastforce simp: suppressContained_eq)

lemma named_pii: "\<forall>f \<in> set (PII_scan part body). named f"
  unfolding PII_scan_def Let_def by (rule named_suppressed) (use named_hits in \<open>auto simp: ball_Un\<close>)

lemma named_secrets: "\<forall>f \<in> set (Secrets_scan log2 isPrint part body). named f"
  by (auto simp: Secrets_scan_def key_findings_def Let_def secret_finding_def named_def fast_detector_names_def)

lemma named_injection: "\<forall>f \<in> set (Injection_scan part body). named f"
  by (auto simp: Injection_scan_def named_def fast_detector_names_def)

lemma named_exfil: "\<forall>f \<in> set (Exfil_scan lib allowed part body). named f"
  using url_findings_mem
  by (fastforce simp: Exfil_scan_def exfil_finding_def named_def fast_detector_names_def)

lemma named_dict: "\<forall>f \<in> set (Dict_scan d part body). named f"
  by (auto simp: Dict_scan_def term_finding_def named_def fast_detector_names_def)

lemma named_dict_detect: "f \<in> set (fst (Dict_Detect d req)) \<Longrightarrow> named f"
  using named_suppressed [of "scan_parts (Dict_scan d) 0 (r_parts req)"] named_scan [OF named_dict]
  by (auto simp: Dict_Detect_def split: if_splits)

lemma named_fast:
  assumes "x \<in> set (fast_detectors libs d domains)" "f \<in> set (fst (det_Detect x req))"
  shows "named f"
proof -
  have pii: "f \<in> set (fst (det_Detect PII req)) \<Longrightarrow> named f"
    by (auto simp: PII_def PII_Detect_def intro: named_scan [OF named_pii])
  have sec: "f \<in> set (fst (det_Detect (Secrets l p) req)) \<Longrightarrow> named f" for l p
    by (auto simp: Secrets_def Secrets_Detect_def intro: named_scan [OF named_secrets])
  have inj: "f \<in> set (fst (det_Detect InjectionHeuristic req)) \<Longrightarrow> named f"
    by (auto simp: InjectionHeuristic_def intro: named_scan [OF named_injection])
  have exf: "f \<in> set (fst (det_Detect (ExfilURL l a) req)) \<Longrightarrow> named f" for l a
    by (auto simp: ExfilURL_def intro: named_scan [OF named_exfil])
  have dic: "f \<in> set (fst (det_Detect (CustomDict d) req)) \<Longrightarrow> named f"
    by (simp add: CustomDict_def named_dict_detect)
  show ?thesis using assms by (simp add: fast_detectors_def) (metis pii sec inj exf dic)
qed

lemma named_registry:
  assumes "reg_order reg = fast_detectors libs d domains" "f \<in> set (fst (Registry_Detect reg req))"
  shows "named f"
proof -
  have "f \<in> set (concat (map (\<lambda>x. fst (Registry_one x req)) (reg_order reg)))"
    using assms(2) by (auto simp: Registry_Detect_eq sequential_detect_def split: option.splits)
  then obtain x where x: "x \<in> set (fast_detectors libs d domains)" "f \<in> set (fst (Registry_one x req))"
    using assms(1) by auto
  then obtain g where g: "g \<in> set (fst (det_Detect x req))" "f = (if f_detector g = [] then g\<lparr>f_detector := det_Name x\<rparr> else g)"
    by (auto simp: Registry_one_def split: prod.splits option.splits)
  moreover have "named g" by (rule named_fast [OF x(1) g(1)])
  moreover have "f_detector g \<noteq> []" using \<open>named g\<close> by (auto simp: named_def fast_detector_names_def go_consts)
  ultimately show ?thesis by simp
qed

lemma text_loop_named:
  "text_loop ps body acc fs = Some (out, m, gs) \<Longrightarrow> \<forall>f \<in> set fs. named f \<Longrightarrow> \<forall>f \<in> set gs. named f"
proof (induction ps arbitrary: body acc fs)
  case (Cons p ps)
  obtain out' m' ev where p: "p body = Some (out', m', ev)"
    using Cons.prems(1) by (auto split: option.splits)
  have fs: "\<forall>f \<in> set (fs @ map (evidence_finding acc) ev). named f"
    using Cons.prems(2) by (auto simp: evidence_finding_def named_def fast_detector_names_def split: prod.splits)
  from Cons.IH [OF _ fs] show ?case using Cons.prems(1) p by simp
qed simp

lemma normalize_parts_named:
  "normalize_parts lib i ps = Some (qs, ms, fs) \<Longrightarrow> \<forall>f \<in> set fs. named f"
proof (induction ps arbitrary: i qs ms fs)
  case (Cons p ps)
  then obtain body m gs qs' ms' fss where t: "Text lib (p_text p) = Some (body, m, gs)"
    "normalize_parts lib (i + 1) ps = Some (qs', ms', fss)"
    "fs = map (\<lambda>f. f\<lparr>f_span := (f_span f)\<lparr>span_part := int i\<rparr>\<rparr>) gs @ fss"
    by (auto split: option.splits)
  have "\<forall>f \<in> set gs. named f" using text_loop_named t(1) by (fastforce simp: Text_def)
  then show ?case using Cons.IH [OF t(2)] t(3) by (auto simp: named_def)
qed simp

lemma Normalizer_named: "Normalizer_Normalize lib req = Some n \<Longrightarrow> f \<in> set (n_findings n) \<Longrightarrow> named f"
  using normalize_parts_named by (fastforce simp: Normalizer_Normalize_def split: option.splits)

lemma detector_loop_take:
  "length s \<le> length label \<Longrightarrow> detector_loop label s
    = (if CHR ''/'' \<in> set s then take (length label - length s + length (takeWhile (\<lambda>c. c \<noteq> CHR ''/'') s)) label else label)"
  by (induction s) (auto simp: Suc_diff_le)

lemma detectorOf_eq: "detectorOf label = takeWhile (\<lambda>c. c \<noteq> CHR ''/'') label"
proof (cases "CHR ''/'' \<in> set label")
  case True
  then have "detectorOf label = take (length (takeWhile (\<lambda>c. c \<noteq> CHR ''/'') label)) label"
    by (simp add: detectorOf_def detector_loop_take)
  also have "\<dots> = takeWhile (\<lambda>c. c \<noteq> CHR ''/'') label" by (rule takeWhile_eq_take [symmetric])
  finally show ?thesis .
next
  case False
  then have "\<forall>x \<in> set label. x \<noteq> CHR ''/''" by auto
  then have "takeWhile (\<lambda>c. c \<noteq> CHR ''/'') label = label" by (simp only: takeWhile_eq_all_conv)
  moreover have "detectorOf label = label" using False by (simp add: detectorOf_def detector_loop_take)
  ultimately show ?thesis by (simp only:)
qed

lemma detectorOf_label:
  "CHR ''/'' \<notin> set (lb_Detector l) \<Longrightarrow> detectorOf (Label_String l) = lb_Detector l"
  by (subst detectorOf_eq, unfold Label_String_def, subst takeWhile_append2) auto

lemma detectorOf_named: "named f \<Longrightarrow> detectorOf (Label_String \<lparr>lb_Detector = f_detector f, lb_Type = t\<rparr>) = f_detector f"
  by (subst detectorOf_label) (auto simp: named_def fast_detector_names_def go_consts)

section \<open>Numbers\<close>

lemma to_int_floor: "0 \<le> x \<Longrightarrow> to_int x = \<lfloor>x\<rfloor>"
  by (simp add: to_int_def)

lemma round4_floor: "0 \<le> x \<Longrightarrow> round4 x = f64 (of_int \<lfloor>f64 (f64 (x * 10000) + 1 / 2)\<rfloor> / 10000)"
proof -
  assume "0 \<le> x"
  then have "0 \<le> f64 (f64 (x * 10000) + 1 / 2)" by (simp add: f64_nonneg)
  then show ?thesis by (simp add: round4_def to_int_floor)
qed

lemma round4_le: "0 \<le> x \<Longrightarrow> x \<le> y \<Longrightarrow> round4 x \<le> round4 y"
proof -
  assume xy: "0 \<le> x" "x \<le> y"
  then have "f64 (f64 (x * 10000) + 1 / 2) \<le> f64 (f64 (y * 10000) + 1 / 2)" by (simp add: f64_mono)
  then have "(of_int \<lfloor>f64 (f64 (x * 10000) + 1 / 2)\<rfloor> :: rat) \<le> of_int \<lfloor>f64 (f64 (y * 10000) + 1 / 2)\<rfloor>"
    by (simp add: floor_mono)
  then have "f64 (of_int \<lfloor>f64 (f64 (x * 10000) + 1 / 2)\<rfloor> / 10000) \<le> f64 (of_int \<lfloor>f64 (f64 (y * 10000) + 1 / 2)\<rfloor> / 10000)"
    by (intro f64_mono divide_right_mono) simp_all
  then show ?thesis using xy by (simp add: round4_floor)
qed

lemma round4_0 [simp]: "round4 0 = 0"
proof -
  have "\<lfloor>1 / 2 :: rat\<rfloor> = 0" by (rule floor_unique) simp_all
  then show ?thesis by (simp add: round4_def to_int_def)
qed

lemma round4_1 [simp]: "round4 1 = 1"
proof -
  have "f64 (10000 + 1 / 2) = 10000 + 1 / 2" by (rule f64_exact [of _ 20001 "-1"]) simp_all
  moreover have "\<lfloor>10000 + 1 / 2 :: rat\<rfloor> = 10000" by (rule floor_unique) simp_all
  ultimately show ?thesis using round4_floor [of 1] by (simp only: f64_numerals mult_1) simp
qed

lemma round4_unit: "0 \<le> x \<Longrightarrow> x \<le> 1 \<Longrightarrow> 0 \<le> round4 x \<and> round4 x \<le> 1"
  using round4_le [of 0 x] round4_le [of x 1] by simp

lemma round4_f64 [simp]: "is_f64 (round4 x)"
  by (simp add: round4_def)

lemma f64_unit: "0 \<le> x \<Longrightarrow> x \<le> 1 \<Longrightarrow> 0 \<le> f64 x \<and> f64 x \<le> 1"
  using f64_mono [of 0 x] f64_mono [of x 1] by simp

text \<open>Rounding moves a number by at most half of the fourth decimal, up to the last bits of the operations.\<close>

lemma last_bits:
  "(1 / 2 ^ 50 :: rat) = 8 * (1 / 2 ^ 53)" "(1 / 2 ^ 51 :: rat) = 4 * (1 / 2 ^ 53)" "(1 / 2 ^ 52 :: rat) = 2 * (1 / 2 ^ 53)"
  "(1 / 2 ^ 53 :: rat) < 1 / 1000000" "(1 / 2 ^ 53 :: rat) > 0"
  "(1 / 2 ^ 39 :: rat) * 2 \<le> 10000 * (4 * (1 / 2 ^ 53))"
  "(1 / 2 ^ 49 :: rat) = 16 * (1 / 2 ^ 53)"
  by simp_all

lemma f64_near_unit: "\<bar>x\<bar> \<le> 1 \<Longrightarrow> \<bar>f64 x - x\<bar> \<le> 1 / 2 ^ 53"
  using f64_near_upto [of x 0] by (simp add: power_int_minus_divide)

lemma f64_near_large: "\<bar>x\<bar> \<le> 2 ^ 14 \<Longrightarrow> \<bar>f64 x - x\<bar> \<le> 1 / 2 ^ 39"
  using f64_near_upto [of x 14] by (simp add: power_int_minus_divide)

lemma round4_near:
  assumes "0 \<le> x" "x \<le> 1"
  shows "\<bar>round4 x - x\<bar> \<le> 1 / 20000 + 1 / 2 ^ 50"
proof -
  define a b n where "a = f64 (x * 10000)" and "b = f64 (a + 1 / 2)" and "n = \<lfloor>b\<rfloor>"
  have a: "\<bar>a - x * 10000\<bar> \<le> 1 / 2 ^ 39" unfolding a_def using assms by (intro f64_near_large) simp
  have "0 \<le> a" "a \<le> 10000" unfolding a_def using assms f64_mono [of 0 "x * 10000"] f64_mono [of "x * 10000" 10000] by simp_all
  then have b: "\<bar>b - (a + 1 / 2)\<bar> \<le> 1 / 2 ^ 39" unfolding b_def by (intro f64_near_large) simp
  have n: "of_int n \<le> b" "b < of_int n + 1" unfolding n_def by linarith+
  have "round4 x = f64 (of_int n / 10000)" using assms by (simp add: round4_floor a_def b_def n_def)
  moreover have "\<bar>of_int n / 10000 - x\<bar> \<le> 1 / 20000 + 4 * (1 / 2 ^ 53)"
    using a b n last_bits by linarith
  moreover have "\<bar>f64 (of_int n / 10000) - of_int n / 10000\<bar> \<le> 1 / 2 ^ 53"
  proof -
    have "b \<le> f64 (10000 + 1 / 2)" unfolding b_def by (rule f64_mono) (use \<open>a \<le> 10000\<close> in simp)
    also have "\<dots> = 10000 + 1 / 2" by (rule f64_exact [of _ 20001 "-1"]) simp_all
    finally have "n \<le> 10000" "0 \<le> n" using n \<open>0 \<le> a\<close> unfolding n_def b_def by (simp_all add: f64_nonneg floor_le_iff)
    then show ?thesis by (intro f64_near_unit) simp
  qed
  ultimately show ?thesis using last_bits by linarith
qed

lemma ratio_unit: "0 \<le> num \<Longrightarrow> num \<le> den \<Longrightarrow> 0 \<le> ratio num den \<and> ratio num den \<le> 1"
  using f64_unit [of "of_int num / of_int den"] by (simp add: ratio_def round4_unit divide_le_eq)

lemma ratio_f64 [simp]: "is_f64 (ratio num den)"
  using f64_is [of 1] by (simp add: ratio_def)

lemma ratio_same [simp]: "ratio n n = 1"
  by (simp add: ratio_def)

definition unit_score :: "score \<Rightarrow> bool" where
  "unit_score sc = (0 \<le> sc_Precision sc \<and> sc_Precision sc \<le> 1 \<and> 0 \<le> sc_Recall sc \<and> sc_Recall sc \<le> 1
     \<and> 0 \<le> sc_F1 sc \<and> sc_F1 sc \<le> 1)"

definition counts_ok :: "counts \<Rightarrow> bool" where
  "counts_ok c = (0 \<le> ct_TP c \<and> 0 \<le> ct_FP c \<and> 0 \<le> ct_FN c)"

lemma f1_unit:
  fixes p r :: rat
  assumes "0 \<le> p" "p \<le> 1" "0 \<le> r" "r \<le> 1" "is_f64 p" "f64 (p + r) > 0"
  shows "0 \<le> f64 (f64 (f64 (2 * p) * r) / f64 (p + r)) \<and> f64 (f64 (f64 (2 * p) * r) / f64 (p + r)) \<le> 1"
proof -
  have "p * r \<le> p" "p * r \<le> r" using assms mult_left_le [of r p] mult_left_le_one_le [of r p] by (simp_all add: mult.commute)
  then have "f64 (2 * p) * r \<le> p + r" using f64_fixed [OF f64_double [OF assms(5)]] by simp
  then have "f64 (f64 (2 * p) * r) \<le> f64 (p + r)" by (rule f64_mono)
  moreover have "0 \<le> f64 (f64 (2 * p) * r)" using assms by (simp add: f64_nonneg)
  ultimately show ?thesis using assms(6) by (intro f64_unit) (simp_all add: divide_le_eq)
qed

lemma score_of_eq:
  "score_of c = (let p = ratio (ct_TP c) (ct_TP c + ct_FP c); r = ratio (ct_TP c) (ct_TP c + ct_FN c) in
     \<lparr>sc_Counts = c, sc_Precision = p, sc_Recall = r,
      sc_F1 = (if f64 (p + r) > 0 then round4 (f64 (f64 (f64 (2 * p) * r) / f64 (p + r))) else 0)\<rparr>)"
  by (simp add: score_of_def Let_def)

lemma score_of_unit:
  assumes "counts_ok c"
  shows "unit_score (score_of c)"
proof -
  define p r where "p = ratio (ct_TP c) (ct_TP c + ct_FP c)" and "r = ratio (ct_TP c) (ct_TP c + ct_FN c)"
  have u: "0 \<le> p" "p \<le> 1" "0 \<le> r" "r \<le> 1"
    using assms ratio_unit [of "ct_TP c" "ct_TP c + ct_FP c"] ratio_unit [of "ct_TP c" "ct_TP c + ct_FN c"]
    by (simp_all add: counts_ok_def p_def r_def)
  have "is_f64 p" by (simp add: p_def)
  note f1 = f1_unit [OF u this]
  show ?thesis using u f1 round4_unit
    by (simp add: score_of_eq Let_def p_def [symmetric] r_def [symmetric] unit_score_def)
qed

text \<open>A quotient as \<open>ratio\<close> gives it: within half of the fourth decimal, but for the last bits, and one when there is nothing to divide by.\<close>

definition near_quotient :: "rat \<Rightarrow> int \<Rightarrow> int \<Rightarrow> bool" where
  "near_quotient x num den = (if den = 0 then x = 1 else \<bar>x - of_int num / of_int den\<bar> \<le> 1 / 20000 + 1 / 2 ^ 49)"

lemma ratio_near:
  assumes "0 \<le> num" "num \<le> den"
  shows "near_quotient (ratio num den) num den"
proof (cases "den = 0")
  case False
  define q where "q = (of_int num / of_int den :: rat)"
  have q: "0 \<le> q" "q \<le> 1" using assms False by (simp_all add: q_def divide_le_eq)
  then have "\<bar>f64 q - q\<bar> \<le> 1 / 2 ^ 53" by (intro f64_near_unit) simp
  moreover have "\<bar>round4 (f64 q) - f64 q\<bar> \<le> 1 / 20000 + 1 / 2 ^ 50" using f64_unit [OF q] by (intro round4_near) simp_all
  ultimately have "\<bar>round4 (f64 q) - q\<bar> \<le> 1 / 20000 + 1 / 2 ^ 49" using last_bits by linarith
  then show ?thesis using False by (simp add: near_quotient_def ratio_def q_def)
qed (simp add: near_quotient_def ratio_def)

lemma score_of_near:
  assumes "counts_ok c"
  shows "near_quotient (sc_Precision (score_of c)) (ct_TP c) (ct_TP c + ct_FP c)"
    "near_quotient (sc_Recall (score_of c)) (ct_TP c) (ct_TP c + ct_FN c)"
  using assms by (simp_all add: score_of_def Let_def ratio_near counts_ok_def)

section \<open>A case's result\<close>

text \<open>What \<open>Run\<close> says of a case: the two sets of labels, each once and in order, and their differences.\<close>

definition compared :: "case_result \<Rightarrow> bool" where
  "compared r =
     (distinct (rs_Expected r) \<and> distinct (rs_Produced r) \<and> distinct (rs_Missing r) \<and> distinct (rs_Extra r)
      \<and> set (rs_Missing r) = set (rs_Expected r) - set (rs_Produced r)
      \<and> set (rs_Extra r) = set (rs_Produced r) - set (rs_Expected r)
      \<and> (rs_Pass r \<longleftrightarrow> set (rs_Produced r) = set (rs_Expected r)))"

lemma fold_insert_labels:
  "set (fold (\<lambda>x m. List.insert (g x) m) xs m) = set m \<union> g ` set xs"
  "distinct m \<Longrightarrow> distinct (fold (\<lambda>x m. List.insert (g x) m) xs m)"
  by (induction xs arbitrary: m) auto

lemma expected_labels_spec: "set (expected_labels ls) = Label_String ` set ls" "distinct (expected_labels ls)"
  by (simp_all add: expected_labels_def fold_insert_labels)

definition finding_label :: "finding \<Rightarrow> string" where
  "finding_label f = Label_String \<lparr>lb_Detector = f_detector f, lb_Type = f_type f\<rparr>"

lemma produced_labels_spec: "set (produced_labels fs) = finding_label ` set fs" "distinct (produced_labels fs)"
  by (simp_all add: produced_labels_def fold_insert_labels finding_label_def [abs_def])

lemma sort_Nil_iff [simp]: "(sort xs = []) = (xs = [])"
  by (metis set_empty set_sort)

lemma compare_labels_spec:
  assumes "distinct e" "distinct p"
  shows "compared (compare_labels i e p)" "set (rs_Expected (compare_labels i e p)) = set e"
    "set (rs_Produced (compare_labels i e p)) = set p" "rs_ID (compare_labels i e p) = i"
    "sorted (rs_Expected (compare_labels i e p))" "sorted (rs_Produced (compare_labels i e p))"
    "sorted (rs_Missing (compare_labels i e p))" "sorted (rs_Extra (compare_labels i e p))"
  using assms by (auto simp: compared_def compare_labels_def keys_def Let_def filter_empty_conv)

text \<open>The findings a case is scored on.\<close>

definition case_request :: "eval_case \<Rightarrow> request" where
  "case_request c = zero_request\<lparr>r_surface := cs_Surface c, r_parts := [\<lparr>p_role = [], p_text = cs_Text c, p_trust = []\<rparr>]\<rparr>"

lemma Run_eq:
  assumes "nfkc_documented lib"
  shows "\<exists>d n reg. NewCustomDict (dl_compile libs) (cs_Dict c) [] = Inr d \<and> V1 libs (Some d) (cs_AllowedDomains c) = Inr reg
    \<and> Normalizer_Normalize lib (case_request c) = Some n
    \<and> Run libs lib c = Some (Inr (compare_labels (cs_ID c) (expected_labels (cs_Expect c))
          (produced_labels (fst (Registry_Detect reg (n_request n)) @ n_findings n))))
    \<and> (\<forall>f \<in> set (fst (Registry_Detect reg (n_request n)) @ n_findings n). named f)"
proof -
  obtain d where d: "NewCustomDict (dl_compile libs) (cs_Dict c) [] = Inr d" by (simp add: NewCustomDict_def)
  have made: "\<exists>ks ps. map_option Inr (Some d) = Some (NewCustomDict (dl_compile libs) ks ps)"
    by (intro exI [of _ "cs_Dict c"] exI [of _ "[]"]) (simp add: d)
  have v1: "V1 libs (Some d) (cs_AllowedDomains c) = NewRegistry (fast_detectors libs d (cs_AllowedDomains c))" by (simp add: V1_def)
  have "distinct (map det_Name (fast_detectors libs d (cs_AllowedDomains c)))" by (simp add: fast_names go_consts)
  then obtain reg where reg: "V1 libs (Some d) (cs_AllowedDomains c) = Inr reg"
    using register_all_spec [OF registry_inv_empty, of "fast_detectors libs d (cs_AllowedDomains c)"] v1
    by (auto simp: NewRegistry_def empty_registry_def split: sum.splits)
  then have fast: "fast_registry libs reg" using made by (auto simp: fast_registry_def)
  have order: "reg_order reg = fast_detectors libs d (cs_AllowedDomains c)"
    using reg v1 register_all_spec [OF registry_inv_empty, of "fast_detectors libs d (cs_AllowedDomains c)"]
    by (simp add: NewRegistry_def empty_registry_def)
  obtain n where n: "Normalizer_Normalize lib (case_request c) = Some n"
    using normalize_parts_ok [OF assms, of 0 "r_parts (case_request c)"] by (auto simp: Normalizer_Normalize_def)
  obtain fs where fs: "Registry_Detect reg (n_request n) = (fs, None)"
    using fast_registry_facts(2) [OF fast, of "n_request n"] by (metis prod.collapse)
  have "named f" if "f \<in> set (fs @ n_findings n)" for f
    using that named_registry [OF order, of f "n_request n"] Normalizer_named [OF n, of f] fs by auto
  with d reg n fs show ?thesis by (simp add: Run_def case_request_def Let_def)
qed

definition scored :: "detect_libs \<Rightarrow> text_lib \<Rightarrow> eval_case list \<Rightarrow> case_result list \<Rightarrow> bool" where
  "scored libs lib cs rs = list_all2 (\<lambda>c r. Run libs lib c = Some (Inr r)) cs rs"

lemma Run_compared:
  assumes "nfkc_documented lib" "Run libs lib c = Some (Inr r)"
  shows "compared r" "rs_ID r = cs_ID c" "set (rs_Expected r) = Label_String ` set (cs_Expect c)"
  using Run_eq [OF assms(1), of libs c] assms(2) compare_labels_spec [OF expected_labels_spec(2) produced_labels_spec(2)]
    expected_labels_spec(1) by auto

section \<open>Counts\<close>

definition count_of :: "count_map \<Rightarrow> string \<Rightarrow> counts" where
  "count_of m d = (case map_of m d of None \<Rightarrow> zero_counts | Some c \<Rightarrow> c)"

lemma zero_counts_simps [simp]: "ct_TP zero_counts = 0" "ct_FP zero_counts = 0" "ct_FN zero_counts = 0"
  by (simp_all add: zero_counts_def)

lemma count_of_at: "count_of (at_detector d f m) d' = (if d' = d then f (count_of m d) else count_of m d')"
  by (simp add: count_of_def at_detector_def map_of_map_default split: option.splits)

lemma at_detector_keys:
  "distinct (map fst m) \<Longrightarrow> distinct (map fst (at_detector d f m))"
  "fst ` set (at_detector d f m) = insert d (fst ` set m)"
  by (simp_all add: at_detector_def distinct_map_default dom_map_default)

lemma inc_simps [simp]:
  "ct_TP (inc_TP c) = ct_TP c + 1" "ct_FP (inc_TP c) = ct_FP c" "ct_FN (inc_TP c) = ct_FN c"
  "ct_TP (inc_FP c) = ct_TP c" "ct_FP (inc_FP c) = ct_FP c + 1" "ct_FN (inc_FP c) = ct_FN c"
  "ct_TP (inc_FN c) = ct_TP c" "ct_FP (inc_FN c) = ct_FP c" "ct_FN (inc_FN c) = ct_FN c + 1"
  by (simp_all add: inc_TP_def inc_FP_def inc_FN_def)

lemma contains_iff [simp]: "contains xs s = (s \<in> set xs)"
  by (induction xs) auto

definition tally :: "string \<Rightarrow> string list \<Rightarrow> int" where
  "tally d ls = int (length (filter (\<lambda>l. detectorOf l = d) ls))"

lemma tally_Nil [simp]: "tally d [] = 0"
  by (simp add: tally_def)

lemma tally_Cons [simp]: "tally d (l # ls) = (if detectorOf l = d then 1 else 0) + tally d ls"
  by (simp add: tally_def)

lemma count_produced_spec:
  "ct_TP (count_of (count_produced extra ls m) d) = ct_TP (count_of m d) + tally d (filter (\<lambda>l. l \<notin> set extra) ls)"
  "ct_FP (count_of (count_produced extra ls m) d) = ct_FP (count_of m d) + tally d (filter (\<lambda>l. l \<in> set extra) ls)"
  "ct_FN (count_of (count_produced extra ls m) d) = ct_FN (count_of m d)"
  by (induction ls arbitrary: m) (auto simp: count_of_at)

lemma count_missing_spec:
  "ct_TP (count_of (count_missing ls m) d) = ct_TP (count_of m d)"
  "ct_FP (count_of (count_missing ls m) d) = ct_FP (count_of m d)"
  "ct_FN (count_of (count_missing ls m) d) = ct_FN (count_of m d) + tally d ls"
  by (induction ls arbitrary: m) (auto simp: count_of_at)

lemma count_keys:
  "distinct (map fst m) \<Longrightarrow> distinct (map fst (count_produced extra ls m))"
  "fst ` set (count_produced extra ls m) = fst ` set m \<union> detectorOf ` set ls"
  "distinct (map fst m) \<Longrightarrow> distinct (map fst (count_missing ls m))"
  "fst ` set (count_missing ls m) = fst ` set m \<union> detectorOf ` set ls"
  by (induction ls arbitrary: m) (auto simp: at_detector_keys)

text \<open>The labels of one detector, as a set.\<close>

definition labels_of :: "string \<Rightarrow> string set \<Rightarrow> string set" where
  "labels_of d A = {l \<in> A. detectorOf l = d}"

lemma tally_card: "distinct ls \<Longrightarrow> tally d ls = int (card (labels_of d (set ls)))"
proof -
  assume "distinct ls"
  then have "card (set (filter (\<lambda>l. detectorOf l = d) ls)) = length (filter (\<lambda>l. detectorOf l = d) ls)"
    by (intro distinct_card distinct_filter)
  then show ?thesis by (simp add: tally_def labels_of_def)
qed

definition true_positives :: "string \<Rightarrow> case_result \<Rightarrow> int" where
  "true_positives d r = int (card (labels_of d (set (rs_Produced r) \<inter> set (rs_Expected r))))"

definition false_positives :: "string \<Rightarrow> case_result \<Rightarrow> int" where
  "false_positives d r = int (card (labels_of d (set (rs_Produced r) - set (rs_Expected r))))"

definition false_negatives :: "string \<Rightarrow> case_result \<Rightarrow> int" where
  "false_negatives d r = int (card (labels_of d (set (rs_Expected r) - set (rs_Produced r))))"

text \<open>One result's part in the counts.\<close>

definition count_result :: "case_result \<Rightarrow> count_map \<Rightarrow> count_map" where
  "count_result r m = count_missing (rs_Missing r) (count_produced (rs_Extra r) (rs_Produced r) m)"

lemma count_result_spec:
  assumes "compared r"
  shows "ct_TP (count_of (count_result r m) d) = ct_TP (count_of m d) + true_positives d r"
    "ct_FP (count_of (count_result r m) d) = ct_FP (count_of m d) + false_positives d r"
    "ct_FN (count_of (count_result r m) d) = ct_FN (count_of m d) + false_negatives d r"
proof -
  have sets: "set (filter (\<lambda>l. l \<notin> set (rs_Extra r)) (rs_Produced r)) = set (rs_Produced r) \<inter> set (rs_Expected r)"
    "set (filter (\<lambda>l. l \<in> set (rs_Extra r)) (rs_Produced r)) = set (rs_Produced r) - set (rs_Expected r)"
    "set (rs_Missing r) = set (rs_Expected r) - set (rs_Produced r)"
    using assms by (auto simp: compared_def)
  have d: "distinct (rs_Produced r)" "distinct (rs_Missing r)" using assms by (simp_all add: compared_def)
  show "ct_TP (count_of (count_result r m) d) = ct_TP (count_of m d) + true_positives d r"
    "ct_FP (count_of (count_result r m) d) = ct_FP (count_of m d) + false_positives d r"
    "ct_FN (count_of (count_result r m) d) = ct_FN (count_of m d) + false_negatives d r"
    unfolding count_result_def count_produced_spec count_missing_spec true_positives_def false_positives_def false_negatives_def
    using tally_card [OF distinct_filter [OF d(1)]] tally_card [OF d(2)] sets by metis+
qed

lemma count_result_keys:
  assumes "compared r"
  shows "distinct (map fst m) \<Longrightarrow> distinct (map fst (count_result r m))"
    "fst ` set (count_result r m) = fst ` set m \<union> detectorOf ` (set (rs_Produced r) \<union> set (rs_Expected r))"
  using assms by (auto simp: count_result_def count_keys compared_def)

section \<open>Summaries\<close>

text \<open>The loop of \<open>Summarize\<close>, field by field.\<close>

definition false_alarm :: "(string \<Rightarrow> bool) \<Rightarrow> case_result \<Rightarrow> bool" where
  "false_alarm nothing r = (nothing (rs_ID r) \<and> rs_Produced r \<noteq> [])"

lemma summarize_loop_eq:
  "summarize_loop nothing rs (s, m) =
    (s\<lparr>sm_Negatives := sm_Negatives s + int (length (filter (\<lambda>r. nothing (rs_ID r)) rs)),
       sm_FPRate := sm_FPRate s + of_nat (length (filter (false_alarm nothing) rs)),
       sm_PerCase := fold (\<lambda>r. AList.update (rs_ID r) (rs_Pass r)) rs (sm_PerCase s)\<rparr>,
     fold count_result rs m)"
  by (induction rs arbitrary: s m) (auto simp: Let_def false_alarm_def count_result_def)

definition all_counts :: "case_result list \<Rightarrow> count_map" where
  "all_counts rs = fold count_result rs []"

lemma Summarize_eq:
  "Summarize cs rs =
    \<lparr>sm_Cases = int (length rs), sm_Negatives = int (length (filter (\<lambda>r. expect_nothing cs (rs_ID r)) rs)),
     sm_FPRate = (if filter (\<lambda>r. expect_nothing cs (rs_ID r)) rs = [] then 0
       else round4 (f64 (of_nat (length (filter (false_alarm (expect_nothing cs)) rs))
                    / of_nat (length (filter (\<lambda>r. expect_nothing cs (rs_ID r)) rs))))),
     sm_PerDetector = map (\<lambda>(name, c). (name, score_of c)) (all_counts rs),
     sm_PerCase = fold (\<lambda>r. AList.update (rs_ID r) (rs_Pass r)) rs []\<rparr>"
  by (auto simp: Summarize_def summarize_loop_eq Let_def all_counts_def false_alarm_def filter_empty_conv)

lemma fold_count_result:
  assumes "\<forall>r \<in> set rs. compared r" "distinct (map fst m)"
  shows "ct_TP (count_of (fold count_result rs m) d) = ct_TP (count_of m d) + (\<Sum>r\<leftarrow>rs. true_positives d r)"
    "ct_FP (count_of (fold count_result rs m) d) = ct_FP (count_of m d) + (\<Sum>r\<leftarrow>rs. false_positives d r)"
    "ct_FN (count_of (fold count_result rs m) d) = ct_FN (count_of m d) + (\<Sum>r\<leftarrow>rs. false_negatives d r)"
    "distinct (map fst (fold count_result rs m))"
    "fst ` set (fold count_result rs m)
      = fst ` set m \<union> (\<Union>r \<in> set rs. detectorOf ` (set (rs_Produced r) \<union> set (rs_Expected r)))"
  using assms by (induction rs arbitrary: m) (auto simp: count_result_spec count_result_keys)

lemma all_counts_spec:
  assumes "\<forall>r \<in> set rs. compared r"
  shows "distinct (map fst (all_counts rs))"
    "fst ` set (all_counts rs) = (\<Union>r \<in> set rs. detectorOf ` (set (rs_Produced r) \<union> set (rs_Expected r)))"
    "(d, c) \<in> set (all_counts rs) \<Longrightarrow>
      c = \<lparr>ct_TP = (\<Sum>r\<leftarrow>rs. true_positives d r), ct_FP = (\<Sum>r\<leftarrow>rs. false_positives d r), ct_FN = (\<Sum>r\<leftarrow>rs. false_negatives d r)\<rparr>"
proof -
  have z: "count_of [] d = zero_counts" for d by (simp add: count_of_def)
  note f = fold_count_result [OF assms, of "[]", folded all_counts_def, unfolded z, simplified]
  show "distinct (map fst (all_counts rs))"
    "fst ` set (all_counts rs) = (\<Union>r \<in> set rs. detectorOf ` (set (rs_Produced r) \<union> set (rs_Expected r)))"
    using f(4,5) by simp_all
  assume "(d, c) \<in> set (all_counts rs)"
  with f(4) have "count_of (all_counts rs) d = c" by (simp add: count_of_def)
  then show "c = \<lparr>ct_TP = (\<Sum>r\<leftarrow>rs. true_positives d r), ct_FP = (\<Sum>r\<leftarrow>rs. false_positives d r), ct_FN = (\<Sum>r\<leftarrow>rs. false_negatives d r)\<rparr>"
    using f(1-3) [of d] by (cases c) simp
qed

lemma all_counts_ok:
  assumes "\<forall>r \<in> set rs. compared r" "(d, c) \<in> set (all_counts rs)"
  shows "counts_ok c"
proof -
  have "0 \<le> (\<Sum>r\<leftarrow>rs. true_positives d r)" "0 \<le> (\<Sum>r\<leftarrow>rs. false_positives d r)" "0 \<le> (\<Sum>r\<leftarrow>rs. false_negatives d r)"
    by (rule sum_list_nonneg, auto simp: true_positives_def false_positives_def false_negatives_def)+
  then show ?thesis unfolding all_counts_spec(3) [OF assms] counts_ok_def by simp
qed

lemma expect_nothing_eq:
  assumes "distinct (map cs_ID cs)" "c \<in> set cs"
  shows "expect_nothing cs (cs_ID c) = (cs_Expect c = [])"
proof -
  have *: "distinct (map cs_ID cs) \<Longrightarrow> map_of (fold (\<lambda>c m. AList.update (cs_ID c) (length (cs_Expect c) = 0) m) cs m) i
      = (if \<exists>c \<in> set cs. cs_ID c = i then Some (\<exists>c \<in> set cs. cs_ID c = i \<and> cs_Expect c = []) else map_of m i)" for i m
  proof (induction cs arbitrary: m)
    case (Cons c cs)
    then show ?case by (auto simp: AList.update_conv') (metis image_eqI list.set_map)+
  qed simp
  have "(\<exists>c' \<in> set cs. cs_ID c' = cs_ID c \<and> cs_Expect c' = []) = (cs_Expect c = [])"
    using assms by (metis distinct_map inj_on_eq_iff)
  then show ?thesis using * [OF assms(1), of "[]" "cs_ID c"] assms(2) by (auto simp: expect_nothing_def)
qed

lemma sm_simps:
  "sm_PerDetector (Summarize cs rs) = map (\<lambda>(name, c). (name, score_of c)) (all_counts rs)"
  "sm_PerCase (Summarize cs rs) = fold (\<lambda>r. AList.update (rs_ID r) (rs_Pass r)) rs []"
  "sm_Cases (Summarize cs rs) = int (length rs)"
  by (simp_all add: Summarize_eq)

lemma PerDetector_mem:
  "(d, sc) \<in> set (sm_PerDetector (Summarize cs rs)) \<longleftrightarrow> (\<exists>c. (d, c) \<in> set (all_counts rs) \<and> sc = score_of c)"
  by (force simp: sm_simps)

lemma FPRate_unit: "0 \<le> sm_FPRate (Summarize cs rs) \<and> sm_FPRate (Summarize cs rs) \<le> 1"
proof -
  have "filter (false_alarm nothing) rs = filter (\<lambda>r. rs_Produced r \<noteq> []) (filter (\<lambda>r. nothing (rs_ID r)) rs)" for nothing
    by (induction rs) (simp_all add: false_alarm_def)
  then have "length (filter (false_alarm (expect_nothing cs)) rs) \<le> length (filter (\<lambda>r. expect_nothing cs (rs_ID r)) rs)"
    by (simp only: length_filter_le)
  then show ?thesis by (auto simp: Summarize_eq intro!: round4_unit f64_unit [THEN conjunct1] f64_unit [THEN conjunct2] simp: divide_le_eq)
qed

lemma PerCase_keys:
  "distinct (map fst m) \<Longrightarrow> distinct (map fst (fold (\<lambda>r. AList.update (rs_ID r) (rs_Pass r)) rs m))"
  by (induction rs arbitrary: m) (simp_all add: distinct_update)

lemma PerDetector_keys: "map fst (map (\<lambda>(name, c). (name, score_of c)) m) = map fst m"
  by (induction m) auto

lemma Summarize_keys:
  assumes "\<forall>r \<in> set rs. compared r"
  shows "distinct (map fst (sm_PerDetector (Summarize cs rs)))" "distinct (map fst (sm_PerCase (Summarize cs rs)))"
  using all_counts_spec(1) [OF assms] PerCase_keys [of "[]" rs] 
  by (simp_all add: sm_simps PerDetector_keys del: map_map)

lemma scored_compared:
  assumes "nfkc_documented lib" "scored libs lib cs rs"
  shows "\<forall>r \<in> set rs. compared r" "map rs_ID rs = map cs_ID cs"
proof -
  have "\<forall>r \<in> set rs. \<exists>c. Run libs lib c = Some (Inr r)"
    using assms(2) unfolding scored_def by (induction rule: list_all2_induct) auto
  then show "\<forall>r \<in> set rs. compared r" using Run_compared(1) [OF assms(1)] by blast
  show "map rs_ID rs = map cs_ID cs"
    using assms(2) Run_compared(2) [OF assms(1)] unfolding scored_def by (induction rule: list_all2_induct) simp_all
qed

section \<open>The gate\<close>

text \<open>No worse than the baseline.\<close>

definition no_worse :: "summary \<Rightarrow> summary \<Rightarrow> bool" where
  "no_worse s b =
     (sm_Cases s = sm_Cases b \<and> sm_FPRate s \<le> f64 (sm_FPRate b + Tolerance)
      \<and> (\<forall>(name, want) \<in> set (sm_PerDetector b). \<exists>got. map_of (sm_PerDetector s) name = Some got
           \<and> f64 (sc_Precision want - Tolerance) \<le> sc_Precision got \<and> f64 (sc_Recall want - Tolerance) \<le> sc_Recall got)
      \<and> (\<forall>(i, passed) \<in> set (sm_PerCase b). \<exists>now. map_of (sm_PerCase s) i = Some now \<and> (passed \<longrightarrow> now)))"

lemma detector_failures_Nil:
  "detector_failures s (name, want) = [] \<longleftrightarrow> (\<exists>got. map_of (sm_PerDetector s) name = Some got
     \<and> f64 (sc_Precision want - Tolerance) \<le> sc_Precision got \<and> f64 (sc_Recall want - Tolerance) \<le> sc_Recall got)"
  by (auto simp: detector_failures_def not_less split: option.splits)

lemma case_failures_Nil:
  "case_failures s (i, passed) = [] \<longleftrightarrow> (\<exists>now. map_of (sm_PerCase s) i = Some now \<and> (passed \<longrightarrow> now))"
  by (auto simp: case_failures_def split: option.splits)

lemma Check_Nil: "Check s b = [] \<longleftrightarrow> no_worse s b"
  by (auto simp: Check_def no_worse_def detector_failures_Nil case_failures_Nil not_less)

text \<open>The scores are \<open>float64\<close> numbers.\<close>

definition f64_scores :: "summary \<Rightarrow> bool" where
  "f64_scores s = (is_f64 (sm_FPRate s) \<and> (\<forall>(name, sc) \<in> set (sm_PerDetector s). is_f64 (sc_Precision sc) \<and> is_f64 (sc_Recall sc)))"

lemma Tolerance_pos: "0 \<le> Tolerance"
  by (simp add: Tolerance_def f64_nonneg)

lemma within_own:
  assumes "is_f64 x"
  shows "f64 (x - Tolerance) \<le> x" "x \<le> f64 (x + Tolerance)"
  using f64_mono [of "x - Tolerance" x] f64_mono [of x "x + Tolerance"] Tolerance_pos f64_fixed [OF assms] by simp_all

lemma Check_same:
  assumes "distinct (map fst (sm_PerDetector s))" "distinct (map fst (sm_PerCase s))" "f64_scores s"
  shows "Check s s = []"
  using assms within_own by (fastforce simp: Check_Nil no_worse_def f64_scores_def)

lemma Summarize_f64: "f64_scores (Summarize cs rs)"
  using f64_is [of 0] by (auto simp: f64_scores_def Summarize_eq score_of_eq Let_def)

text \<open>The gate with the tolerance \<open>t\<close> taken exactly. That of the code, which rounds the tolerance and the bound,
  lies between those of a tolerance that is smaller, or larger, by the last bits.\<close>

definition no_worse_by :: "rat \<Rightarrow> summary \<Rightarrow> summary \<Rightarrow> bool" where
  "no_worse_by t s b =
     (sm_Cases s = sm_Cases b \<and> sm_FPRate s \<le> sm_FPRate b + t
      \<and> (\<forall>(name, want) \<in> set (sm_PerDetector b). \<exists>got. map_of (sm_PerDetector s) name = Some got
           \<and> sc_Precision want - t \<le> sc_Precision got \<and> sc_Recall want - t \<le> sc_Recall got)
      \<and> (\<forall>(i, passed) \<in> set (sm_PerCase b). \<exists>now. map_of (sm_PerCase s) i = Some now \<and> (passed \<longrightarrow> now)))"

definition unit_scores :: "summary \<Rightarrow> bool" where
  "unit_scores s = (0 \<le> sm_FPRate s \<and> sm_FPRate s \<le> 1 \<and> (\<forall>(name, sc) \<in> set (sm_PerDetector s).
     0 \<le> sc_Precision sc \<and> sc_Precision sc \<le> 1 \<and> 0 \<le> sc_Recall sc \<and> sc_Recall sc \<le> 1))"

lemma Tolerance_near: "\<bar>Tolerance - 5 / 1000\<bar> \<le> 1 / 2 ^ 53" "\<bar>Tolerance\<bar> \<le> 1"
  using f64_near_unit [of "5 / 1000"] f64_unit [of "5 / 1000"] by (simp_all add: Tolerance_def)

lemma bound_near:
  assumes "0 \<le> x" "x \<le> 1"
  shows "\<bar>f64 (x - Tolerance) - (x - 5 / 1000)\<bar> \<le> 1 / 2 ^ 51" "\<bar>f64 (x + Tolerance) - (x + 5 / 1000)\<bar> \<le> 1 / 2 ^ 51"
proof -
  have "\<bar>f64 (x - Tolerance) - (x - Tolerance)\<bar> \<le> 1 / 2 ^ 53"
    using assms Tolerance_near(2) Tolerance_pos by (intro f64_near_unit) linarith
  then show "\<bar>f64 (x - Tolerance) - (x - 5 / 1000)\<bar> \<le> 1 / 2 ^ 51" using Tolerance_near(1) last_bits by linarith
  have "\<bar>f64 (x + Tolerance) - (x + Tolerance)\<bar> \<le> 1 / 2 ^ 52"
    using f64_near_upto [of "x + Tolerance" 1] assms Tolerance_near(2) Tolerance_pos by (simp add: power_int_minus_divide)
  then show "\<bar>f64 (x + Tolerance) - (x + 5 / 1000)\<bar> \<le> 1 / 2 ^ 51" using Tolerance_near(1) last_bits by linarith
qed

lemma bound_between:
  assumes "0 \<le> x" "x \<le> 1"
  shows "x - (5 / 1000 - 1 / 2 ^ 51) \<le> y \<Longrightarrow> f64 (x - Tolerance) \<le> y" "f64 (x - Tolerance) \<le> y \<Longrightarrow> x - (5 / 1000 + 1 / 2 ^ 51) \<le> y"
    "y \<le> x + (5 / 1000 - 1 / 2 ^ 51) \<Longrightarrow> y \<le> f64 (x + Tolerance)" "y \<le> f64 (x + Tolerance) \<Longrightarrow> y \<le> x + (5 / 1000 + 1 / 2 ^ 51)"
  using bound_near [OF assms] by linarith+

lemma no_worse_between:
  assumes "unit_scores b"
  shows "no_worse_by (5 / 1000 - 1 / 2 ^ 51) s b \<Longrightarrow> no_worse s b" "no_worse s b \<Longrightarrow> no_worse_by (5 / 1000 + 1 / 2 ^ 51) s b"
proof -
  have fp: "0 \<le> sm_FPRate b" "sm_FPRate b \<le> 1"
    and sc: "0 \<le> sc_Precision sc" "sc_Precision sc \<le> 1" "0 \<le> sc_Recall sc" "sc_Recall sc \<le> 1" if "(n, sc) \<in> set (sm_PerDetector b)" for n sc
    using assms that by (auto simp: unit_scores_def)
  have fp': "0 \<le> sm_FPRate b" "sm_FPRate b \<le> 1" using assms by (simp_all add: unit_scores_def)
  note rate = bound_between(3,4) [OF fp']
  have scores: "n \<in> UNIV \<Longrightarrow> sc_Precision want - (5 / 1000 - 1 / 2 ^ 51) \<le> y \<Longrightarrow> f64 (sc_Precision want - Tolerance) \<le> y"
    "f64 (sc_Precision want - Tolerance) \<le> y \<Longrightarrow> sc_Precision want - (5 / 1000 + 1 / 2 ^ 51) \<le> y"
    "sc_Recall want - (5 / 1000 - 1 / 2 ^ 51) \<le> y \<Longrightarrow> f64 (sc_Recall want - Tolerance) \<le> y"
    "f64 (sc_Recall want - Tolerance) \<le> y \<Longrightarrow> sc_Recall want - (5 / 1000 + 1 / 2 ^ 51) \<le> y"
    if "(n, want) \<in> set (sm_PerDetector b)" for n want y
    using bound_between(1,2) [OF sc(1,2) [OF that], of y] bound_between(1,2) [OF sc(3,4) [OF that], of y] by simp_all
  show "no_worse_by (5 / 1000 - 1 / 2 ^ 51) s b \<Longrightarrow> no_worse s b"
    unfolding no_worse_def no_worse_by_def using rate(1) scores(1,3) by fast
  show "no_worse s b \<Longrightarrow> no_worse_by (5 / 1000 + 1 / 2 ^ 51) s b"
    unfolding no_worse_def no_worse_by_def using rate(2) scores(2,4) by fast
qed

lemma mset_concat_map: "mset (concat (map f xs)) = sum_mset (image_mset (mset \<circ> f) (mset xs))"
  by (induction xs) simp_all

lemma sort_mset: "mset xs = mset ys \<Longrightarrow> sort xs = sort (ys :: 'a :: linorder list)"
  by (rule properties_for_sort) simp_all

lemma Check_order:
  assumes "mset (sm_PerDetector b) = mset (sm_PerDetector b')" "mset (sm_PerCase b) = mset (sm_PerCase b')"
    "sm_Cases b = sm_Cases b'" "sm_FPRate b = sm_FPRate b'"
  shows "Check s b = Check s b'"
  unfolding Check_def by (rule sort_mset) (simp add: assms mset_concat_map)

section \<open>Properties\<close>

text \<open>Scoring a case never fails, and it passes exactly when the detectors find the labels it expects: each
  label once, whatever the number of findings, missing and extra being the two differences. Every
  label found names, up to its first slash, one of the five detectors.\<close>

theorem run_case_scores:
  assumes "nfkc_documented lib"
  shows "\<exists>d reg n r. NewCustomDict (dl_compile libs) (cs_Dict c) [] = Inr d \<and> V1 libs (Some d) (cs_AllowedDomains c) = Inr reg
    \<and> Normalizer_Normalize lib (case_request c) = Some n \<and> Run libs lib c = Some (Inr r)
    \<and> rs_ID r = cs_ID c \<and> compared r
    \<and> set (rs_Expected r) = Label_String ` set (cs_Expect c)
    \<and> set (rs_Produced r) = finding_label ` set (fst (Registry_Detect reg (n_request n)) @ n_findings n)
    \<and> sorted (rs_Expected r) \<and> sorted (rs_Produced r) \<and> sorted (rs_Missing r) \<and> sorted (rs_Extra r)
    \<and> detectorOf ` set (rs_Produced r) \<subseteq> set fast_detector_names"
proof -
  obtain d n reg where r: "NewCustomDict (dl_compile libs) (cs_Dict c) [] = Inr d" "V1 libs (Some d) (cs_AllowedDomains c) = Inr reg"
    "Normalizer_Normalize lib (case_request c) = Some n"
    "Run libs lib c = Some (Inr (compare_labels (cs_ID c) (expected_labels (cs_Expect c))
          (produced_labels (fst (Registry_Detect reg (n_request n)) @ n_findings n))))"
    "\<forall>f \<in> set (fst (Registry_Detect reg (n_request n)) @ n_findings n). named f"
    using Run_eq [OF assms, of libs c] by blast
  have names: "detectorOf ` finding_label ` set fs \<subseteq> set fast_detector_names" if "\<forall>f \<in> set fs. named f" for fs
    using that by (auto simp: finding_label_def detectorOf_named) (simp add: named_def)
  note spec = compare_labels_spec [OF expected_labels_spec(2) [of "cs_Expect c"]
      produced_labels_spec(2) [of "fst (Registry_Detect reg (n_request n)) @ n_findings n"], of "cs_ID c"]
  show ?thesis
    by (intro exI conjI, fact r(1), fact r(2), fact r(3), fact r(4))
      (simp_all only: spec expected_labels_spec produced_labels_spec names [OF r(5)])
qed

definition quiet_case :: eval_case where
  "quiet_case = \<lparr>cs_ID = ''quiet'', cs_Note = [], cs_Surface = SurfaceInput, cs_Text = ''hello'', cs_Expect = [],
     cs_Synthetic = True, cs_Dict = [], cs_AllowedDomains = []\<rparr>"

lemma ascii_lib_doc: "nfkc_documented ascii_lib"
  using sample_service_doc [of "[]" None "[]"] by (simp add: sample_service_def)

theorem run_case_scores_witness:
  "\<exists>r. Run plain_libs ascii_lib quiet_case = Some (Inr r) \<and> rs_ID r = ''quiet'' \<and> rs_Expected r = []
     \<and> (rs_Pass r \<longleftrightarrow> rs_Produced r = [])"
  using run_case_scores [OF ascii_lib_doc, of plain_libs quiet_case] by (auto simp: quiet_case_def compared_def)

text \<open>The scores of a corpus are what their names say. A detector is scored exactly when one of its labels
  was expected or found somewhere; its counts are those of the confusion matrix over the cases, so
  that true and false positives together are the labels found and true positives and false negatives the
  labels expected; precision, recall and F1 lie between zero and one, and precision and recall are within
  half of the fourth decimal of the exact quotients. The false-positive rate lies between zero and one.\<close>

theorem summary_confusion_matrix:
  assumes "nfkc_documented lib" "scored libs lib cs rs"
  shows "0 \<le> sm_FPRate (Summarize cs rs) \<and> sm_FPRate (Summarize cs rs) \<le> 1
    \<and> fst ` set (sm_PerDetector (Summarize cs rs))
        = (\<Union>r \<in> set rs. detectorOf ` (set (rs_Produced r) \<union> set (rs_Expected r)))
    \<and> (\<forall>(d, sc) \<in> set (sm_PerDetector (Summarize cs rs)). unit_score sc
        \<and> ct_TP (sc_Counts sc) = (\<Sum>r\<leftarrow>rs. true_positives d r)
        \<and> ct_TP (sc_Counts sc) + ct_FP (sc_Counts sc) = (\<Sum>r\<leftarrow>rs. int (card (labels_of d (set (rs_Produced r)))))
        \<and> ct_TP (sc_Counts sc) + ct_FN (sc_Counts sc) = (\<Sum>r\<leftarrow>rs. int (card (labels_of d (set (rs_Expected r)))))
        \<and> near_quotient (sc_Precision sc) (ct_TP (sc_Counts sc)) (ct_TP (sc_Counts sc) + ct_FP (sc_Counts sc))
        \<and> near_quotient (sc_Recall sc) (ct_TP (sc_Counts sc)) (ct_TP (sc_Counts sc) + ct_FN (sc_Counts sc)))"
proof -
  note ok = scored_compared(1) [OF assms]
  have split: "int (card (labels_of d (A \<inter> B))) + int (card (labels_of d (A - B))) = int (card (labels_of d A))" if "finite A" for d A B
  proof -
    have "labels_of d A = labels_of d (A \<inter> B) \<union> labels_of d (A - B)" by (auto simp: labels_of_def)
    moreover have "labels_of d (A \<inter> B) \<inter> labels_of d (A - B) = {}" by (auto simp: labels_of_def)
    ultimately show ?thesis using that by (simp add: card_Un_disjoint labels_of_def)
  qed
  then have split': "int (card (labels_of d (B \<inter> A))) + int (card (labels_of d (A - B))) = int (card (labels_of d A))" if "finite A" for d A B
    using that by (simp only: Int_commute [of B A])
  have sums: "(\<Sum>r\<leftarrow>rs. true_positives d r) + (\<Sum>r\<leftarrow>rs. false_positives d r) = (\<Sum>r\<leftarrow>rs. int (card (labels_of d (set (rs_Produced r)))))"
    "(\<Sum>r\<leftarrow>rs. true_positives d r) + (\<Sum>r\<leftarrow>rs. false_negatives d r) = (\<Sum>r\<leftarrow>rs. int (card (labels_of d (set (rs_Expected r)))))" for d
    unfolding sum_list_addf [symmetric] true_positives_def false_positives_def false_negatives_def split [OF finite_set] split' [OF finite_set]
    by (rule refl)+
  have "fst ` set (sm_PerDetector (Summarize cs rs)) = fst ` set (all_counts rs)"
    by (force simp: sm_simps)
  moreover have "unit_score sc \<and> ct_TP (sc_Counts sc) = (\<Sum>r\<leftarrow>rs. true_positives d r)
        \<and> ct_TP (sc_Counts sc) + ct_FP (sc_Counts sc) = (\<Sum>r\<leftarrow>rs. int (card (labels_of d (set (rs_Produced r)))))
        \<and> ct_TP (sc_Counts sc) + ct_FN (sc_Counts sc) = (\<Sum>r\<leftarrow>rs. int (card (labels_of d (set (rs_Expected r)))))
        \<and> near_quotient (sc_Precision sc) (ct_TP (sc_Counts sc)) (ct_TP (sc_Counts sc) + ct_FP (sc_Counts sc))
        \<and> near_quotient (sc_Recall sc) (ct_TP (sc_Counts sc)) (ct_TP (sc_Counts sc) + ct_FN (sc_Counts sc))"
    if mem: "(d, sc) \<in> set (sm_PerDetector (Summarize cs rs))" for d sc
  proof -
    obtain c where c: "(d, c) \<in> set (all_counts rs)" "sc = score_of c" using mem by (auto simp: PerDetector_mem)
    have "sc_Counts sc = c" by (simp add: c(2) score_of_def Let_def)
    then show ?thesis
      using score_of_unit [OF all_counts_ok [OF ok c(1)]] score_of_near [OF all_counts_ok [OF ok c(1)]]
        all_counts_spec(3) [OF ok c(1)] sums [of d]
      by (simp add: c(2))
  qed
  ultimately show ?thesis using FPRate_unit [of cs rs] all_counts_spec(2) [OF ok] by auto
qed

theorem summary_confusion_matrix_witness:
  "\<exists>r. scored plain_libs ascii_lib [quiet_case] [r] \<and> sm_FPRate (Summarize [quiet_case] [r]) \<le> 1"
proof -
  obtain r where r: "Run plain_libs ascii_lib quiet_case = Some (Inr r)" using Run_eq [OF ascii_lib_doc] by blast
  then have "scored plain_libs ascii_lib [quiet_case] [r]" by (simp add: scored_def)
  then show ?thesis using summary_confusion_matrix [OF ascii_lib_doc, of plain_libs "[quiet_case]" "[r]"] by auto
qed

text \<open>The gate reports nothing exactly when the summary is no worse than the baseline: the same number of
  cases, a false-positive rate and, for every detector of the baseline, a precision and a recall
  within the tolerance, every case of the baseline run, and none that passed in it failing now. What it
  reports does not depend on the order in which Go ranges over the baseline's maps, and a corpus
  is never worse than itself.\<close>

theorem gate_passes_iff:
  "(Check s b = [] \<longleftrightarrow> no_worse s b)
   \<and> (\<forall>pd pc. mset pd = mset (sm_PerDetector b) \<and> mset pc = mset (sm_PerCase b) \<longrightarrow>
        Check s (b\<lparr>sm_PerDetector := pd, sm_PerCase := pc\<rparr>) = Check s b)
   \<and> (distinct (map fst (sm_PerDetector s)) \<and> distinct (map fst (sm_PerCase s)) \<and> f64_scores s \<longrightarrow> Check s s = [])"
  by (intro conjI allI impI Check_Nil) (auto intro!: Check_same Check_order)

definition one_case :: "bool \<Rightarrow> rat \<Rightarrow> summary" where
  "one_case ok p = \<lparr>sm_Cases = 1, sm_Negatives = 0, sm_FPRate = 0,
     sm_PerDetector = [(''pii'', \<lparr>sc_Counts = zero_counts, sc_Precision = p, sc_Recall = 1, sc_F1 = 1\<rparr>)],
     sm_PerCase = [(''a'', ok)]\<rparr>"

lemma one_bound: "f64 (1 - Tolerance) \<le> 996 / 1000" "f64 (1 - Tolerance) \<le> 1" "\<not> f64 (1 - Tolerance) \<le> 994 / 1000"
  using bound_near(1) [of 1, OF zero_le_one order_refl] last_bits by linarith+

text \<open>A loss of exactly the tolerance is refused where rounding puts the bound above it.\<close>

lemma boundary_refused: "\<not> f64 (f64 (5016 / 10000) - Tolerance) \<le> f64 (4966 / 10000)"
proof -
  have v: "f64 (5016 / 10000) = of_int 4518011146178082 * 2 powi (-53)" "Tolerance = of_int 5764607523034235 * 2 powi (-60)"
    "f64 (4966 / 10000) = of_int 8945950299808753 * 2 powi (-54)"
    unfolding Tolerance_def by (rule f64_value; simp add: power_int_minus_divide)+
  have "f64 (f64 (5016 / 10000) - Tolerance) = of_int 8945950299808754 * 2 powi (-54)"
    unfolding v by (rule f64_value) (simp_all add: power_int_minus_divide)
  then show ?thesis unfolding v by (simp add: power_int_minus_divide)
qed

lemma one_case_no_worse: "no_worse (one_case a p) (one_case b q) \<longleftrightarrow> f64 (q - Tolerance) \<le> p \<and> (b \<longrightarrow> a)"
  using within_own(1) [of 1] f64_is [of 1] f64_nonneg [OF Tolerance_pos]
  by (simp only: f64_numerals) (auto simp: one_case_def no_worse_def)

theorem gate_passes_iff_witness:
  "Check (one_case True 1) (one_case True 1) = [] \<and> Check (one_case True (996 / 1000)) (one_case True 1) = []
   \<and> Check (one_case True (994 / 1000)) (one_case True 1) \<noteq> [] \<and> Check (one_case False 1) (one_case True 1) \<noteq> []"
  using gate_passes_iff [of "one_case True 1" "one_case True 1"] gate_passes_iff [of "one_case True (996 / 1000)" "one_case True 1"]
    gate_passes_iff [of "one_case True (994 / 1000)" "one_case True 1"] gate_passes_iff [of "one_case False 1" "one_case True 1"]
  unfolding one_case_no_worse using one_bound by blast

end
