(* ===== verification/Eval_Main.thy ===== *)
theory Eval_Main
  imports Eval_Correct
begin

text \<open>
  \<open>cmd/eval/main.go\<close>: the command that scores a corpus, prints the scores, writes a baseline and checks
  against one. The file system is part of the state: what reading each path gives. Writing a file
  and the JSON of a baseline and of a report are parameters, and so are the flags, which \<open>flag.Parse\<close> has read.
\<close>

section \<open>State and parameters\<close>

record eval_flags =
  fl_cases :: string
  fl_check :: string
  fl_write :: string
  fl_report :: string

text \<open>The defaults of \<open>run\<close>.\<close>

definition default_flags :: eval_flags where
  "default_flags = \<lparr>fl_cases = ''evals/cases'', fl_check = [], fl_write = [], fl_report = []\<rparr>"

type_synonym files = "string \<Rightarrow> string result"

record eval_world =
  ew_files :: files
  ew_out :: string
  ew_err :: string

type_synonym baseline = "(string \<times> summary) list"

record command_host = eval_host +
  eh_WriteFile :: "string \<Rightarrow> string \<Rightarrow> files \<Rightarrow> go_error option \<times> files"
  eh_marshal_report :: "string \<Rightarrow> summary \<Rightarrow> case_result list \<Rightarrow> string result"
  eh_marshal_baseline :: "baseline \<Rightarrow> string result"
  eh_unmarshal_baseline :: "string \<Rightarrow> baseline result"
  eh_detect :: detect_libs
  eh_text :: text_lib

definition Subset :: string where "Subset = ''fast''"

definition newline :: string where "newline = [CHR 0x0A]"

definition print :: "string \<Rightarrow> eval_world \<Rightarrow> eval_world" where
  "print s w = w\<lparr>ew_out := ew_out w @ s\<rparr>"

definition eprint :: "string \<Rightarrow> eval_world \<Rightarrow> eval_world" where
  "eprint s w = w\<lparr>ew_err := ew_err w @ s\<rparr>"

section \<open>Printing\<close>

text \<open>\<open>%-44s\<close> counts runes; \<open>%v\<close> of a list of strings puts blanks between them.\<close>

definition pad_right :: "nat \<Rightarrow> string \<Rightarrow> string" where
  "pad_right n s = s @ replicate (n - RuneCount s) CHR '' ''"

fun join_blank :: "string list \<Rightarrow> string" where
  "join_blank [] = []"
| "join_blank [s] = s"
| "join_blank (s # t # ss) = s @ '' '' @ join_blank (t # ss)"

definition show_list :: "string list \<Rightarrow> string" where
  "show_list ss = ''['' @ join_blank ss @ '']''"

definition result_line :: "case_result \<Rightarrow> string" where
  "result_line r =
     pad_right 44 (rs_ID r) @ '' '' @ (if \<not> rs_Pass r then ''FAIL'' else ''pass'')
     @ (if length (rs_Missing r) > 0 then ''  missing='' @ show_list (rs_Missing r) else [])
     @ (if length (rs_Extra r) > 0 then ''  extra='' @ show_list (rs_Extra r) else [])
     @ newline"

definition zero_score :: score where
  "zero_score = \<lparr>sc_Counts = zero_counts, sc_Precision = 0, sc_Recall = 0, sc_F1 = 0\<rparr>"

definition score_line :: "summary \<Rightarrow> string \<Rightarrow> string" where
  "score_line summary name =
     (let s = (case map_of (sm_PerDetector summary) name of Some s \<Rightarrow> s | None \<Rightarrow> zero_score) in
      ''  '' @ pad_right 22 name @ '' precision='' @ show_4f (sc_Precision s) @ '' recall='' @ show_4f (sc_Recall s)
      @ '' f1='' @ show_4f (sc_F1 s) @ ''  (tp='' @ show_d (ct_TP (sc_Counts s)) @ '' fp='' @ show_d (ct_FP (sc_Counts s))
      @ '' fn='' @ show_d (ct_FN (sc_Counts s)) @ '')'' @ newline)"

definition summary_lines :: "summary \<Rightarrow> string" where
  "summary_lines summary =
     newline @ ''['' @ Subset @ ''] cases='' @ show_d (sm_Cases summary) @ '' negatives='' @ show_d (sm_Negatives summary)
     @ '' fp_rate='' @ show_4f (sm_FPRate summary) @ newline
     @ concat (map (score_line summary) (sort (map fst (sm_PerDetector summary))))"

section \<open>The command\<close>

text \<open>\<open>data\<close> is what \<open>json.MarshalIndent\<close> returned for the value.\<close>

definition write_json :: "command_host \<Rightarrow> string \<Rightarrow> string result \<Rightarrow> eval_world \<Rightarrow> go_error option \<times> eval_world" where
  "write_json h path data w =
     (case data of
        Inl err \<Rightarrow> (Some err, w)
      | Inr d \<Rightarrow> (let (err, files) = eh_WriteFile h path (d @ newline) (ew_files w) in (err, w\<lparr>ew_files := files\<rparr>)))"

fun run_cases :: "command_host \<Rightarrow> eval_case list \<Rightarrow> case_result list \<Rightarrow> case_result list result option" where
  "run_cases h [] results = Some (Inr results)"
| "run_cases h (c # cs) results =
     (case Run (eh_detect h) (eh_text h) c of
        None \<Rightarrow> None
      | Some (Inl err) \<Rightarrow> Some (Inl (Wrap (''case '' @ cs_ID c) err))
      | Some (Inr r) \<Rightarrow> run_cases h cs (results @ [r]))"

definition write_report :: "command_host \<Rightarrow> eval_flags \<Rightarrow> summary \<Rightarrow> case_result list \<Rightarrow> eval_world \<Rightarrow> go_error option \<times> eval_world" where
  "write_report h fl summary results w =
     (if fl_report fl \<noteq> [] then write_json h (fl_report fl) (eh_marshal_report h Subset summary results) w else (None, w))"

definition write_baseline :: "command_host \<Rightarrow> eval_flags \<Rightarrow> summary \<Rightarrow> eval_world \<Rightarrow> go_error option \<times> eval_world" where
  "write_baseline h fl summary w =
     (if fl_write fl \<noteq> [] then
        (case (case ew_files w (fl_write fl) of Inr data \<Rightarrow> eh_unmarshal_baseline h data | Inl _ \<Rightarrow> Inr []) of
           Inl err \<Rightarrow> (Some err, w)
         | Inr saved \<Rightarrow>
             (case write_json h (fl_write fl) (eh_marshal_baseline h (AList.update Subset summary saved)) w of
                (Some err, w) \<Rightarrow> (Some err, w)
              | (None, w) \<Rightarrow> (None, print (''wrote baseline ['' @ Subset @ ''] to '' @ fl_write fl @ newline) w)))
      else (None, w))"

definition check_baseline :: "command_host \<Rightarrow> eval_flags \<Rightarrow> summary \<Rightarrow> eval_world \<Rightarrow> go_error option \<times> eval_world" where
  "check_baseline h fl summary w =
     (if fl_check fl \<noteq> [] then
        (case ew_files w (fl_check fl) of
           Inl err \<Rightarrow> (Some err, w)
         | Inr data \<Rightarrow>
        (case eh_unmarshal_baseline h data of
           Inl err \<Rightarrow> (Some err, w)
         | Inr saved \<Rightarrow>
        (case map_of saved Subset of
           None \<Rightarrow> (Some (ErrorText (''no baseline for ['' @ Subset @ ''] in '' @ fl_check fl)), w)
         | Some baseline \<Rightarrow>
             (let failures = Check summary baseline;
                  w = eprint (concat (map (\<lambda>f. ''FAIL: '' @ f @ newline) failures)) w
              in if length failures > 0
                 then (Some (ErrorText (show_d (int (length failures)) @ '' eval gate failure(s)'')), w)
                 else (None, print (''eval gate passed'' @ newline) w)))))
      else (None, w))"

text \<open>\<^const>\<open>None\<close> is a panic in the normalizer.\<close>

definition run_eval :: "command_host \<Rightarrow> eval_flags \<Rightarrow> eval_world \<Rightarrow> (go_error option \<times> eval_world) option" where
  "run_eval h fl w =
     (case LoadCases (eval_host.truncate h) (ew_files w) (fl_cases fl) of
        Inl err \<Rightarrow> Some (Some err, w)
      | Inr cs \<Rightarrow>
     (if length cs = 0 then Some (Some (ErrorText (''no cases in '' @ fl_cases fl)), w)
      else
     (case run_cases h cs [] of
        None \<Rightarrow> None
      | Some (Inl err) \<Rightarrow> Some (Some err, w)
      | Some (Inr results) \<Rightarrow>
     (let summary = Summarize cs results;
          w = print (concat (map result_line results) @ summary_lines summary) w
      in Some
     (case write_report h fl summary results w of
        (Some err, w) \<Rightarrow> (Some err, w)
      | (None, w) \<Rightarrow>
     (case write_baseline h fl summary w of
        (Some err, w) \<Rightarrow> (Some err, w)
      | (None, w) \<Rightarrow> check_baseline h fl summary w))))))"

text \<open>\<open>main\<close>: the exit code, and what is left.\<close>

definition eval_main :: "command_host \<Rightarrow> eval_flags \<Rightarrow> eval_world \<Rightarrow> (int \<times> eval_world) option" where
  "eval_main h fl w =
     (case run_eval h fl w of
        None \<Rightarrow> None
      | Some (Some err, w) \<Rightarrow> Some (1, eprint (''eval: '' @ error_text err @ newline) w)
      | Some (None, w) \<Rightarrow> Some (0, w))"

section \<open>Facts\<close>

lemma run_cases_spec:
  assumes "nfkc_documented (eh_text h)"
  shows "\<exists>rs. run_cases h cs results = Some (Inr (results @ rs)) \<and> scored (eh_detect h) (eh_text h) cs rs"
proof (induction cs arbitrary: results)
  case (Cons c cs)
  obtain r where r: "Run (eh_detect h) (eh_text h) c = Some (Inr r)" using Run_eq [OF assms, of "eh_detect h" c] by blast
  obtain rs where "run_cases h cs (results @ [r]) = Some (Inr ((results @ [r]) @ rs))" "scored (eh_detect h) (eh_text h) cs rs"
    using Cons.IH by blast
  with r show ?case by (intro exI [of _ "r # rs"]) (simp add: scored_def)
qed (simp add: scored_def)

text \<open>What a corpus scores, once it is loaded.\<close>

definition corpus_results :: "command_host \<Rightarrow> eval_case list \<Rightarrow> case_result list" where
  "corpus_results h cs = (case run_cases h cs [] of Some (Inr rs) \<Rightarrow> rs | _ \<Rightarrow> [])"

lemma corpus_results_spec:
  assumes "nfkc_documented (eh_text h)"
  shows "run_cases h cs [] = Some (Inr (corpus_results h cs))" "scored (eh_detect h) (eh_text h) cs (corpus_results h cs)"
  using run_cases_spec [OF assms, of cs "[]"] by (auto simp: corpus_results_def)

definition corpus_summary :: "command_host \<Rightarrow> eval_case list \<Rightarrow> summary" where
  "corpus_summary h cs = Summarize cs (corpus_results h cs)"

lemma corpus_Check_same:
  assumes "nfkc_documented (eh_text h)"
  shows "Check (corpus_summary h cs) (corpus_summary h cs) = []"
  unfolding corpus_summary_def
  using scored_compared(1) [OF assms corpus_results_spec(2) [OF assms, of cs]] by (intro Check_same Summarize_keys Summarize_f64)

lemma print_simps [simp]:
  "ew_files (print s w) = ew_files w" "ew_files (eprint s w) = ew_files w" "ew_err (print s w) = ew_err w"
  "ew_out (eprint s w) = ew_out w" "eprint [] w = w"
  by (simp_all add: print_def eprint_def)

lemma run_eval_loaded:
  assumes "nfkc_documented (eh_text h)" "LoadCases (eval_host.truncate h) (ew_files w) (fl_cases fl) = Inr cs" "cs \<noteq> []"
  shows "run_eval h fl w =
    (let w = print (concat (map result_line (corpus_results h cs)) @ summary_lines (corpus_summary h cs)) w
     in Some (case write_report h fl (corpus_summary h cs) (corpus_results h cs) w of
          (Some err, w) \<Rightarrow> (Some err, w)
        | (None, w) \<Rightarrow>
       (case write_baseline h fl (corpus_summary h cs) w of
          (Some err, w) \<Rightarrow> (Some err, w)
        | (None, w) \<Rightarrow> check_baseline h fl (corpus_summary h cs) w)))"
  unfolding corpus_summary_def
  using assms(2,3) corpus_results_spec(1) [OF assms(1), of cs] by (simp add: run_eval_def Let_def)

lemma write_json_ok:
  "write_json h path data w = (None, w1) \<Longrightarrow>
    \<exists>d. data = Inr d \<and> eh_WriteFile h path (d @ newline) (ew_files w) = (None, ew_files w1)"
  by (auto simp: write_json_def split: sum.splits prod.splits)

lemma write_baseline_ok:
  assumes "write_baseline h fl s w = (None, w1)" "fl_write fl \<noteq> []"
  shows "\<exists>saved d. eh_marshal_baseline h (AList.update Subset s saved) = Inr d
    \<and> eh_WriteFile h (fl_write fl) (d @ newline) (ew_files w) = (None, ew_files w1)"
proof (cases "case ew_files w (fl_write fl) of Inr data \<Rightarrow> eh_unmarshal_baseline h data | Inl _ \<Rightarrow> Inr []")
  case (Inl err)
  then show ?thesis using assms by (simp add: write_baseline_def)
next
  case (Inr saved)
  obtain w2 where "write_json h (fl_write fl) (eh_marshal_baseline h (AList.update Subset s saved)) w = (None, w2)"
    "ew_files w1 = ew_files w2"
    using assms by (simp add: write_baseline_def Inr split: prod.splits option.splits) auto
  then show ?thesis using write_json_ok by metis
qed

text \<open>The baseline a check reads, when there is one.\<close>

definition baseline_at :: "command_host \<Rightarrow> files \<Rightarrow> string \<Rightarrow> summary option" where
  "baseline_at h files path =
     (case files path of Inl _ \<Rightarrow> None
      | Inr data \<Rightarrow> (case eh_unmarshal_baseline h data of Inl _ \<Rightarrow> None | Inr saved \<Rightarrow> map_of saved Subset))"

lemma check_baseline_spec:
  assumes "fl_check fl \<noteq> []"
  shows "fst (check_baseline h fl s w) = None \<longleftrightarrow> (\<exists>b. baseline_at h (ew_files w) (fl_check fl) = Some b \<and> no_worse s b)"
    "ew_files (snd (check_baseline h fl s w)) = ew_files w"
  using assms
  by (auto simp: check_baseline_def baseline_at_def Let_def simp flip: Check_Nil split: sum.splits option.splits)

definition check_only :: "eval_flags \<Rightarrow> bool" where
  "check_only fl = (fl_check fl \<noteq> [] \<and> fl_write fl = [] \<and> fl_report fl = [])"

lemma run_eval_checks:
  assumes "nfkc_documented (eh_text h)" "check_only fl"
  shows "\<exists>err w'. run_eval h fl w = Some (err, w') \<and> ew_files w' = ew_files w
    \<and> (err = None \<longleftrightarrow> (\<exists>cs b. LoadCases (eval_host.truncate h) (ew_files w) (fl_cases fl) = Inr cs \<and> cs \<noteq> []
          \<and> baseline_at h (ew_files w) (fl_check fl) = Some b \<and> no_worse (corpus_summary h cs) b))"
proof (cases "LoadCases (eval_host.truncate h) (ew_files w) (fl_cases fl)")
  case (Inl err)
  then show ?thesis by (simp add: run_eval_def)
next
  case (Inr cs)
  show ?thesis
  proof (cases "cs = []")
    case True
    then show ?thesis using Inr by (simp add: run_eval_def)
  next
    case False
    define w0 where "w0 = print (concat (map result_line (corpus_results h cs)) @ summary_lines (corpus_summary h cs)) w"
    have "run_eval h fl w = Some (check_baseline h fl (corpus_summary h cs) w0)"
      using assms(2) by (simp add: run_eval_loaded [OF assms(1) Inr False] w0_def Let_def check_only_def write_report_def write_baseline_def)
    moreover have "ew_files w0 = ew_files w" by (simp add: w0_def)
    ultimately show ?thesis
      using check_baseline_spec [of fl h "corpus_summary h cs" w0] assms(2) Inr False
      by (intro exI [of _ "fst (check_baseline h fl (corpus_summary h cs) w0)"]
          exI [of _ "snd (check_baseline h fl (corpus_summary h cs) w0)"]) (simp add: check_only_def)
  qed
qed

section \<open>Properties\<close>

text \<open>C34: what CI runs, a check against a baseline, always ends, and leaves every file as it was. Its exit code is zero exactly when the
  corpus loads and is not empty, the baseline file has a baseline for these detectors, and the scores
  are no worse than it, by the bounds as \<open>float64\<close> rounds them: a corpus or a baseline that is missing, unreadable or
  empty fails the gate. The rounding matters only within two to the minus 51 of the tolerance of 0.005: with a baseline
  of scores between zero and one, a loss smaller than that passes and a larger one fails.\<close>

theorem eval_gate_decides:
  assumes "nfkc_documented (eh_text h)" "check_only fl"
  shows "\<exists>code w'. eval_main h fl w = Some (code, w') \<and> ew_files w' = ew_files w \<and> code \<in> {0, 1}
    \<and> (code = 0 \<longleftrightarrow> (\<exists>cs b. LoadCases (eval_host.truncate h) (ew_files w) (fl_cases fl) = Inr cs \<and> cs \<noteq> []
          \<and> baseline_at h (ew_files w) (fl_check fl) = Some b \<and> no_worse (corpus_summary h cs) b))
    \<and> (\<forall>cs b. LoadCases (eval_host.truncate h) (ew_files w) (fl_cases fl) = Inr cs \<and> cs \<noteq> []
          \<and> baseline_at h (ew_files w) (fl_check fl) = Some b \<and> unit_scores b \<longrightarrow>
        (no_worse_by (5 / 1000 - 1 / 2 ^ 51) (corpus_summary h cs) b \<longrightarrow> code = 0)
        \<and> (code = 0 \<longrightarrow> no_worse_by (5 / 1000 + 1 / 2 ^ 51) (corpus_summary h cs) b))"
proof -
  obtain err w' where r: "run_eval h fl w = Some (err, w')" "ew_files w' = ew_files w"
    "err = None \<longleftrightarrow> (\<exists>cs b. LoadCases (eval_host.truncate h) (ew_files w) (fl_cases fl) = Inr cs \<and> cs \<noteq> []
          \<and> baseline_at h (ew_files w) (fl_check fl) = Some b \<and> no_worse (corpus_summary h cs) b)"
    using run_eval_checks [OF assms, of w] by blast
  define code :: int where "code = (case err of None \<Rightarrow> 0 | Some _ \<Rightarrow> 1)"
  have code: "code = 0 \<longleftrightarrow> err = None" "code \<in> {0, 1}" by (simp_all add: code_def split: option.splits)
  obtain w'' where "eval_main h fl w = Some (code, w'')" "ew_files w'' = ew_files w"
    by (cases err) (use r(1,2) in \<open>simp_all add: eval_main_def code_def\<close>)
  then show ?thesis
    by (rule_tac x = code in exI, rule_tac x = w'' in exI)
      (use r(3) code no_worse_between in \<open>fastforce simp only: split: option.splits\<close>)
qed

text \<open>A host whose corpus is the file \<open>c.json\<close>, one quiet case, and whose decoder knows one baseline.\<close>

definition sample_summary :: "string \<Rightarrow> summary" where
  "sample_summary i = (let r = the (Run plain_libs ascii_lib (quiet_case\<lparr>cs_ID := i\<rparr>)) in
     case r of Inr r \<Rightarrow> Summarize [quiet_case\<lparr>cs_ID := i\<rparr>] [r] | Inl _ \<Rightarrow> one_case True 1)"

definition sample_host :: command_host where
  "sample_host = \<lparr>eh_Glob = (\<lambda>dir. Inr [dir @ ''/c.json'']),
     eh_unmarshal_cases = (\<lambda>data. Inr [quiet_case\<lparr>cs_ID := data\<rparr>]),
     eh_WriteFile = (\<lambda>path d files. (None, files(path := Inr d))),
     eh_marshal_report = (\<lambda>_ _ _. Inr []),
     eh_marshal_baseline = (\<lambda>m. if m = [(Subset, sample_summary ''a'')] then Inr ''b'' else Inl (ErrorText ''unsupported'')),
     eh_unmarshal_baseline = (\<lambda>d. if d = ''b'' @ newline then Inr [(Subset, sample_summary ''a'')] else Inl (ErrorText ''bad'')),
     eh_detect = plain_libs, eh_text = ascii_lib\<rparr>"

definition sample_files :: "string \<Rightarrow> eval_world" where
  "sample_files i = \<lparr>ew_files = (\<lambda>_. Inl (ErrorText ''no such file''))(''evals/cases/c.json'' := Inr i), ew_out = [], ew_err = []\<rparr>"

lemma sample_corpus:
  assumes "files ''evals/cases/c.json'' = Inr i"
  shows "LoadCases (eval_host.truncate sample_host) files ''evals/cases'' = Inr [quiet_case\<lparr>cs_ID := i\<rparr>]"
  using assms by (simp add: LoadCases_def sample_host_def eval_host.truncate_def)

lemma sample_doc: "nfkc_documented (eh_text sample_host)"
  by (simp add: sample_host_def ascii_lib_doc)

lemma sample_corpus_summary: "corpus_summary sample_host [quiet_case\<lparr>cs_ID := i\<rparr>] = sample_summary i"
proof -
  obtain r where "Run plain_libs ascii_lib (quiet_case\<lparr>cs_ID := i\<rparr>) = Some (Inr r)" using Run_eq [OF ascii_lib_doc] by blast
  then show ?thesis by (simp add: corpus_summary_def corpus_results_def sample_summary_def sample_host_def)
qed

lemma sample_host_simps:
  "eh_marshal_baseline sample_host [(Subset, sample_summary ''a'')] = Inr ''b''"
  "eh_WriteFile sample_host path d files = (None, files(path := Inr d))"
  by (simp_all add: sample_host_def)

lemma sample_write_baseline:
  assumes "ew_files w ''base.json'' = Inl err"
  shows "\<exists>w1. write_baseline sample_host (default_flags\<lparr>fl_write := ''base.json''\<rparr>) (sample_summary ''a'') w = (None, w1)
    \<and> ew_files w1 = (ew_files w)(''base.json'' := Inr (''b'' @ newline))"
  by (simp add: write_baseline_def default_flags_def assms write_json_def sample_host_simps)

lemma sample_writes:
  "\<exists>w1. eval_main sample_host (default_flags\<lparr>fl_write := ''base.json''\<rparr>) (sample_files ''a'') = Some (0, w1)
     \<and> ew_files w1 = (ew_files (sample_files ''a''))(''base.json'' := Inr (''b'' @ newline))"
proof -
  let ?fl = "default_flags\<lparr>fl_write := ''base.json''\<rparr>"
  have "LoadCases (eval_host.truncate sample_host) (ew_files (sample_files ''a'')) (fl_cases ?fl) = Inr [quiet_case\<lparr>cs_ID := ''a''\<rparr>]"
    unfolding default_flags_def by (simp add: sample_corpus sample_files_def)
  note run = run_eval_loaded [OF sample_doc this, simplified sample_corpus_summary]
  define w0 where "w0 = print (concat (map result_line (corpus_results sample_host [quiet_case\<lparr>cs_ID := ''a''\<rparr>]))
    @ summary_lines (sample_summary ''a'')) (sample_files ''a'')"
  have "ew_files w0 = ew_files (sample_files ''a'')" by (simp add: w0_def)
  then obtain w1 where w1: "write_baseline sample_host ?fl (sample_summary ''a'') w0 = (None, w1)"
    "ew_files w1 = (ew_files (sample_files ''a''))(''base.json'' := Inr (''b'' @ newline))"
    using sample_write_baseline [of w0] by (auto simp: sample_files_def)
  have "fl_report ?fl = []" "fl_check ?fl = []" by (simp_all add: default_flags_def)
  then have "run_eval sample_host ?fl (sample_files ''a'') = Some (None, w1)"
    using run w1(1) by (simp add: w0_def Let_def write_report_def check_baseline_def)
  then show ?thesis using w1(2) by (simp add: eval_main_def)
qed

text \<open>Without a baseline file the check exits with one.\<close>

theorem eval_gate_decides_witness:
  "\<exists>w'. eval_main sample_host (default_flags\<lparr>fl_check := ''base.json''\<rparr>) (sample_files ''a'') = Some (1, w')"
  using eval_gate_decides [OF sample_doc, of "default_flags\<lparr>fl_check := ''base.json''\<rparr>" "sample_files ''a''"]
  by (auto simp: check_only_def default_flags_def baseline_at_def sample_files_def)

text \<open>What is relied on outside the program: a baseline written as JSON is read back as it was, and a file
  that was written holds what was written, the other files what they held.\<close>

definition json_documented :: "command_host \<Rightarrow> bool" where
  "json_documented h = (\<forall>m d. eh_marshal_baseline h m = Inr d \<longrightarrow> eh_unmarshal_baseline h (d @ newline) = Inr m)"

definition os_documented :: "command_host \<Rightarrow> bool" where
  "os_documented h = (\<forall>path d files files'. eh_WriteFile h path d files = (None, files') \<longrightarrow> files' = files(path := Inr d))"

text \<open>A baseline that was written passes its own check: after a successful run that writes one, checking the
  same corpus against the file exits with zero and reports nothing.\<close>

theorem eval_baseline_roundtrip:
  assumes "nfkc_documented (eh_text h)" "json_documented h" "os_documented h" "path \<noteq> []"
    and "eval_main h (default_flags\<lparr>fl_write := path\<rparr>) w = Some (0, w1)"
    and "LoadCases (eval_host.truncate h) (ew_files w1) (fl_cases default_flags)
      = LoadCases (eval_host.truncate h) (ew_files w) (fl_cases default_flags)"
  shows "\<exists>w2. eval_main h (default_flags\<lparr>fl_check := path\<rparr>) w1 = Some (0, w2) \<and> ew_err w2 = ew_err w1"
proof -
  let ?wf = "default_flags\<lparr>fl_write := path\<rparr>" and ?cf = "default_flags\<lparr>fl_check := path\<rparr>"
  have run: "run_eval h ?wf w = Some (None, w1)"
    using assms(5) by (auto simp: eval_main_def split: option.splits prod.splits)
  then obtain cs where cs: "LoadCases (eval_host.truncate h) (ew_files w) (fl_cases default_flags) = Inr cs" "cs \<noteq> []"
    by (auto simp: run_eval_def default_flags_def split: sum.splits if_splits)
  let ?s = "corpus_summary h cs"
  define w0 where "w0 = print (concat (map result_line (corpus_results h cs)) @ summary_lines ?s) w"
  have "LoadCases (eval_host.truncate h) (ew_files w) (fl_cases ?wf) = Inr cs" using cs(1) by (simp add: default_flags_def)
  from run_eval_loaded [OF assms(1) this cs(2)] run
  have "write_baseline h ?wf ?s w0 = (None, w1)"
    by (simp add: w0_def Let_def write_report_def check_baseline_def default_flags_def split: prod.splits option.splits)
  from write_baseline_ok [OF this] obtain saved d where w: "eh_marshal_baseline h (AList.update Subset ?s saved) = Inr d"
    "eh_WriteFile h path (d @ newline) (ew_files w0) = (None, ew_files w1)"
    using assms(4) by auto
  from w(2) assms(3) have "ew_files w1 path = Inr (d @ newline)" unfolding os_documented_def by (metis fun_upd_same)
  moreover from w(1) assms(2) have "eh_unmarshal_baseline h (d @ newline) = Inr (AList.update Subset ?s saved)"
    unfolding json_documented_def by blast
  ultimately have "baseline_at h (ew_files w1) path = Some ?s" by (simp add: baseline_at_def AList.update_conv')
  then have "check_baseline h ?cf ?s x = (None, print (''eval gate passed'' @ newline) x)" if "ew_files x = ew_files w1" for x
    using that assms(4) corpus_Check_same [OF assms(1), of cs]
    by (auto simp: check_baseline_def baseline_at_def default_flags_def Let_def split: sum.splits option.splits)
  moreover have "LoadCases (eval_host.truncate h) (ew_files w1) (fl_cases ?cf) = Inr cs"
    using cs(1) assms(6) by (simp add: default_flags_def)
  note run_eval_loaded [OF assms(1) this cs(2)]
  ultimately show ?thesis
    by (simp add: eval_main_def Let_def write_report_def write_baseline_def default_flags_def)
qed

theorem eval_baseline_roundtrip_witness:
  "\<exists>w1 w2. eval_main sample_host (default_flags\<lparr>fl_write := ''base.json''\<rparr>) (sample_files ''a'') = Some (0, w1)
     \<and> eval_main sample_host (default_flags\<lparr>fl_check := ''base.json''\<rparr>) w1 = Some (0, w2)"
proof -
  obtain w1 where w1: "eval_main sample_host (default_flags\<lparr>fl_write := ''base.json''\<rparr>) (sample_files ''a'') = Some (0, w1)"
    "ew_files w1 = (ew_files (sample_files ''a''))(''base.json'' := Inr (''b'' @ newline))"
    using sample_writes by blast
  have doc: "json_documented sample_host" "os_documented sample_host"
    by (auto simp: json_documented_def os_documented_def sample_host_def split: if_splits)
  have "LoadCases (eval_host.truncate sample_host) (ew_files w1) (fl_cases default_flags)
      = LoadCases (eval_host.truncate sample_host) (ew_files (sample_files ''a'')) (fl_cases default_flags)"
    by (simp add: default_flags_def sample_corpus [of _ "''a''"] w1(2) sample_files_def)
  from eval_baseline_roundtrip [OF sample_doc doc _ w1(1) this] w1(1) show ?thesis by auto
qed

end
