(* ===== verification/Spec2Isabelle.thy ===== *)
theory Spec2Isabelle
  imports Gateway Litellm Schedules Pin_Race Eval_Main
begin

text \<open>
  \<^bold>\<open>A verification development for the inspection service\<close>

  The program is a service that sits beside an AI gateway and inspects each hop of an agent's
  conversation: tool definitions, inputs, tool calls, tool results and outputs. A hop becomes a
  request of text parts. A pipeline normalizes the texts, runs detectors over them, asks a policy
  what to do, keeps session state (taint, pinned tool definitions, blocked tools) and writes one
  audit event. The answer is a verdict: allow, flag, redact or block, with the spans to redact.

  \<^bold>\<open>Parts and theories.\<close>
  \<^item> \<open>Prelude\<close>, \<open>Core_Types\<close>: errors as values (\<open>go_error\<close>, \<open>result\<close>), Go's slices, the search of
    package \<open>sort\<close>; surfaces, actions, spans, findings, requests, verdicts (\<open>internal/core/core.go\<close>).
  \<^item> \<open>Offsets\<close>, \<open>Spans\<close>: the maps from normalized back to original offsets and the merge of
    redaction spans (\<open>internal/core/offset.go\<close>).
  \<^item> \<open>Session\<close>: the in-memory and the Redis store (\<open>internal/session\<close>), with the locale
    \<open>session_store\<close> for the interface between the pipeline and either of them.
  \<^item> \<open>Audit_Log\<close>, \<open>Pipeline\<close>: the audit event and sink (\<open>internal/audit\<close>) and the stages of one
    inspection (\<open>internal/core/pipeline.go\<close>), over a state type that holds everything outside the
    pipeline. The locale \<open>audited_pipeline\<close> states that only the sink writes audit lines. What the sink makes of an
    event may fail, and the pipeline ignores it (\<open>written\<close>, \<open>trail_of\<close>).
  \<^item> \<open>Policy\<close>: the rule table and its evaluator (\<open>internal/policy\<close>).
  \<^item> \<open>Utf8\<close>, \<open>Regex\<close>, \<open>Json_Lex\<close>, \<open>Float64\<close>: what the source uses of Go and its standard library, the decoding of
    runes, leftmost-first matching of regular expressions with its empty-width assertions, the
    JSON scanner, validator and token stream, and the rounding of \<open>float64\<close>. They map to no line of the repository.
  \<^item> \<open>Base64\<close>, \<open>Normalize\<close>, \<open>Normalize_Correct\<close>: the passes of the normalizer
    (\<open>internal/normalize\<close>, \<open>internal/detect/base64.go\<close>). The locale \<open>text_pass\<close> says what every pass
    owes the offset maps, and is interpreted on all of them.
  \<^item> \<open>Detect_Names\<close>, \<open>Detect\<close>, \<open>Validators\<close>, \<open>Pii\<close>, \<open>Secrets\<close>, \<open>Injection\<close>, \<open>Exfil\<close>: the detector
    registry, the check digits, and the detectors (\<open>internal/detect\<close>). The locale
    \<open>bounded_detector\<close> says that a detector's spans lie inside the text it was given.
  \<^item> \<open>Aho_Corasick\<close>, \<open>Aho_Corasick_Correct\<close>, \<open>Custom_Dict\<close>: a tenant's dictionary
    (\<open>ahocorasick.go\<close>, \<open>customdict.go\<close>), the automaton and what it finds.
  \<^item> \<open>Inspector\<close>, \<open>Inspector_Correct\<close>: the pipeline wired to the in-memory store, the normalizer, a
    registry and a policy (\<open>cmd/inspector/main.go\<close>), and what holds of sequences of hops.
  \<^item> \<open>Json_Value\<close>, \<open>Json_Roundtrip\<close>: generic JSON values, their decoder on the token stream of
    \<open>Json_Lex\<close>, their encoder, and the round trip. Standard library as well.
  \<^item> \<open>Json_Text\<close>, \<open>Json_Text_Correct\<close>, \<open>Payloads\<close>: the text fields of a payload and the redactions
    written back into them (\<open>internal/adapters/agentgateway/jsontext.go\<close>).
  \<^item> \<open>Wire\<close>, \<open>Mcp\<close>, \<open>Mcp_Correct\<close>, \<open>Llm\<close>, \<open>Llm_Correct\<close>: the two adapters of the gateway
    (\<open>mcp.go\<close>, \<open>llm.go\<close>) over an inspector that is any function on a state, and on the service.
  \<^item> \<open>Http\<close>, \<open>Litellm\<close>: the other adapters (\<open>internal/adapters/http\<close>, \<open>internal/adapters/litellm\<close>).
  \<^item> \<open>Fast_Set\<close>, \<open>Startup\<close>: the detectors the process ships (\<open>internal/detect/v1.go\<close>), and the process,
    its configuration, start-up, routes and end (\<open>cmd/inspector/main.go\<close>).
  \<^item> \<open>Replicas\<close>: several processes over one Redis server. The locale \<open>shared_inspection\<close> says what a pipeline
    keeps of the store besides its own reads and writes, and holds for either store.
  \<^item> \<open>Inspection_Calls\<close>, \<open>Concurrent\<close>, \<open>Concurrent_Correct\<close>, \<open>Schedules\<close>, \<open>Pin_Race\<close>: requests in parallel. An
    inspection is cut at its calls of the store, the sink and the clock, each atomic by a mutex or as one Redis
    command; \<open>conc_step\<close> interleaves the calls of the requests in flight with the arrival of others and what the
    environment does. The locale \<open>shared_mark\<close> says what an entry of the store must satisfy for one inspection to
    leave it and a later one to meet it; taint and blocked tools are interpretations of it, over either store.
  \<^item> \<open>Regex_Complete\<close>, \<open>Injection_Correct\<close>, \<open>Hidden_Text\<close>, \<open>Plain_Text\<close>, \<open>Shipped_Findings\<close>: a declarative semantics of the
    patterns that the matcher is complete for, the phrases the injection heuristic is sure to report, what the pass on
    invisible characters removes and reports, text the normalizer leaves alone otherwise, and what the service finds in it.
  \<^item> \<open>E2e\<close>, \<open>Gateway\<close>: the sample MCP server and the policy of the end-to-end stack (\<open>deploy/e2e\<close>), the registration
    of both gateway servers (\<open>agentgateway.go\<close>), and what policy, detectors, store and adapters decide together.
  \<^item> \<open>Eval\<close>, \<open>Eval_Correct\<close>, \<open>Eval_Main\<close>: the command that scores the shipped detectors against a labelled
    corpus and gates a change on the scores (\<open>cmd/eval\<close>).

  \<^bold>\<open>What the lemmas show.\<close> Redactions computed on normalized text land inside the original text, in
  order and apart, and cover what a finding covered where the maps ascend; session taint, pins and
  blocked tools last exactly their ttl and reach every later hop; the decision of a policy is the
  most severe action of the matching rules, monotone in the findings and independent of the order of
  the rules; the registry's answer does not depend on the schedule of its goroutines; every hop offers the sink
  one event; check digits catch the errors they are meant to; the Redis store refines the same
  interface as the in-memory one. What the theorems on the service assume of its detectors holds
  of the five it ships (\<open>fast_registry_facts\<close>), so the adapters write back exactly the redactions of
  the verdict into the payload. A tool call or a chat goes on only as its verdict says, however the bytes were
  chunked. The automaton finds every occurrence of every term and no other. The process serves exactly
  when everything its environment names works, both ports included. The evaluation's counts are a confusion matrix, its
  scores quotients of the counts to four decimals, and its gate passes exactly what is no worse than the baseline
  by bounds that rounding moves in the last bits only.

  The lemmas on parallel requests hold of every interleaving. Run alone, the calls of an inspection compute what the
  inspection computes (\<open>run_inspect\<close>), so the interleaved model and the sequential one are of the same code. Once a
  verdict that taints a session or blocks a tool has been returned, every inspection that starts afterwards and ends
  within the ttl meets the entry; the events offered to the sink are at any moment those of the finished inspections; an inspection
  ends after at most eight calls of its own. The exception is \<open>Pin_Race\<close>: reading a pin and writing it are two calls,
  and two first definitions can both pass for unchanged. The end-to-end theorems compose all of it: an injected tool result,
  on the MCP route or as a \<open>tool\<close> message of a chat, has the e-mails of its session blocked from then on.

  \<^bold>\<open>Bounds and fuel.\<close> Recursion is structural or has a termination proof, with two exceptions. The
  breadth-first search of \<open>Aho_Corasick\<close> runs for as many rounds as there are nodes, and the loop that climbs
  failure links for as many steps; that this is enough to link every node is part of the proof that the
  automaton is complete. The matcher of \<open>Regex\<close> runs on the length of the remaining text.
  Integers are \<open>int\<close> or \<open>nat\<close>: every length and offset of a text in memory fits Go's 64-bit \<open>int\<close>.
  A float is the rational it stands for, and a policy threshold is a \<open>float64\<close> with NaN and infinities. The scores of
  findings are compared and not computed with. The entropy check, the quotients and bounds of the evaluation and
  the latency in an event are computed with rounding (\<open>f64\<close>), one for each operation as on amd64, and the theorems
  bound what it changes. Counts of cases and bytes stay exact below \<open>2\<^sup>5\<^sup>3\<close>.

  \<^bold>\<open>Parameters.\<close> SHA-256 and hexadecimal encoding, the YAML decoder, the JSON encoding of an audit
  event and of a baseline, a Redis client, Unicode tables (NFKC, HTML entities, \<open>IsPrint\<close>, \<open>strings.ToLower\<close>),
  \<open>math.Log2\<close>, \<open>net/url\<close>, \<open>mime.ParseMediaType\<close>, \<open>regexp.Compile\<close> of a tenant's pattern, the MCP SDK of the sample server, the
  environment, the file system and the wall clock are arguments. What is relied on of them is a
  named hypothesis (\<open>nfkc_documented\<close>, \<open>ascii_normal\<close>, \<open>log2_documented\<close>, \<open>documented_server\<close>, \<open>json_documented\<close>,
  \<open>os_documented\<close>), shown satisfiable by a witness.

  \<^bold>\<open>Not modelled.\<close> Generated gRPC code and the gRPC runtime, which enforces the message limit; the delivery of
  signals; \<open>main\<close> of the sample server, which only listens; and the data races of Go's memory model, from which the
  mutexes of the store and the sink keep the service. Sequences of hops with
  the passing of time are those of the in-memory store; over Redis, when a key expires is the server's affair, and
  the theorems say what holds as long as it is held.
\<close>

end
